(* ===== verification/Prelude.thy ===== *)
theory Prelude
  imports Main "HOL-Library.Word" "HOL-Library.Signed_Division"
begin

text \<open>
  Shared ground of the development: the machine types of the bot, the results of
  fallible Rust code, checked word arithmetic and the generic lemmas the component
  theories use.

  \<^item> \<open>U256\<close> and \<open>I256\<close> are \<open>256 word\<close>. The operators \<open>+\<close>, \<open>-\<close>, \<open>*\<close> and \<open>pow\<close> of
    \<open>U256\<close> wrap; those of \<open>I256\<close> wrap in the release profile the \<^verbatim>\<open>Dockerfile\<close> builds
    (\<^verbatim>\<open>cargo build --release\<close>). \<open>I256::from_raw\<close> and \<open>into_raw\<close> reinterpret the
    same bits, so both are the identity here, and \<open>sint\<close> reads the signed value.
  \<^item> A result is \<open>fault + 'a\<close>. \<open>Error e\<close> is a returned \<open>Err\<close>, which the caller's
    \<open>match\<close> sees; \<open>Panic p\<close> unwinds through every caller.
\<close>

unbundle bit_operations_syntax

subsection \<open>Machine types\<close>

type_synonym u8 = "8 word"
type_synonym u32 = "32 word"
type_synonym u64 = "64 word"
type_synonym u128 = "128 word"
type_synonym u160 = "160 word"
type_synonym u256 = "256 word"
type_synonym i16 = "16 word"
type_synonym i32 = "32 word"
type_synonym i128 = "128 word"
type_synonym i256 = "256 word"
type_synonym address = "160 word"
type_synonym b256 = "256 word"

subsection \<open>Results of fallible code\<close>

datatype panic =
    Div_by_zero
  | Unwrap_none
  | Unwrap_err
  | Index_out_of_range
  | Conversion_out_of_range
  | Assert_failed string
  | Explicit_panic string

datatype error =
    Insufficient_liquidity
  | Liquidity_overflow
  | Transport_error
  | Math_error
  | Account_fetch_failed
  | Decode_failed
  | Conversion_failed
  | Simulation_reverted
  | Simulation_failed

datatype fault = Panic panic | Error error

type_synonym 'a res = "fault + 'a"

abbreviation Ok :: "'a \<Rightarrow> 'a res" where
  "Ok x \<equiv> Inr x"

abbreviation panic :: "panic \<Rightarrow> 'a res" where
  "panic p \<equiv> Inl (Panic p)"

abbreviation err :: "error \<Rightarrow> 'a res" where
  "err e \<equiv> Inl (Error e)"

text \<open>Sequencing: a panic and an \<open>Err\<close> passed on by \<open>?\<close> both end the computation.\<close>

definition rbind :: "'a res \<Rightarrow> ('a \<Rightarrow> 'b res) \<Rightarrow> 'b res" where
  "rbind m f = (case m of Inl e \<Rightarrow> Inl e | Inr x \<Rightarrow> f x)"

lemma rbind_Inl [simp]: "rbind (Inl e) f = Inl e"
  by (simp add: rbind_def)

lemma rbind_Inr [simp]: "rbind (Inr x) f = f x"
  by (simp add: rbind_def)

lemma rbind_eq_Inr: "rbind m f = Inr y \<longleftrightarrow> (\<exists>x. m = Inr x \<and> f x = Inr y)"
  by (cases m) auto

lemma rbind_eq_Inl:
  "rbind m f = Inl e \<longleftrightarrow> m = Inl e \<or> (\<exists>x. m = Inr x \<and> f x = Inl e)"
  by (cases m) auto

lemma rbind_assoc: "rbind (rbind m f) g = rbind m (\<lambda>x. rbind (f x) g)"
  by (cases m) auto

lemma rbind_Ok [simp]: "rbind m Inr = m"
  by (cases m) auto

lemma rbind_cong [fundef_cong]:
  "m = m' \<Longrightarrow> (\<And>x. m' = Inr x \<Longrightarrow> f x = g x) \<Longrightarrow> rbind m f = rbind m' g"
  by (cases m') auto

text \<open>\<open>Option::unwrap\<close>, \<open>Result::unwrap\<close> and a \<open>match\<close> with a default for \<open>Err\<close>.\<close>

definition unwrap_opt :: "'a option \<Rightarrow> 'a res" where
  "unwrap_opt x = (case x of None \<Rightarrow> panic Unwrap_none | Some a \<Rightarrow> Ok a)"

definition unwrap_res :: "'a res \<Rightarrow> 'a res" where
  "unwrap_res r = (case r of Inl (Error e) \<Rightarrow> panic Unwrap_err | _ \<Rightarrow> r)"

definition or_default :: "'a res \<Rightarrow> 'a \<Rightarrow> 'a res" where
  "or_default r d = (case r of Inl (Error e) \<Rightarrow> Ok d | _ \<Rightarrow> r)"

lemma unwrap_opt_simps [simp]:
  "unwrap_opt (Some a) = Ok a"
  "unwrap_opt None = panic Unwrap_none"
  by (simp_all add: unwrap_opt_def)

lemma unwrap_opt_eq_Inr [simp]: "unwrap_opt x = Inr a \<longleftrightarrow> x = Some a"
  by (cases x) auto

lemma unwrap_res_simps [simp]:
  "unwrap_res (Inr a) = Inr a"
  "unwrap_res (Inl (Error e)) = panic Unwrap_err"
  "unwrap_res (Inl (Panic p)) = panic p"
  by (simp_all add: unwrap_res_def)

lemma unwrap_res_eq_Inr [simp]: "unwrap_res r = Inr a \<longleftrightarrow> r = Inr a"
  by (auto simp: unwrap_res_def split: sum.splits fault.splits)

lemma or_default_simps [simp]:
  "or_default (Inr a) d = Inr a"
  "or_default (Inl (Error e)) d = Ok d"
  "or_default (Inl (Panic p)) d = panic p"
  by (simp_all add: or_default_def)

text \<open>\<open>Uint::to\<close> and \<open>Uint::from\<close> between widths panic when the value does not fit;
  \<open>saturating_to\<close> gives the largest value instead.\<close>

definition uint_to :: "'a::len word \<Rightarrow> 'b::len word res" where
  "uint_to x = (if unat x < 2 ^ LENGTH('b) then Ok (ucast x) else panic Conversion_out_of_range)"

definition saturating_to_unsigned :: "'a::len word \<Rightarrow> 'b::len word" where
  "saturating_to_unsigned x = (if unat x < 2 ^ LENGTH('b) then ucast x else - 1)"

definition saturating_to_signed :: "'a::len word \<Rightarrow> 'b::len word" where
  "saturating_to_signed x =
     (if unat x < 2 ^ (LENGTH('b) - 1) then ucast x else word_of_int (2 ^ (LENGTH('b) - 1) - 1))"

text \<open>A loop over the elements of a collection whose body may fail.\<close>

fun rfold :: "('a \<Rightarrow> 's \<Rightarrow> 's res) \<Rightarrow> 'a list \<Rightarrow> 's \<Rightarrow> 's res" where
  "rfold f [] s = Ok s"
| "rfold f (x # xs) s = rbind (f x s) (rfold f xs)"

lemma rfold_append: "rfold f (xs @ ys) s = rbind (rfold f xs s) (rfold f ys)"
proof (induction xs arbitrary: s)
  case (Cons x xs)
  then show ?case by (cases "f x s") auto
qed simp

lemma rfold_map: "rfold f (map g xs) = rfold (\<lambda>x. f (g x)) xs"
proof (induction xs)
  case (Cons x xs)
  then show ?case by (intro ext) (simp only: list.map rfold.simps)
qed (intro ext, simp)

lemma rfold_invariant:
  assumes "rfold f xs s = Inr t" and "P s"
    and "\<And>x s t. x \<in> set xs \<Longrightarrow> P s \<Longrightarrow> f x s = Inr t \<Longrightarrow> P t"
  shows "P t"
  using assms
proof (induction xs arbitrary: s)
  case Nil
  then show ?case by simp
next
  case (Cons x xs)
  then obtain u where "f x s = Inr u" "rfold f xs u = Inr t"
    by (auto simp: rbind_eq_Inr)
  with Cons show ?case by (metis list.set_intros)
qed

subsection \<open>Computations that may not end\<close>

text \<open>\<open>None\<close> is a computation that does not end; sequencing and loops over collections.\<close>

definition dbind :: "'a res option \<Rightarrow> ('a \<Rightarrow> 'b res option) \<Rightarrow> 'b res option" where
  "dbind m f = (case m of None \<Rightarrow> None | Some (Inl e) \<Rightarrow> Some (Inl e) | Some (Inr x) \<Rightarrow> f x)"

lemma dbind_simps [simp]:
  "dbind None f = None"
  "dbind (Some (Inl e)) f = Some (Inl e)"
  "dbind (Some (Inr x)) f = f x"
  by (simp_all add: dbind_def)

lemma dbind_eq_Some_Inr:
  "dbind m f = Some (Inr y) \<longleftrightarrow> (\<exists>x. m = Some (Inr x) \<and> f x = Some (Inr y))"
  by (auto simp: dbind_def split: option.splits sum.splits)

lemma dbind_cong [fundef_cong]:
  "m = m' \<Longrightarrow> (\<And>x. m' = Some (Inr x) \<Longrightarrow> f x = g x) \<Longrightarrow> dbind m f = dbind m' g"
  by (auto simp: dbind_def split: option.splits sum.splits)

fun dfold :: "('a \<Rightarrow> 's \<Rightarrow> 's res option) \<Rightarrow> 'a list \<Rightarrow> 's \<Rightarrow> 's res option" where
  "dfold f [] s = Some (Ok s)"
| "dfold f (x # xs) s = dbind (f x s) (dfold f xs)"

lemma dfold_invariant:
  assumes "dfold f xs s = Some (Inr t)" and "P s"
    and "\<And>x s t. x \<in> set xs \<Longrightarrow> P s \<Longrightarrow> f x s = Some (Inr t) \<Longrightarrow> P t"
  shows "P t"
  using assms
proof (induction xs arbitrary: s)
  case Nil
  then show ?case by simp
next
  case (Cons x xs)
  then obtain u where "f x s = Some (Inr u)" "dfold f xs u = Some (Inr t)"
    by (auto simp: dbind_eq_Some_Inr)
  with Cons show ?case by (metis list.set_intros)
qed

text \<open>What one step establishes and every step keeps holds at the end.\<close>

lemma dfold_establishes:
  assumes "dfold f xs s = Some (Inr t)" and "x \<in> set xs"
    and "\<And>s t. f x s = Some (Inr t) \<Longrightarrow> Q t"
    and "\<And>y s t. y \<in> set xs \<Longrightarrow> Q s \<Longrightarrow> f y s = Some (Inr t) \<Longrightarrow> Q t"
  shows "Q t"
  using assms
proof (induction xs arbitrary: s)
  case Nil
  then show ?case by simp
next
  case (Cons y ys)
  from Cons.prems(1) obtain u where u: "f y s = Some (Inr u)" "dfold f ys u = Some (Inr t)"
    by (auto simp: dbind_eq_Some_Inr)
  have keep: "Q t" if "z \<in> set ys" "Q s" "f z s = Some (Inr t)" for z s t
    by (rule Cons.prems(4) [OF _ that(2,3)]) (simp add: that(1))
  show ?case
  proof (cases "x \<in> set ys")
    case True
    show ?thesis by (rule Cons.IH [OF u(2) True Cons.prems(3) keep])
  next
    case False
    with Cons.prems(2) have "x = y" by simp
    with Cons.prems(3) u(1) have "Q u" by simp
    from u(2) this keep show ?thesis by (rule dfold_invariant)
  qed
qed

subsection \<open>Word arithmetic\<close>

definition checked_add :: "'a::len word \<Rightarrow> 'a word \<Rightarrow> 'a word option" where
  "checked_add a b = (if unat a + unat b < 2 ^ LENGTH('a) then Some (a + b) else None)"

definition checked_sub :: "'a::len word \<Rightarrow> 'a word \<Rightarrow> 'a word option" where
  "checked_sub a b = (if b \<le> a then Some (a - b) else None)"

definition checked_mul :: "'a::len word \<Rightarrow> 'a word \<Rightarrow> 'a word option" where
  "checked_mul a b = (if unat a * unat b < 2 ^ LENGTH('a) then Some (a * b) else None)"

definition checked_div :: "'a::len word \<Rightarrow> 'a word \<Rightarrow> 'a word option" where
  "checked_div a b = (if b = 0 then None else Some (a div b))"

text \<open>The operator \<open>/\<close>, which panics on a zero divisor.\<close>

definition udiv :: "'a::len word \<Rightarrow> 'a word \<Rightarrow> 'a word res" where
  "udiv a b = (if b = 0 then panic Div_by_zero else Ok (a div b))"

lemma udiv_nonzero [simp]: "b \<noteq> 0 \<Longrightarrow> udiv a b = Ok (a div b)"
  by (simp add: udiv_def)

lemma udiv_zero [simp]: "udiv a 0 = panic Div_by_zero"
  by (simp add: udiv_def)

lemma udiv_eq_Inr: "udiv a b = Inr c \<longleftrightarrow> b \<noteq> 0 \<and> c = a div b"
  by (auto simp: udiv_def)

named_theorems unat_exact \<open>word operations that agree with the natural numbers\<close>

lemma unat_add_exact [unat_exact]:
  "unat a + unat b < 2 ^ LENGTH('a) \<Longrightarrow> unat (a + b) = unat a + unat b"
  for a b :: "'a::len word"
  by (simp add: unat_word_ariths)

lemma unat_mul_exact [unat_exact]:
  "unat a * unat b < 2 ^ LENGTH('a) \<Longrightarrow> unat (a * b) = unat a * unat b"
  for a b :: "'a::len word"
  by (simp add: unat_word_ariths)

lemma unat_sub_exact [unat_exact]: "b \<le> a \<Longrightarrow> unat (a - b) = unat a - unat b"
  for a b :: "'a::len word"
  by (simp add: unat_sub)

lemma unat_div_exact [unat_exact]: "unat (a div b) = unat a div unat b"
  for a b :: "'a::len word"
  by (simp add: unat_div)

lemma checked_add_Some:
  "checked_add a b = Some c \<Longrightarrow> c = a + b \<and> unat c = unat a + unat b"
  by (auto simp: checked_add_def unat_add_exact split: if_splits)

lemma checked_sub_Some:
  "checked_sub a b = Some c \<Longrightarrow> c = a - b \<and> unat c = unat a - unat b \<and> unat b \<le> unat a"
  by (auto simp: checked_sub_def unat_sub_exact word_le_nat_alt split: if_splits)

lemma checked_mul_Some:
  "checked_mul a b = Some c \<Longrightarrow> c = a * b \<and> unat c = unat a * unat b"
  by (auto simp: checked_mul_def unat_mul_exact split: if_splits)

lemma checked_div_Some:
  "checked_div a b = Some c \<Longrightarrow> b \<noteq> 0 \<and> unat c = unat a div unat b"
  by (auto simp: checked_div_def unat_div_exact split: if_splits)

lemma unat_less_width: "unat (x :: 'a::len word) < 2 ^ LENGTH('a)"
  by (rule unsigned_less)

lemma take_bit_unat_less: "unat x < 2 ^ n \<Longrightarrow> take_bit n x = x" for x :: "'a::len word"
  by (simp add: word_unat_eq_iff unsigned_take_bit_eq take_bit_nat_eq_self)

lemma ucast_up_down: "LENGTH('a) \<le> LENGTH('b) \<Longrightarrow> ucast (ucast x :: 'b::len word) = x"
  for x :: "'a::len word"
  by (rule bit_word_eqI) (simp add: bit_simps)

lemma unat_take_bit_less: "n \<le> LENGTH('b) \<Longrightarrow> unat (take_bit n x) < 2 ^ LENGTH('b::len)"
  for x :: "'a::len word"
  by (rule less_le_trans [of _ "2 ^ n"]) (simp_all add: unsigned_take_bit_eq)

lemma uint_to_take_bit:
  "n \<le> LENGTH('b) \<Longrightarrow> uint_to (take_bit n x) = Ok (ucast (take_bit n x) :: 'b::len word)"
  for x :: "'a::len word"
  by (simp add: uint_to_def unat_take_bit_less)

lemma word_cat_256_inject:
  fixes a b a' b' :: u256
  assumes "(word_cat a b :: 512 word) = word_cat a' b'"
  shows "a = a' \<and> b = b'"
proof -
  have lo: "bit (word_cat u v :: 512 word) n = bit v n"
    and hi: "bit (word_cat u v :: 512 word) (n + 256) = bit u n" if "n < 256" for u v :: u256 and n
    using that by (simp_all add: bit_word_cat_iff)
  have "a = a'" by (rule bit_word_eqI) (use hi [of _ a b] hi [of _ a' b'] assms in simp)
  moreover have "b = b'" by (rule bit_word_eqI) (use lo [of _ a b] lo [of _ a' b'] assms in simp)
  ultimately show ?thesis by simp
qed

lemma scast_up_inject:
  assumes "LENGTH('a) \<le> LENGTH('b)" and "(scast x :: 'b::len word) = scast y"
  shows "x = (y :: 'a::len word)"
proof -
  have "scast (scast z :: 'b word) = z" for z :: "'a word"
    by (rule scast_up_scast_id) (simp add: is_up assms(1))
  with assms(2) show ?thesis by metis
qed

lemma unat_ucast_up: "LENGTH('a) \<le> LENGTH('b) \<Longrightarrow> unat (ucast x :: 'b::len word) = unat x"
  for x :: "'a::len word"
  using less_le_trans [OF unat_less_width, of "2 ^ LENGTH('b)" x]
  by (simp add: unsigned_ucast_eq take_bit_nat_eq_self)

lemma saturating_unsigned_ucast:
  "LENGTH('a) \<le> LENGTH('b) \<Longrightarrow> saturating_to_unsigned (ucast x :: 'b::len word) = x"
  for x :: "'a::len word"
  by (simp add: saturating_to_unsigned_def unat_ucast_up unat_less_width ucast_up_down)

lemma unat_nonneg_signed:
  "0 \<le> sint x \<Longrightarrow> unat x < 2 ^ (LENGTH('a) - 1)" for x :: "'a::len word"
proof -
  assume nn: "0 \<le> sint x"
  have lt: "sint x < 2 ^ (LENGTH('a) - 1)" by (rule sint_lt)
  also have "\<dots> \<le> (2::int) ^ LENGTH('a)" by (rule power_increasing) auto
  finally have "uint x = sint x"
    using nn by (metis uint_sint take_bit_int_eq_self)
  with lt have "int (unat x) < int (2 ^ (LENGTH('a) - 1))" by simp
  then show ?thesis by (simp only: of_nat_less_iff)
qed

lemma sint_nonneg_iff_unat: "0 \<le> sint x \<longleftrightarrow> unat x < 2 ^ (LENGTH('a) - 1)"
  for x :: "'a::len word"
proof
  assume "unat x < 2 ^ (LENGTH('a) - 1)"
  then have "take_bit (LENGTH('a) - 1) x = x" by (rule take_bit_unat_less)
  then have "\<not> bit x (LENGTH('a) - 1)" by (metis bit_take_bit_iff less_irrefl)
  then show "0 \<le> sint x" by (simp add: bit_last_iff)
qed (rule unat_nonneg_signed)

lemma sint_narrow:
  assumes "LENGTH('b) \<le> LENGTH('a)"
    and "- (2 ^ (LENGTH('b) - 1)) \<le> sint x" and "sint x < 2 ^ (LENGTH('b) - 1)"
  shows "sint (ucast (x :: 'a::len word) :: 'b::len word) = sint x"
proof -
  have "(ucast x :: 'b word) = scast x"
    by (rule bit_word_eqI) (use assms(1) in \<open>auto simp: bit_simps\<close>)
  then have "sint (ucast x :: 'b word) = signed_take_bit (LENGTH('b) - 1) (sint x)"
    by (simp add: signed_scast_eq)
  with assms show ?thesis by (simp add: signed_take_bit_int_eq_self_iff)
qed

lemma sint_in_range:
  "- (2 ^ (LENGTH('a) - 1)) \<le> k \<Longrightarrow> k < 2 ^ (LENGTH('a) - 1) \<Longrightarrow>
     sint (word_of_int k :: 'a::len word) = k"
  by (simp add: sint_sbintrunc' signed_take_bit_int_eq_self_iff)

lemma unat_take_bit_bound: "unat (take_bit n x) < 2 ^ n" for x :: "'a::len word"
  by (simp add: unsigned_take_bit_eq)

lemma saturating_signed_ucast:
  "LENGTH('a) \<le> LENGTH('b) \<Longrightarrow> 0 \<le> sint x \<Longrightarrow>
     saturating_to_signed (ucast x :: 'b::len word) = x"
  for x :: "'a::len word"
  using unat_nonneg_signed [of x]
  by (simp add: saturating_to_signed_def unat_ucast_up ucast_up_down)

text \<open>A product of two bounded factors stays within the product of the bounds.\<close>

lemma mult_lt_bounds: "a < x \<Longrightarrow> b < y \<Longrightarrow> a * b < x * (y::nat)"
  by (rule mult_strict_mono') auto

text \<open>The constants the source writes as floating-point literals, and the base amount.\<close>

abbreviation e18 :: u256 where
  "e18 \<equiv> 1000000000000000000"

lemma unat_e18 [simp]: "unat e18 = 10 ^ 18"
  by simp

subsection \<open>Signed arithmetic on machine words\<close>

text \<open>
  Rust's \<open>/\<close> and \<open>%\<close> on signed integers truncate towards zero and panic on a zero
  divisor. (\<open>MIN / -1\<close> overflows: a panic for the primitive types.)
\<close>

definition i_div :: "'a::len word \<Rightarrow> 'a word \<Rightarrow> 'a word res" where
  "i_div a b =
     (if b = 0 then panic Div_by_zero
      else if sint a = - (2 ^ (LENGTH('a) - 1)) \<and> sint b = -1 then panic (Explicit_panic ''overflow'')
      else Ok (word_of_int (sint a sdiv sint b)))"

definition sgt :: "'a::len word \<Rightarrow> 'a word \<Rightarrow> bool" where
  "sgt a b = (sint b < sint a)"

subsection \<open>Association lists as the contents of a Rust map\<close>

text \<open>
  A \<open>HashMap\<close> that is only iterated is the list of its entries in iteration order;
  one that is only looked up is a function to \<open>option\<close>.
\<close>

lemma map_add_upd_distinct: "k \<notin> dom m \<Longrightarrow> m(k \<mapsto> v) = m ++ [k \<mapsto> v]"
  by auto

end
