(* ===== verification/Pools.thy ===== *)
theory Pools
  imports Prelude
begin

text \<open>
  The data every component passes around (\<^verbatim>\<open>src/swap.rs\<close>, \<^verbatim>\<open>src/main.rs\<close>,
  \<^verbatim>\<open>src/events.rs\<close>): pool types, pools, swap steps and paths, the parameters of the two
  contracts and the events of the channels.

  \<open>PoolType\<close> and \<open>Pool\<close> come from the crate \<^verbatim>\<open>pool_sync\<close>. The constructors of \<open>pool_type\<close>
  are those of the exhaustive match of \<^verbatim>\<open>Calculator::compute_amount_out\<close>; a pool is the
  values its accessors return (a \<open>Pool\<close> is never mutated by the bot).
\<close>

subsection \<open>Pools\<close>

datatype pool_type =
    UniswapV2 | SushiSwapV2 | SwapBasedV2 | PancakeSwapV2 | BaseSwapV2 | DackieSwapV2
  | AlienBaseV2
  | UniswapV3 | SushiSwapV3 | BaseSwapV3 | Slipstream | PancakeSwapV3 | AlienBaseV3
  | SwapBasedV3 | DackieSwapV3
  | Aerodrome
  | MaverickV1 | MaverickV2
  | BalancerV2
  | CurveTwoCrypto | CurveTriCrypto

text \<open>What \<open>get_v2\<close> and \<open>get_v3\<close> give access to; the two maps of a V3 pool are only
  iterated, so they are the lists of their entries.\<close>

record v2_pool =
  v2_reserve0 :: u256
  v2_reserve1 :: u256
  v2_stable :: "bool option"

record v3_pool =
  v3_sqrt_price :: u256
  v3_tick :: i32
  v3_liquidity :: u128
  v3_tick_spacing :: i32
  v3_fee :: u32
  v3_ticks :: "(i32 \<times> i128) list"
  v3_bitmap :: "(i16 \<times> u256) list"

text \<open>The variants \<^verbatim>\<open>ArbGraph\<close> matches on, with the token list and balances it reads.\<close>

datatype pool_variant =
    VBalancerV2 "address list" "address \<Rightarrow> u256"
  | VCurveTriCrypto "address list"
  | VSimple

record pool =
  pl_address :: address
  pl_token0 :: address
  pl_token1 :: address
  pl_decimals0 :: u8
  pl_decimals1 :: u8
  pl_type :: pool_type
  pl_fee :: u32
  pl_is_v2 :: bool
  pl_is_v3 :: bool
  pl_v2 :: "v2_pool option"
  pl_v3 :: "v3_pool option"
  pl_variant :: pool_variant

subsection \<open>Swap steps and paths\<close>

record swap_step =
  st_pool :: address
  st_token_in :: address
  st_token_out :: address
  st_protocol :: pool_type
  st_fee :: u32

record swap_path =
  sp_steps :: "swap_step list"
  sp_hash :: u64

text \<open>\<open>AMOUNT\<close>, the initial amount of every arbitrage: \<open>U256::from(1e15)\<close>.\<close>

definition AMOUNT :: u256 where
  "AMOUNT = 1000000000000000"

lemma unat_AMOUNT [simp]: "unat AMOUNT = 10 ^ 15"
  by (simp add: AMOUNT_def)

subsection \<open>Contract parameters\<close>

record swap_params =
  pr_pools :: "address list"
  pr_versions :: "u8 list"
  pr_amount_in :: u256

text \<open>
  \<open>FlashQuoter::SwapParams\<close> and \<open>FlashSwap::SwapParams\<close> have the same fields; the
  second record keeps them apart as the Rust types do. \<open>PoolType::is_v3\<close> belongs to
  \<^verbatim>\<open>pool_sync\<close> and is a parameter.
\<close>

record flash_swap_params =
  fs_pools :: "address list"
  fs_versions :: "u8 list"
  fs_amount_in :: u256

definition to_flash_swap :: "swap_params \<Rightarrow> flash_swap_params" where
  "to_flash_swap params =
     \<lparr>fs_pools = pr_pools params,
      fs_versions = pr_versions params,
      fs_amount_in = pr_amount_in params\<rparr>"

fun push_steps ::
  "(pool_type \<Rightarrow> bool) \<Rightarrow> swap_step list \<Rightarrow> address list \<Rightarrow> u8 list \<Rightarrow> address list \<times> u8 list"
where
  "push_steps is_v3 [] ps vs = (ps, vs)"
| "push_steps is_v3 (s # ss) ps vs =
     push_steps is_v3 ss (ps @ [st_pool s])
       (if is_v3 (st_protocol s) then vs @ [1] else vs @ [0])"

definition to_quoter_params :: "(pool_type \<Rightarrow> bool) \<Rightarrow> swap_path \<Rightarrow> swap_params" where
  "to_quoter_params is_v3 path =
     (let (ps, vs) = push_steps is_v3 (sp_steps path) [] []
      in \<lparr>pr_pools = ps, pr_versions = vs, pr_amount_in = AMOUNT\<rparr>)"

lemma push_steps_eq:
  "push_steps is_v3 ss ps vs =
     (ps @ map st_pool ss, vs @ map (\<lambda>s. if is_v3 (st_protocol s) then 1 else 0) ss)"
  by (induction ss arbitrary: ps vs) auto

lemma to_quoter_params_eq:
  "to_quoter_params is_v3 path =
     \<lparr>pr_pools = map st_pool (sp_steps path),
      pr_versions = map (\<lambda>s. if is_v3 (st_protocol s) then 1 else 0) (sp_steps path),
      pr_amount_in = AMOUNT\<rparr>"
  by (simp add: to_quoter_params_def push_steps_eq)

subsection \<open>Events\<close>

text \<open>\<open>header\<close> of a block is opaque but for the fields the bot reads.\<close>

record header =
  hd_number :: u64
  hd_base_fee :: "u64 option"
  hd_gas_used :: u64
  hd_gas_limit :: u64

datatype event =
    ArbPath swap_path u256 u64
  | ValidPath swap_params u256 u64
  | PoolsTouched "address list" u64
  | NewBlock header

end
