(* ===== verification/Graph.thy ===== *)
theory Graph
  imports Pools "HOL-Library.Multiset"
begin

text \<open>
  The token graph and its arbitrage cycles (\<^verbatim>\<open>src/graph.rs\<close>). An undirected graph of
  \<^verbatim>\<open>petgraph\<close> is the list of its nodes, whose indices are positions, and the list of its
  edges. In which order \<open>edges(node)\<close> yields the edges at a node is a parameter \<open>ed\<close>, of
  which only \<open>edge_order\<close> is asked. The hash of a path is a parameter too.

  \<^verbatim>\<open>construct_cycles\<close> is recursive in the length of the current path, up to \<open>max_hops\<close>; the
  model takes fuel for the depth of the recursion, and \<open>cycles_fuel\<close> shows that one more
  than \<open>max_hops\<close> is enough.
\<close>

subsection \<open>Building the graph\<close>

record graph =
  gr_nodes :: "address list"
  gr_edges :: "(nat \<times> nat \<times> pool) list"

text \<open>The graph under construction with the set \<open>inserted_nodes\<close>.\<close>

type_synonym building = "graph \<times> address set"

definition add_token :: "address \<Rightarrow> building \<Rightarrow> building" where
  "add_token token gi =
     (let (g, inserted) = gi
      in if token \<notin> inserted then (g\<lparr>gr_nodes := gr_nodes g @ [token]\<rparr>, insert token inserted)
         else gi)"

definition find_node :: "graph \<Rightarrow> address \<Rightarrow> nat option" where
  "find_node g token = find (\<lambda>n. gr_nodes g ! n = token) [0..<length (gr_nodes g)]"

definition add_edge :: "nat \<Rightarrow> nat \<Rightarrow> pool \<Rightarrow> graph \<Rightarrow> graph" where
  "add_edge i j p g = g\<lparr>gr_edges := gr_edges g @ [(i, j, p)]\<rparr>"

text \<open>The edge between the nodes of two tokens.\<close>

definition connect :: "pool \<Rightarrow> address \<times> address \<Rightarrow> graph \<Rightarrow> graph res" where
  "connect p ts g =
     rbind (unwrap_opt (find_node g (fst ts))) (\<lambda>node_in.
     rbind (unwrap_opt (find_node g (snd ts))) (\<lambda>node_out.
       Ok (add_edge node_in node_out p g)))"

definition add_simple_pool_to_graph :: "pool \<Rightarrow> building \<Rightarrow> building res" where
  "add_simple_pool_to_graph p gi =
     (let (g, inserted) = add_token (pl_token1 p) (add_token (pl_token0 p) gi)
      in rbind (connect p (pl_token0 p, pl_token1 p) g) (\<lambda>g. Ok (g, inserted)))"

text \<open>\<open>enumerate\<close> with \<open>skip(i + 1)\<close>.\<close>

definition token_pairs :: "address list \<Rightarrow> (address \<times> address) list" where
  "token_pairs tokens =
     concat (map (\<lambda>i. map (\<lambda>token_out. (tokens ! i, token_out)) (drop (i + 1) tokens))
       [0..<length tokens])"

definition add_curve_pool_to_graph :: "pool \<Rightarrow> address list \<Rightarrow> building \<Rightarrow> building res" where
  "add_curve_pool_to_graph p tokens gi =
     (let (g, inserted) = fold add_token tokens gi
      in rbind (rfold (connect p) (token_pairs tokens) g) (\<lambda>g. Ok (g, inserted)))"

definition add_balancer_pool_to_graph ::
  "pool \<Rightarrow> address list \<Rightarrow> (address \<Rightarrow> u256) \<Rightarrow> building \<Rightarrow> building res"
where
  "add_balancer_pool_to_graph p tokens balance gi =
     (let (g, inserted) = fold add_token tokens gi
      in rbind (rfold (\<lambda>ts g. if balance (fst ts) \<noteq> 0 \<and> balance (snd ts) \<noteq> 0
                             then connect p ts g else Ok g) (token_pairs tokens) g)
           (\<lambda>g. Ok (g, inserted)))"

definition add_pool_to_graph :: "pool \<Rightarrow> building \<Rightarrow> building res" where
  "add_pool_to_graph p gi =
     (case pl_variant p of
        VBalancerV2 tokens balance \<Rightarrow> add_balancer_pool_to_graph p tokens balance gi
      | VCurveTriCrypto tokens \<Rightarrow> add_curve_pool_to_graph p tokens gi
      | VSimple \<Rightarrow> add_simple_pool_to_graph p gi)"

definition build_graph :: "pool list \<Rightarrow> graph res" where
  "build_graph working_pools =
     rbind (rfold add_pool_to_graph working_pools (\<lparr>gr_nodes = [], gr_edges = []\<rparr>, {}))
       (\<lambda>gi. Ok (fst gi))"

subsection \<open>Searching cycles\<close>

type_synonym hop = "nat \<times> pool \<times> nat"
type_synonym edge_iter = "graph \<Rightarrow> nat \<Rightarrow> (nat \<times> pool) list"

record cycle_state =
  cy_path :: "hop list"
  cy_visited :: "nat set"
  cy_all :: "swap_step list list"

definition hop_step :: "graph \<Rightarrow> hop \<Rightarrow> swap_step" where
  "hop_step g h =
     (let (base, p, quote) = h
      in \<lparr>st_pool = pl_address p, st_token_in = gr_nodes g ! base,
          st_token_out = gr_nodes g ! quote, st_protocol = pl_type p, st_fee = pl_fee p\<rparr>)"

text \<open>Whether a path may be closed with this pool.\<close>

definition may_close :: "hop list \<Rightarrow> pool \<Rightarrow> bool" where
  "may_close path p \<longleftrightarrow>
     2 \<le> length path \<or>
     (length path = 1 \<and> pl_type (fst (snd (path ! 0))) \<noteq> pl_type p)"

text \<open>One edge of the loop; \<open>rec\<close> is the recursive call.\<close>

definition visit_edge ::
  "(nat \<Rightarrow> cycle_state \<Rightarrow> cycle_state option) \<Rightarrow> graph \<Rightarrow> nat \<Rightarrow> nat \<Rightarrow> nat \<times> pool \<Rightarrow>
     cycle_state \<Rightarrow> cycle_state option"
where
  "visit_edge rec g start current edge st =
     (let (next_node, protocol) = edge
      in if next_node = start then
           (if may_close (cy_path st) protocol
            then Some (st\<lparr>cy_all := cy_all st @
                   [map (hop_step g) (cy_path st @ [(current, protocol, next_node)])]\<rparr>)
            else Some st)
         else if next_node \<notin> cy_visited st then
           map_option (\<lambda>st'. st'\<lparr>cy_path := butlast (cy_path st'),
                               cy_visited := cy_visited st' - {next_node}\<rparr>)
             (rec next_node (st\<lparr>cy_path := cy_path st @ [(current, protocol, next_node)],
                              cy_visited := insert next_node (cy_visited st)\<rparr>))
         else Some st)"

fun visit_edges ::
  "(nat \<times> pool \<Rightarrow> cycle_state \<Rightarrow> cycle_state option) \<Rightarrow> (nat \<times> pool) list \<Rightarrow>
     cycle_state \<Rightarrow> cycle_state option"
where
  "visit_edges f [] st = Some st"
| "visit_edges f (e # es) st = Option.bind (f e st) (visit_edges f es)"

primrec construct_cycles ::
  "nat \<Rightarrow> edge_iter \<Rightarrow> graph \<Rightarrow> nat \<Rightarrow> nat \<Rightarrow> nat \<Rightarrow> cycle_state \<Rightarrow> cycle_state option"
where
  "construct_cycles 0 ed g start max_hops current st = None"
| "construct_cycles (Suc n) ed g start max_hops current st =
     (if max_hops \<le> length (cy_path st) then Some st
      else visit_edges (visit_edge (construct_cycles n ed g start max_hops) g start current)
             (ed g current) st)"

definition find_all_arbitrage_paths ::
  "edge_iter \<Rightarrow> graph \<Rightarrow> nat \<Rightarrow> nat \<Rightarrow> swap_step list list option"
where
  "find_all_arbitrage_paths ed g start_node max_hops =
     map_option cy_all
       (construct_cycles (max_hops + 1) ed g start_node max_hops start_node
          \<lparr>cy_path = [], cy_visited = {}, cy_all = []\<rparr>)"

definition generate_cycles ::
  "edge_iter \<Rightarrow> (swap_step list \<Rightarrow> u64) \<Rightarrow> address \<Rightarrow> pool list \<Rightarrow> swap_path list res option"
where
  "generate_cycles ed hsh token working_pools =
     dbind (Some (build_graph working_pools)) (\<lambda>g.
     dbind (Some (unwrap_opt (find_node g token))) (\<lambda>start_node.
       map_option (\<lambda>cycles. Ok (map (\<lambda>cycle. \<lparr>sp_steps = cycle, sp_hash = hsh cycle\<rparr>) cycles))
         (find_all_arbitrage_paths ed g start_node 2)))"

subsection \<open>The graph of a list of pools\<close>

text \<open>The reference: which pairs of tokens a pool trades, and which tokens it names.\<close>

definition pool_tokens :: "pool \<Rightarrow> address list" where
  "pool_tokens p =
     (case pl_variant p of
        VBalancerV2 tokens balance \<Rightarrow> tokens
      | VCurveTriCrypto tokens \<Rightarrow> tokens
      | VSimple \<Rightarrow> [pl_token0 p, pl_token1 p])"

definition pool_pairs :: "pool \<Rightarrow> (address \<times> address) list" where
  "pool_pairs p =
     (case pl_variant p of
        VBalancerV2 tokens balance \<Rightarrow>
          filter (\<lambda>ts. balance (fst ts) \<noteq> 0 \<and> balance (snd ts) \<noteq> 0) (token_pairs tokens)
      | VCurveTriCrypto tokens \<Rightarrow> token_pairs tokens
      | VSimple \<Rightarrow> [(pl_token0 p, pl_token1 p)])"

definition named_edges :: "graph \<Rightarrow> (address \<times> address \<times> pool) list" where
  "named_edges g = map (\<lambda>(i, j, p). (gr_nodes g ! i, gr_nodes g ! j, p)) (gr_edges g)"

definition wf_graph :: "graph \<Rightarrow> bool" where
  "wf_graph g \<longleftrightarrow> distinct (gr_nodes g) \<and>
     (\<forall>(i, j, p) \<in> set (gr_edges g). i < length (gr_nodes g) \<and> j < length (gr_nodes g))"

definition wf_building :: "building \<Rightarrow> bool" where
  "wf_building gi \<longleftrightarrow> wf_graph (fst gi) \<and> snd gi = set (gr_nodes (fst gi))"

lemma find_node_Some:
  "find_node g t = Some i \<Longrightarrow> i < length (gr_nodes g) \<and> gr_nodes g ! i = t"
  by (auto simp: find_node_def find_Some_iff)

lemma find_node_in: "t \<in> set (gr_nodes g) \<Longrightarrow> \<exists>i. find_node g t = Some i"
proof (rule ccontr)
  assume t: "t \<in> set (gr_nodes g)" and "\<nexists>i. find_node g t = Some i"
  then have "find_node g t = None" by simp
  then have "\<forall>i < length (gr_nodes g). gr_nodes g ! i \<noteq> t"
    by (auto simp: find_node_def find_None_iff)
  with t show False by (auto simp: in_set_conv_nth)
qed

lemma find_node_None_iff: "find_node g t = None \<longleftrightarrow> t \<notin> set (gr_nodes g)"
proof
  assume "find_node g t = None"
  with find_node_in [of t g] show "t \<notin> set (gr_nodes g)" by auto
next
  assume t: "t \<notin> set (gr_nodes g)"
  show "find_node g t = None"
  proof (cases "find_node g t")
    case (Some i)
    with t show ?thesis using find_node_Some [of g t i] nth_mem by blast
  qed simp
qed

lemma add_token_building:
  assumes "wf_building gi"
  shows "wf_building (add_token t gi)
     \<and> set (gr_nodes (fst (add_token t gi))) = insert t (set (gr_nodes (fst gi)))
     \<and> named_edges (fst (add_token t gi)) = named_edges (fst gi)"
proof (cases "t \<in> snd gi")
  case True
  with assms show ?thesis by (auto simp: add_token_def wf_building_def split: prod.splits)
next
  case False
  obtain g ins where gi: "gi = (g, ins)" by (cases gi)
  have "named_edges (g\<lparr>gr_nodes := gr_nodes g @ [t]\<rparr>) = named_edges g"
    using assms by (auto simp: gi named_edges_def wf_building_def wf_graph_def nth_append)
  moreover have "wf_building (g\<lparr>gr_nodes := gr_nodes g @ [t]\<rparr>, insert t ins)"
    using assms False by (auto simp: gi wf_building_def wf_graph_def)
  ultimately show ?thesis using False by (simp add: add_token_def gi)
qed

lemma fold_add_token_building:
  "wf_building gi \<Longrightarrow>
     wf_building (fold add_token ts gi)
     \<and> set (gr_nodes (fst (fold add_token ts gi))) = set ts \<union> set (gr_nodes (fst gi))
     \<and> named_edges (fst (fold add_token ts gi)) = named_edges (fst gi)"
proof (induction ts arbitrary: gi)
  case (Cons t ts)
  from Cons.IH [of "add_token t gi"] add_token_building [OF Cons.prems, of t] show ?case
    by auto
qed simp

lemma connect_Ok:
  assumes "wf_graph g" "fst ts \<in> set (gr_nodes g)" "snd ts \<in> set (gr_nodes g)"
  shows "\<exists>g'. connect p ts g = Ok g' \<and> wf_graph g' \<and> gr_nodes g' = gr_nodes g
           \<and> named_edges g' = named_edges g @ [(fst ts, snd ts, p)]"
proof -
  from assms(2,3) obtain i j where "find_node g (fst ts) = Some i" "find_node g (snd ts) = Some j"
    using find_node_in by blast
  with assms(1) find_node_Some [of g "fst ts" i] find_node_Some [of g "snd ts" j] show ?thesis
    by (auto simp: connect_def add_edge_def wf_graph_def named_edges_def)
qed

lemma rfold_connect:
  assumes "wf_graph g" "\<forall>ts \<in> set tss. fst ts \<in> set (gr_nodes g) \<and> snd ts \<in> set (gr_nodes g)"
  shows "\<exists>g'. rfold (\<lambda>ts g. if c ts then connect p ts g else Ok g) tss g = Ok g' \<and> wf_graph g'
           \<and> gr_nodes g' = gr_nodes g
           \<and> named_edges g' = named_edges g @ map (\<lambda>(a, b). (a, b, p)) (filter c tss)"
  using assms
proof (induction tss arbitrary: g)
  case (Cons ts tss)
  show ?case
  proof (cases "c ts")
    case True
    from Cons.prems connect_Ok [of g ts p] obtain g1 where g1:
      "connect p ts g = Ok g1" "wf_graph g1" "gr_nodes g1 = gr_nodes g"
      "named_edges g1 = named_edges g @ [(fst ts, snd ts, p)]" by auto
    with Cons.IH [of g1] Cons.prems True show ?thesis
      by (auto simp: case_prod_unfold)
  next
    case False
    with Cons.IH [of g] Cons.prems show ?thesis by auto
  qed
qed simp

lemma token_pairs_tokens:
  assumes "ts \<in> set (token_pairs tokens)"
  shows "fst ts \<in> set tokens \<and> snd ts \<in> set tokens"
  using assms set_drop_subset by (fastforce simp: token_pairs_def)

lemma rbind_rfold_Nil [simp]: "rbind m (rfold f []) = m"
  by (cases m) auto

lemma connect_tokens:
  assumes "wf_building (g, ins)" "set tokens \<subseteq> set (gr_nodes g)"
    "tss = token_pairs tokens \<or> tss = [(t0, t1)] \<and> {t0, t1} \<subseteq> set tokens"
  shows "\<exists>g'. rfold (\<lambda>ts g. if c ts then connect p ts g else Ok g) tss g = Ok g'
     \<and> wf_building (g', ins) \<and> gr_nodes g' = gr_nodes g
     \<and> named_edges g' = named_edges g @ map (\<lambda>(a, b). (a, b, p)) (filter c tss)"
proof -
  have "\<forall>ts \<in> set tss. fst ts \<in> set (gr_nodes g) \<and> snd ts \<in> set (gr_nodes g)"
    using assms(2,3) token_pairs_tokens by auto
  with rfold_connect [of g tss c p] assms(1) show ?thesis by (auto simp: wf_building_def)
qed

lemma add_pool_to_graph_Ok:
  assumes "wf_building gi"
  shows "\<exists>gi'. add_pool_to_graph p gi = Ok gi' \<and> wf_building gi'
     \<and> set (gr_nodes (fst gi')) = set (pool_tokens p) \<union> set (gr_nodes (fst gi))
     \<and> named_edges (fst gi') =
         named_edges (fst gi) @ map (\<lambda>(a, b). (a, b, p)) (pool_pairs p)"
proof -
  define ts where "ts = pool_tokens p"
  obtain g ins where gi: "fold add_token ts gi = (g, ins)" by (cases "fold add_token ts gi")
  note f = fold_add_token_building [OF assms, of ts, unfolded gi, simplified]
  have all: "connect p = (\<lambda>ts g. if True then connect p ts g else Ok g)" by simp
  show ?thesis
  proof (cases "pl_variant p")
    case (VBalancerV2 tokens balance)
    from connect_tokens [of g ins tokens "token_pairs tokens" 0 0
        "\<lambda>ts. balance (fst ts) \<noteq> 0 \<and> balance (snd ts) \<noteq> 0" p] f gi VBalancerV2
    show ?thesis
      by (auto simp: add_pool_to_graph_def add_balancer_pool_to_graph_def pool_pairs_def
            pool_tokens_def ts_def)
  next
    case (VCurveTriCrypto tokens)
    from connect_tokens [of g ins tokens "token_pairs tokens" 0 0 "\<lambda>_. True" p] f gi
      VCurveTriCrypto
    show ?thesis
      by (auto simp: add_pool_to_graph_def add_curve_pool_to_graph_def pool_pairs_def
            pool_tokens_def ts_def)
  next
    case VSimple
    from connect_tokens [of g ins ts "[(pl_token0 p, pl_token1 p)]" "pl_token0 p" "pl_token1 p"
        "\<lambda>_. True" p] f gi VSimple
    show ?thesis
      by (auto simp: add_pool_to_graph_def add_simple_pool_to_graph_def pool_pairs_def
            pool_tokens_def ts_def)
  qed
qed

lemma rfold_add_pools:
  assumes "wf_building gi"
  shows "\<exists>gi'. rfold add_pool_to_graph ps gi = Ok gi' \<and> wf_building gi'
     \<and> set (gr_nodes (fst gi')) = (\<Union>p \<in> set ps. set (pool_tokens p)) \<union> set (gr_nodes (fst gi))
     \<and> named_edges (fst gi') =
         named_edges (fst gi) @ concat (map (\<lambda>p. map (\<lambda>(a, b). (a, b, p)) (pool_pairs p)) ps)"
  using assms
proof (induction ps arbitrary: gi)
  case (Cons p ps)
  from add_pool_to_graph_Ok [OF Cons.prems, of p] obtain gi1 where g1:
    "add_pool_to_graph p gi = Ok gi1" "wf_building gi1"
    "set (gr_nodes (fst gi1)) = set (pool_tokens p) \<union> set (gr_nodes (fst gi))"
    "named_edges (fst gi1) = named_edges (fst gi) @ map (\<lambda>(a, b). (a, b, p)) (pool_pairs p)"
    by blast
  from Cons.IH [OF g1(2)] g1 show ?case by auto
qed simp

lemma build_graph_Ok:
  "\<exists>g. build_graph ps = Ok g \<and> wf_graph g
     \<and> set (gr_nodes g) = (\<Union>p \<in> set ps. set (pool_tokens p))
     \<and> named_edges g = concat (map (\<lambda>p. map (\<lambda>(a, b). (a, b, p)) (pool_pairs p)) ps)"
proof -
  have "wf_building (\<lparr>gr_nodes = [], gr_edges = []\<rparr>, {})"
    by (simp add: wf_building_def wf_graph_def)
  from rfold_add_pools [OF this, of ps] show ?thesis
    by (auto simp: build_graph_def wf_building_def named_edges_def)
qed

text \<open>
  C37: \<^verbatim>\<open>build_graph\<close> never panics, whatever the pools: every token has one node, every edge joins
  existing nodes, and the edges are, in order, the pairs each pool trades (the two tokens of
  a plain pool, every pair of a Curve pool, every pair with two nonzero balances of a Balancer
  pool), with that pool.
\<close>

theorem build_graph_edges:
  "\<exists>g. build_graph pools = Ok g \<and> distinct (gr_nodes g)
     \<and> set (gr_nodes g) = (\<Union>p \<in> set pools. set (pool_tokens p))
     \<and> map (\<lambda>(i, j, p). (gr_nodes g ! i, gr_nodes g ! j, p)) (gr_edges g) =
         concat (map (\<lambda>p. map (\<lambda>(a, b). (a, b, p)) (pool_pairs p)) pools)
     \<and> list_all (\<lambda>(i, j, p). i < length (gr_nodes g) \<and> j < length (gr_nodes g)) (gr_edges g)"
  using build_graph_Ok [of pools]
  by (auto simp: wf_graph_def named_edges_def list_all_iff)

subsection \<open>The cycles that are found\<close>

text \<open>
  The edges at a node, each with its other end. \<open>edge_order\<close> is what the search needs of the
  iterator of \<^verbatim>\<open>petgraph\<close>: it yields these edges, in whatever order.
\<close>

definition incident :: edge_iter where
  "incident g n =
     concat (map (\<lambda>(i, j, p). if i = n then [(j, p)] else if j = n then [(i, p)] else [])
       (gr_edges g))"

definition edge_order :: "edge_iter \<Rightarrow> bool" where
  "edge_order ed \<longleftrightarrow> (\<forall>g n. mset (ed g n) = mset (incident g n))"

lemma edge_order_incident: "edge_order incident"
  by (simp add: edge_order_def)

lemma edge_order_set: "edge_order ed \<Longrightarrow> set (ed g n) = set (incident g n)"
  by (metis edge_order_def mset_eq_setD)

text \<open>
  The hops that complete a path: the loop of \<^verbatim>\<open>construct_cycles\<close> read as a predicate, which
  the search is first shown to enumerate.
\<close>

fun completes ::
  "edge_iter \<Rightarrow> graph \<Rightarrow> nat \<Rightarrow> hop list \<Rightarrow> nat set \<Rightarrow> nat \<Rightarrow> hop list \<Rightarrow> bool"
where
  "completes ed g start path V cur [] \<longleftrightarrow> False"
| "completes ed g start path V cur [(a, p, b)] \<longleftrightarrow>
     a = cur \<and> b = start \<and> (b, p) \<in> set (ed g cur) \<and> may_close path p"
| "completes ed g start path V cur ((a, p, b) # h # hs) \<longleftrightarrow>
     a = cur \<and> b \<noteq> start \<and> b \<notin> V \<and> (b, p) \<in> set (ed g cur)
     \<and> completes ed g start (path @ [(a, p, b)]) (insert b V) b (h # hs)"

text \<open>The completions of length at most \<open>k\<close> that begin with a given edge.\<close>

definition edge_completions ::
  "edge_iter \<Rightarrow> graph \<Rightarrow> nat \<Rightarrow> hop list \<Rightarrow> nat set \<Rightarrow> nat \<Rightarrow> nat \<Rightarrow> nat \<times> pool \<Rightarrow> hop list set"
where
  "edge_completions ed g start path V cur k e =
     {rest. completes ed g start path V cur rest \<and> length rest \<le> k
        \<and> (\<exists>hs. rest = (cur, snd e, fst e) # hs)}"

abbreviation with_found :: "cycle_state \<Rightarrow> swap_step list list \<Rightarrow> cycle_state" where
  "with_found st found \<equiv> st\<lparr>cy_all := cy_all st @ found\<rparr>"

definition finds ::
  "graph \<Rightarrow> cycle_state \<Rightarrow> cycle_state option \<Rightarrow> hop list set \<Rightarrow> bool"
where
  "finds g st r rests \<longleftrightarrow>
     (\<exists>found. r = Some (with_found st found)
        \<and> set found = (\<lambda>rest. map (hop_step g) (cy_path st @ rest)) ` rests)"

lemma finds_nothing: "finds g st (Some st) {}"
  by (simp add: finds_def)

lemma visit_edges_finds:
  assumes "\<And>e st'. e \<in> set es \<Longrightarrow> cy_path st' = cy_path st \<Longrightarrow> cy_visited st' = cy_visited st \<Longrightarrow>
             finds g st' (f e st') (R e)"
  shows "finds g st (visit_edges f es st) (\<Union>e \<in> set es. R e)"
  using assms
proof (induction es arbitrary: st)
  case Nil
  then show ?case by (simp add: finds_nothing)
next
  case (Cons e es)
  have "finds g st (f e st) (R e)" by (rule Cons.prems) simp_all
  then obtain f1 where f1: "f e st = Some (with_found st f1)"
    "set f1 = (\<lambda>rest. map (hop_step g) (cy_path st @ rest)) ` R e"
    by (auto simp: finds_def)
  have "finds g (with_found st f1) (visit_edges f es (with_found st f1)) (\<Union>e \<in> set es. R e)"
    by (rule Cons.IH, rule Cons.prems) simp_all
  then obtain f2 where f2:
    "visit_edges f es (with_found st f1) = Some (with_found st (f1 @ f2))"
    "set f2 = (\<lambda>rest. map (hop_step g) (cy_path st @ rest)) ` (\<Union>e \<in> set es. R e)"
    by (auto simp: finds_def)
  have "visit_edges f (e # es) st = Some (with_found st (f1 @ f2))"
    using f1(1) f2(1) by simp
  moreover have "set (f1 @ f2) =
      (\<lambda>rest. map (hop_step g) (cy_path st @ rest)) ` (\<Union>e \<in> set (e # es). R e)"
    by (simp only: set_append f1(2) f2(2) image_Un list.set UN_insert)
  ultimately show ?case unfolding finds_def by blast
qed

text \<open>One edge finds the completions that begin with it, if the recursive call does.\<close>

lemma visit_edge_finds:
  assumes e: "e \<in> set (ed g cur)" and k: "0 < k"
    and rec: "\<And>nxt st'. finds g st' (rec nxt st')
        {rest. completes ed g start (cy_path st') (cy_visited st') nxt rest \<and> length rest \<le> k - 1}
      \<or> length (cy_path st') \<noteq> Suc (length (cy_path st))"
  shows "finds g st (visit_edge rec g start cur e st)
           (edge_completions ed g start (cy_path st) (cy_visited st) cur k e)"
proof -
  obtain nxt p where ep: "e = (nxt, p)" by (cases e)
  let ?C = "completes ed g start (cy_path st) (cy_visited st) cur"
  have closing: "?C ((cur, p, start) # hs) \<longleftrightarrow> hs = [] \<and> may_close (cy_path st) p"
    if "nxt = start" for hs
    using e ep that by (cases hs) auto
  have seen: "\<not> ?C ((cur, p, nxt) # hs)" if "nxt \<noteq> start" "nxt \<in> cy_visited st" for hs
    using that by (cases hs) auto
  have further: "?C ((cur, p, nxt) # hs) \<longleftrightarrow>
      completes ed g start (cy_path st @ [(cur, p, nxt)]) (insert nxt (cy_visited st)) nxt hs"
    if "nxt \<noteq> start" "nxt \<notin> cy_visited st" for hs
    using e ep that by (cases hs) auto
  show ?thesis
  proof (cases "nxt = start \<or> nxt \<in> cy_visited st")
    case True
    then have "edge_completions ed g start (cy_path st) (cy_visited st) cur k e =
        (if nxt = start \<and> may_close (cy_path st) p then {[(cur, p, nxt)]} else {})"
    proof (cases "nxt = start")
      case True
      have "edge_completions ed g start (cy_path st) (cy_visited st) cur k e =
          {(cur, p, start) # hs |hs. Suc (length hs) \<le> k \<and> ?C ((cur, p, start) # hs)}"
        unfolding edge_completions_def ep fst_conv snd_conv True by force
      also have "\<dots> = {(cur, p, start) # hs |hs. Suc (length hs) \<le> k \<and> hs = []
          \<and> may_close (cy_path st) p}"
        by (simp only: closing [OF True])
      also have "\<dots> = (if may_close (cy_path st) p then {[(cur, p, start)]} else {})"
        using k by auto
      finally show ?thesis using True by auto
    next
      case nxt: False
      with True seen have no: "\<not> ?C ((cur, p, nxt) # hs)" for hs by blast
      then have "edge_completions ed g start (cy_path st) (cy_visited st) cur k e = {}"
        unfolding edge_completions_def ep fst_conv snd_conv by blast
      with nxt show ?thesis by simp
    qed
    with True show ?thesis by (auto simp: finds_def visit_edge_def ep)
  next
    case False
    let ?st = "st\<lparr>cy_path := cy_path st @ [(cur, p, nxt)],
                 cy_visited := insert nxt (cy_visited st)\<rparr>"
    let ?R = "{rest. completes ed g start (cy_path ?st) (cy_visited ?st) nxt rest
                \<and> length rest \<le> k - 1}"
    from rec [of ?st nxt] obtain found where found: "rec nxt ?st = Some (with_found ?st found)"
      "set found = (\<lambda>rest. map (hop_step g) (cy_path ?st @ rest)) ` ?R"
      by (auto simp: finds_def)
    have "edge_completions ed g start (cy_path st) (cy_visited st) cur k e =
        (#) (cur, p, nxt) ` ?R"
      using k False by (auto simp: edge_completions_def ep further)
    moreover have "visit_edge rec g start cur e st = Some (with_found st found)"
      using False found(1) by (auto simp: visit_edge_def ep)
    ultimately show ?thesis using found(2) by (auto simp: finds_def image_image)
  qed
qed

lemma completions_by_edge:
  "{rest. completes ed g start path V cur rest \<and> length rest \<le> k} =
     (\<Union>e \<in> set (ed g cur). edge_completions ed g start path V cur k e)"
proof (intro equalityI subsetI)
  fix rest assume r: "rest \<in> {rest. completes ed g start path V cur rest \<and> length rest \<le> k}"
  then obtain a p b hs where rest: "rest = (a, p, b) # hs" by (cases rest) auto
  with r have "a = cur" "(b, p) \<in> set (ed g cur)" by (cases hs; auto)+
  with r rest show "rest \<in> (\<Union>e \<in> set (ed g cur). edge_completions ed g start path V cur k e)"
    by (auto simp: edge_completions_def intro!: bexI [of _ "(b, p)"])
qed (auto simp: edge_completions_def)

lemma construct_cycles_finds:
  assumes "max_hops - length (cy_path st) < n"
  shows "finds g st (construct_cycles n ed g start max_hops cur st)
     {rest. completes ed g start (cy_path st) (cy_visited st) cur rest
        \<and> length rest \<le> max_hops - length (cy_path st)}"
  using assms
proof (induction n arbitrary: cur st)
  case 0
  then show ?case by simp
next
  case (Suc n)
  let ?k = "max_hops - length (cy_path st)"
  show ?case
  proof (cases "max_hops \<le> length (cy_path st)")
    case True
    then have "{rest. completes ed g start (cy_path st) (cy_visited st) cur rest
        \<and> length rest \<le> ?k} = {}" by auto
    moreover from True have "construct_cycles (Suc n) ed g start max_hops cur st = Some st" by simp
    ultimately show ?thesis by (simp only: finds_nothing)
  next
    case False
    let ?rec = "construct_cycles n ed g start max_hops"
    have "finds g st (visit_edges (visit_edge ?rec g start cur) (ed g cur) st)
        (\<Union>e \<in> set (ed g cur). edge_completions ed g start (cy_path st) (cy_visited st) cur ?k e)"
    proof (rule visit_edges_finds)
      fix e and st' :: cycle_state assume e: "e \<in> set (ed g cur)" and
        st': "cy_path st' = cy_path st" "cy_visited st' = cy_visited st"
      have "finds g st2 (?rec nxt st2)
          {rest. completes ed g start (cy_path st2) (cy_visited st2) nxt rest \<and> length rest \<le> ?k - 1}"
        if "length (cy_path st2) = Suc (length (cy_path st'))" for nxt st2
        using Suc.IH [of st2 nxt] that False Suc.prems st'(1) by simp
      then show "finds g st' (visit_edge ?rec g start cur e st')
          (edge_completions ed g start (cy_path st) (cy_visited st) cur ?k e)"
        using visit_edge_finds [of e ed g cur ?k ?rec start st'] e st' False by auto
    qed
    then show ?thesis using False by (simp only: completions_by_edge construct_cycles.simps if_False)
  qed
qed

text \<open>What a completion is, without recursion.\<close>

abbreviation hop_from :: "hop \<Rightarrow> nat" where "hop_from h \<equiv> fst h"
abbreviation hop_pool :: "hop \<Rightarrow> pool" where "hop_pool h \<equiv> fst (snd h)"
abbreviation hop_to :: "hop \<Rightarrow> nat" where "hop_to h \<equiv> snd (snd h)"

fun chained :: "nat \<Rightarrow> hop list \<Rightarrow> bool" where
  "chained cur [] \<longleftrightarrow> True"
| "chained cur (h # hs) \<longleftrightarrow> hop_from h = cur \<and> chained (hop_to h) hs"

text \<open>
  A simple cycle through \<open>start\<close>: consecutive edges of the graph from \<open>start\<close> back to it, no
  node entered twice, at least two and at most \<open>max_hops\<close> of them, and two of them only
  with different protocols.
\<close>

definition is_cycle :: "graph \<Rightarrow> nat \<Rightarrow> nat \<Rightarrow> hop list \<Rightarrow> bool" where
  "is_cycle g start max_hops hops \<longleftrightarrow>
     2 \<le> length hops \<and> length hops \<le> max_hops
     \<and> chained start hops \<and> hop_to (last hops) = start
     \<and> (\<forall>h \<in> set hops. (hop_to h, hop_pool h) \<in> set (incident g (hop_from h)))
     \<and> distinct (map hop_to hops)
     \<and> (length hops = 2 \<longrightarrow> pl_type (hop_pool (hops ! 0)) \<noteq> pl_type (hop_pool (hops ! 1)))"

lemma completes_iff:
  "completes ed g start path V cur rest \<longleftrightarrow>
     rest \<noteq> [] \<and> chained cur rest \<and> hop_to (last rest) = start
     \<and> (\<forall>h \<in> set rest. (hop_to h, hop_pool h) \<in> set (ed g (hop_from h)))
     \<and> distinct (map hop_to rest) \<and> V \<inter> hop_to ` set (butlast rest) = {}
     \<and> may_close (path @ butlast rest) (hop_pool (last rest))"
proof (induction ed g start path V cur rest rule: completes.induct)
  case (3 ed g start path V cur a p b h hs)
  define r where "r = h # hs"
  then have r: "r \<noteq> []" by simp
  then have to: "hop_to ` set r = insert (hop_to (last r)) (hop_to ` set (butlast r))"
  proof -
    have "hop_to ` set r = hop_to ` set (butlast r @ [last r])" using r by simp
    then show ?thesis by (simp del: append_butlast_last_id)
  qed
  have close: "may_close (path @ butlast ((a, p, b) # r)) q =
      may_close ((path @ [(a, p, b)]) @ butlast r) q" for q using r by simp
  have ends: "hop_to (last ((a, p, b) # r)) = hop_to (last r)"
    "hop_pool (last ((a, p, b) # r)) = hop_pool (last r)" using r by simp_all
  have fresh: "(insert b V \<inter> hop_to ` set (butlast r) = {} \<and> b \<noteq> start \<and> b \<notin> V
        \<and> hop_to (last r) = start) \<longleftrightarrow>
      (V \<inter> hop_to ` set (butlast ((a, p, b) # r)) = {} \<and> b \<notin> hop_to ` set r
        \<and> hop_to (last r) = start)"
    unfolding to using r by auto
  have dist: "distinct (map hop_to ((a, p, b) # r)) \<longleftrightarrow>
      b \<notin> hop_to ` set r \<and> distinct (map hop_to r)" by simp
  have ball: "(\<forall>h \<in> set ((a, p, b) # r). (hop_to h, hop_pool h) \<in> set (ed g (hop_from h))) \<longleftrightarrow>
      (b, p) \<in> set (ed g a) \<and> (\<forall>h \<in> set r. (hop_to h, hop_pool h) \<in> set (ed g (hop_from h)))"
    by simp
  have chain: "chained cur ((a, p, b) # r) \<longleftrightarrow> a = cur \<and> chained b r" by simp
  have cur: "a = cur \<and> (b, p) \<in> set (ed g cur) \<longleftrightarrow> a = cur \<and> (b, p) \<in> set (ed g a)" by auto
  have "(a, p, b) # r \<noteq> []" by simp
  with fresh cur r show ?case
    unfolding completes.simps(3) 3 unfolding r_def [symmetric] close ends dist ball chain by satx
qed auto

lemma find_all_finds:
  assumes "edge_order ed"
  shows "\<exists>paths. find_all_arbitrage_paths ed g start m = Some paths
     \<and> set paths = map (hop_step g) ` {hops. is_cycle g start m hops}"
proof -
  let ?st = "\<lparr>cy_path = [], cy_visited = {}, cy_all = []\<rparr>"
  have "finds g ?st (construct_cycles (m + 1) ed g start m start ?st)
      {rest. completes ed g start [] {} start rest \<and> length rest \<le> m}"
    using construct_cycles_finds [of m ?st "m + 1" g ed start start] by simp
  moreover have "completes ed g start [] {} start rest \<and> length rest \<le> m \<longleftrightarrow>
      is_cycle g start m rest" for rest
  proof -
    have "2 \<le> length rest \<and>
        (length rest = 2 \<longrightarrow> pl_type (hop_pool (rest ! 0)) \<noteq> pl_type (hop_pool (rest ! 1))) \<longleftrightarrow>
        rest \<noteq> [] \<and> may_close (butlast rest) (hop_pool (last rest))"
    proof (cases rest rule: rev_cases)
      case (snoc hs h)
      then show ?thesis by (cases hs) (auto simp: may_close_def nth_append Suc_le_eq)
    qed simp
    with refl [of "{} :: nat set"] show ?thesis
      unfolding completes_iff is_cycle_def edge_order_set [OF assms] append_Nil Int_empty_left
      by satx
  qed
  ultimately have "finds g ?st (construct_cycles (m + 1) ed g start m start ?st)
      {hops. is_cycle g start m hops}" by (simp only:)
  then obtain found where
    "construct_cycles (m + 1) ed g start m start ?st = Some (with_found ?st found)"
    "set found = (\<lambda>rest. map (hop_step g) (cy_path ?st @ rest)) ` {hops. is_cycle g start m hops}"
    unfolding finds_def by blast
  then have "find_all_arbitrage_paths ed g start m = Some found"
    "set found = map (hop_step g) ` {hops. is_cycle g start m hops}"
    by (simp_all only: find_all_arbitrage_paths_def option.map cycle_state.simps append_Nil)
  then show ?thesis by blast
qed

text \<open>Edges at a node in terms of tokens.\<close>

lemma incident_iff:
  "(b, p) \<in> set (incident g a) \<longleftrightarrow> (a, b, p) \<in> set (gr_edges g) \<or> (b, a, p) \<in> set (gr_edges g)"
proof -
  have "(b, p) \<in> set (concat (map (\<lambda>(i, j, p). if i = a then [(j, p)]
      else if j = a then [(i, p)] else []) es)) \<longleftrightarrow> (a, b, p) \<in> set es \<or> (b, a, p) \<in> set es" for es
  proof (induction es)
    case (Cons e es)
    obtain i j q where "e = (i, j, q)" by (cases e)
    with Cons show ?case by (cases "i = a"; cases "j = a"; simp add: Cons del: set_concat; blast)
  qed simp
  then show ?thesis by (simp only: incident_def)
qed

lemma incident_bound:
  "wf_graph g \<Longrightarrow> (b, p) \<in> set (incident g a) \<Longrightarrow> b < length (gr_nodes g)"
  by (auto simp: wf_graph_def incident_iff)

lemma incident_named:
  assumes "wf_graph g" "a < length (gr_nodes g)" "b < length (gr_nodes g)"
  shows "(b, p) \<in> set (incident g a) \<longleftrightarrow>
     (gr_nodes g ! a, gr_nodes g ! b, p) \<in> set (named_edges g)
     \<or> (gr_nodes g ! b, gr_nodes g ! a, p) \<in> set (named_edges g)"
proof -
  have "(gr_nodes g ! i, gr_nodes g ! j, p) \<in> set (named_edges g) \<longleftrightarrow> (i, j, p) \<in> set (gr_edges g)"
    if ij: "i < length (gr_nodes g)" "j < length (gr_nodes g)" for i j
  proof
    assume "(gr_nodes g ! i, gr_nodes g ! j, p) \<in> set (named_edges g)"
    then obtain i' j' where e: "(i', j', p) \<in> set (gr_edges g)"
      "gr_nodes g ! i' = gr_nodes g ! i" "gr_nodes g ! j' = gr_nodes g ! j"
      by (auto simp: named_edges_def)
    with assms(1) ij have "i' = i" "j' = j"
      by (auto simp: wf_graph_def nth_eq_iff_index_eq)
    with e(1) show "(i, j, p) \<in> set (gr_edges g)" by simp
  qed (force simp: named_edges_def)
  with assms(2,3) show ?thesis by (simp add: incident_iff)
qed

definition trades :: "pool \<Rightarrow> address \<Rightarrow> address \<Rightarrow> bool" where
  "trades p a b \<longleftrightarrow> (a, b) \<in> set (pool_pairs p) \<or> (b, a) \<in> set (pool_pairs p)"

definition pool_step :: "pool \<Rightarrow> address \<Rightarrow> address \<Rightarrow> swap_step" where
  "pool_step p a b =
     \<lparr>st_pool = pl_address p, st_token_in = a, st_token_out = b,
      st_protocol = pl_type p, st_fee = pl_fee p\<rparr>"

lemma trades_tokens: "trades p a b \<Longrightarrow> a \<in> set (pool_tokens p) \<and> b \<in> set (pool_tokens p)"
  by (auto simp: trades_def pool_pairs_def pool_tokens_def dest: token_pairs_tokens
      split: pool_variant.splits)

lemma is_cycle_two:
  "is_cycle g s 2 hops \<longleftrightarrow>
     (\<exists>p q b. hops = [(s, p, b), (b, q, s)] \<and> b \<noteq> s \<and> (b, p) \<in> set (incident g s)
        \<and> (s, q) \<in> set (incident g b) \<and> pl_type p \<noteq> pl_type q)"
proof
  assume c: "is_cycle g s 2 hops"
  then have "length hops = Suc (Suc 0)" by (simp add: is_cycle_def)
  then obtain h1 h2 where "hops = [h1, h2]" unfolding length_Suc_conv by blast
  with c show "\<exists>p q b. hops = [(s, p, b), (b, q, s)] \<and> b \<noteq> s \<and> (b, p) \<in> set (incident g s)
        \<and> (s, q) \<in> set (incident g b) \<and> pl_type p \<noteq> pl_type q"
    by (cases h1; cases h2) (auto simp: is_cycle_def)
qed (auto simp: is_cycle_def)

text \<open>The two-hop cycles of a graph, over tokens.\<close>

lemma two_hop_steps:
  assumes wf: "wf_graph g" and s: "s < length (gr_nodes g)" "gr_nodes g ! s = weth"
    and named: "\<And>a b p. ((a, b, p) \<in> set (named_edges g) \<or> (b, a, p) \<in> set (named_edges g)) \<longleftrightarrow>
        p \<in> P \<and> trades p a b"
    and toks: "\<And>p t. p \<in> P \<Longrightarrow> t \<in> set (pool_tokens p) \<Longrightarrow> t \<in> set (gr_nodes g)"
  shows "map (hop_step g) ` {hops. is_cycle g s 2 hops} =
     {[pool_step p weth t, pool_step q t weth] |p q t. p \<in> P \<and> q \<in> P \<and> t \<noteq> weth
        \<and> trades p weth t \<and> trades q t weth \<and> pl_type p \<noteq> pl_type q}" (is "?L = ?R")
proof (intro equalityI subsetI)
  have inc: "(b, p) \<in> set (incident g a) \<longleftrightarrow> p \<in> P \<and> trades p (gr_nodes g ! a) (gr_nodes g ! b)"
    if "a < length (gr_nodes g)" "b < length (gr_nodes g)" for a b p
    using incident_named [OF wf that] named by simp
  {
    fix c assume "c \<in> ?L"
    then obtain p q b where c: "c = map (hop_step g) [(s, p, b), (b, q, s)]" "b \<noteq> s"
      "(b, p) \<in> set (incident g s)" "(s, q) \<in> set (incident g b)" "pl_type p \<noteq> pl_type q"
      by (auto simp: is_cycle_two)
    have b: "b < length (gr_nodes g)" using incident_bound [OF wf c(3)] .
    have "gr_nodes g ! b \<noteq> weth"
      using wf b s c(2) by (auto simp: wf_graph_def nth_eq_iff_index_eq)
    moreover have "c = [pool_step p weth (gr_nodes g ! b), pool_step q (gr_nodes g ! b) weth]"
      using c(1) s(2) by (simp add: hop_step_def pool_step_def)
    ultimately show "c \<in> ?R"
      using c(3,4,5) inc [OF s(1) b] inc [OF b s(1)] s(2) by blast
  next
    fix c assume "c \<in> ?R"
    then obtain p q t where c: "c = [pool_step p weth t, pool_step q t weth]" "p \<in> P" "q \<in> P"
      "t \<noteq> weth" "trades p weth t" "trades q t weth" "pl_type p \<noteq> pl_type q" by auto
    from toks [OF c(2)] trades_tokens [OF c(5)] obtain b where
      b: "b < length (gr_nodes g)" "gr_nodes g ! b = t" by (auto simp: in_set_conv_nth)
    have "is_cycle g s 2 [(s, p, b), (b, q, s)]"
      using c b s inc [OF s(1) b(1)] inc [OF b(1) s(1)] by (auto simp: is_cycle_two)
    moreover have "c = map (hop_step g) [(s, p, b), (b, q, s)]"
      using c(1) b s by (simp add: hop_step_def pool_step_def)
    ultimately show "c \<in> ?L" by blast
  }
qed

lemma named_edges_trades:
  assumes "named_edges g = concat (map (\<lambda>p. map (\<lambda>(a, b). (a, b, p)) (pool_pairs p)) ps)"
  shows "((a, b, p) \<in> set (named_edges g) \<or> (b, a, p) \<in> set (named_edges g)) \<longleftrightarrow>
     p \<in> set ps \<and> trades p a b"
  unfolding assms trades_def by auto

text \<open>
  The recursion depth of \<^verbatim>\<open>construct_cycles\<close> is bounded: fuel above the hops that are left is
  always enough, and more fuel changes nothing.
\<close>

theorem cycles_fuel:
  assumes "max_hops - length (cy_path st) < n"
  shows "\<exists>found. construct_cycles n ed g start max_hops cur st =
           Some (st\<lparr>cy_all := cy_all st @ found\<rparr>)"
  using construct_cycles_finds [OF assms, of g ed start cur] by (auto simp: finds_def)

text \<open>
  C36: \<^verbatim>\<open>find_all_arbitrage_paths\<close> is sound and complete: whatever the order of the edge iterator,
  the paths it returns are exactly the steps of the simple cycles through the start node.
\<close>

theorem find_all_arbitrage_paths_exact:
  assumes "edge_order ed"
  shows "\<exists>paths. find_all_arbitrage_paths ed g start max_hops = Some paths
     \<and> set paths = map (hop_step g) ` {hops. is_cycle g start max_hops hops}"
  using find_all_finds [OF assms] .

lemma generate_cycles_set:
  assumes ed: "edge_order ed"
  shows "if weth \<in> (\<Union>p \<in> set pools. set (pool_tokens p))
     then \<exists>paths. generate_cycles ed hsh weth pools = Some (Ok paths)
       \<and> set paths = (\<lambda>steps. \<lparr>sp_steps = steps, sp_hash = hsh steps\<rparr>) `
           {[pool_step p weth t, pool_step q t weth] |p q t.
              p \<in> set pools \<and> q \<in> set pools \<and> t \<noteq> weth \<and> trades p weth t \<and> trades q t weth
              \<and> pl_type p \<noteq> pl_type q}
     else generate_cycles ed hsh weth pools = Some (panic Unwrap_none)"
proof -
  from build_graph_Ok [of pools] obtain g where g: "build_graph pools = Ok g" "wf_graph g"
    "set (gr_nodes g) = (\<Union>p \<in> set pools. set (pool_tokens p))"
    "named_edges g = concat (map (\<lambda>p. map (\<lambda>(a, b). (a, b, p)) (pool_pairs p)) pools)"
    by blast
  show ?thesis
  proof (cases "weth \<in> set (gr_nodes g)")
    case False
    then have "find_node g weth = None" by (simp add: find_node_None_iff)
    with False show ?thesis by (simp add: generate_cycles_def g(1) g(3) [symmetric])
  next
    case True
    then obtain s where find: "find_node g weth = Some s" using find_node_in by blast
    note s = find_node_Some [OF find]
    from find_all_finds [OF ed, of g s 2] obtain cycles where cycles:
      "find_all_arbitrage_paths ed g s 2 = Some cycles"
      "set cycles = map (hop_step g) ` {hops. is_cycle g s 2 hops}" by blast
    have "set cycles = {[pool_step p weth t, pool_step q t weth] |p q t.
        p \<in> set pools \<and> q \<in> set pools \<and> t \<noteq> weth \<and> trades p weth t \<and> trades q t weth
        \<and> pl_type p \<noteq> pl_type q}"
      unfolding cycles(2)
      by (rule two_hop_steps [OF g(2) conjunct1 [OF s] conjunct2 [OF s]
            named_edges_trades [OF g(4)]]) (use g(3) in auto)
    with True show ?thesis
      by (simp add: generate_cycles_def g(1) g(3) [symmetric] find cycles(1))
  qed
qed

text \<open>
  C9: \<^verbatim>\<open>generate_cycles\<close>: when some pool has the token WETH, the result is exactly the two-step
  paths that leave WETH through one pool and come back through a pool of another type, each
  with its hash; when none has it, \<open>unwrap\<close> panics.
\<close>

theorem generate_cycles_exact:
  assumes ed: "edge_order ed"
  shows "if weth \<in> (\<Union>p \<in> set pools. set (pool_tokens p))
     then \<exists>paths. generate_cycles ed hsh weth pools = Some (Ok paths)
       \<and> set paths = (\<lambda>steps. \<lparr>sp_steps = steps, sp_hash = hsh steps\<rparr>) `
           {[pool_step p weth t, pool_step q t weth] |p q t.
              p \<in> set pools \<and> q \<in> set pools \<and> t \<noteq> weth \<and> trades p weth t \<and> trades q t weth
              \<and> pl_type p \<noteq> pl_type q}
     else generate_cycles ed hsh weth pools = Some (panic Unwrap_none)"
  using generate_cycles_set [OF ed] .

text \<open>Two pools of WETH (token 1) and token 2 with different types, one without WETH.\<close>

definition ex_edge_pool :: "address \<Rightarrow> address \<Rightarrow> address \<Rightarrow> pool_type \<Rightarrow> pool" where
  "ex_edge_pool addr t0 t1 ty =
     \<lparr>pl_address = addr, pl_token0 = t0, pl_token1 = t1, pl_decimals0 = 18, pl_decimals1 = 18,
      pl_type = ty, pl_fee = 0, pl_is_v2 = True, pl_is_v3 = False, pl_v2 = None, pl_v3 = None,
      pl_variant = VSimple\<rparr>"

definition ex_pools :: "pool list" where
  "ex_pools = [ex_edge_pool 11 1 2 UniswapV2, ex_edge_pool 12 2 1 SushiSwapV2,
     ex_edge_pool 13 2 3 UniswapV2]"

definition ex_graph :: graph where
  "ex_graph = \<lparr>gr_nodes = [1, 2, 3], gr_edges = [(0, 1, ex_edge_pool 11 1 2 UniswapV2),
     (1, 0, ex_edge_pool 12 2 1 SushiSwapV2), (1, 2, ex_edge_pool 13 2 3 UniswapV2)]\<rparr>"

lemma ex_graph_built: "build_graph ex_pools = Ok ex_graph"
  by code_simp

text \<open>The two cycles WETH -> 2 -> WETH.\<close>

definition ex_cycles :: "swap_step list list" where
  "ex_cycles =
     [[pool_step (ex_edge_pool 11 1 2 UniswapV2) 1 2, pool_step (ex_edge_pool 12 2 1 SushiSwapV2) 2 1],
      [pool_step (ex_edge_pool 12 2 1 SushiSwapV2) 1 2, pool_step (ex_edge_pool 11 1 2 UniswapV2) 2 1]]"

lemma ex_cycles_found: "find_all_arbitrage_paths incident ex_graph 0 2 = Some ex_cycles"
  by code_simp

lemma ex_generated:
  "generate_cycles incident (\<lambda>_. 0) 1 ex_pools =
     Some (Ok (map (\<lambda>steps. \<lparr>sp_steps = steps, sp_hash = 0\<rparr>) ex_cycles))"
proof -
  have "find_node ex_graph 1 = Some 0" by code_simp
  then show ?thesis by (simp add: generate_cycles_def ex_graph_built ex_cycles_found)
qed

lemma cycles_fuel_witness:
  "\<exists>found. construct_cycles 2 incident ex_graph 0 2 1
       \<lparr>cy_path = [(0, ex_edge_pool 11 1 2 UniswapV2, 1)], cy_visited = {1}, cy_all = []\<rparr> =
     Some \<lparr>cy_path = [(0, ex_edge_pool 11 1 2 UniswapV2, 1)], cy_visited = {1}, cy_all = found\<rparr>"
  using cycles_fuel [of 2 "\<lparr>cy_path = [(0, ex_edge_pool 11 1 2 UniswapV2, 1)], cy_visited = {1},
      cy_all = []\<rparr>" 2 incident ex_graph 0 1] by (simp del: construct_cycles.simps)

lemma find_all_arbitrage_paths_exact_witness:
  "set ex_cycles = map (hop_step ex_graph) ` {hops. is_cycle ex_graph 0 2 hops}"
  using find_all_arbitrage_paths_exact [OF edge_order_incident, of ex_graph 0 2] ex_cycles_found
  by simp

lemma generate_cycles_exact_witness:
  "set (map (\<lambda>steps. \<lparr>sp_steps = steps, sp_hash = 0\<rparr>) ex_cycles) =
     (\<lambda>steps. \<lparr>sp_steps = steps, sp_hash = 0 :: u64\<rparr>) `
       {[pool_step p 1 t, pool_step q t 1] |p q t.
          p \<in> set ex_pools \<and> q \<in> set ex_pools \<and> t \<noteq> 1 \<and> trades p 1 t \<and> trades q t 1
          \<and> pl_type p \<noteq> pl_type q}"
proof -
  have weth: "(1 :: address) \<in> (\<Union>p \<in> set ex_pools. set (pool_tokens p))"
    by (simp add: ex_pools_def pool_tokens_def ex_edge_pool_def)
  show ?thesis
    using generate_cycles_exact [OF edge_order_incident, of 1 ex_pools "\<lambda>_. 0"]
    unfolding if_P [OF weth] ex_generated by (elim exE conjE) (simp only: option.inject sum.inject)
qed

end
