(* ===== verification/Cache.thy ===== *)
theory Cache
  imports Pools
begin

text \<open>
  The calculation cache (\<^verbatim>\<open>src/cache.rs\<close>): outputs keyed by pool and input amount. The
  \<open>DashMap\<close> is a function to \<open>option\<close>; its capacity hint and hasher have no observable
  effect. \<open>Calculator\<close> also calls \<open>Cache::set\<close>, which \<^verbatim>\<open>cache.rs\<close> does not define: it
  is a parameter of the calculator's model.
\<close>

record cache_key =
  ck_pool :: address
  ck_amount :: u256

record cache_entry =
  ce_output :: u256

record cache =
  ca_entries :: "cache_key \<Rightarrow> cache_entry option"

definition cache_new :: "nat \<Rightarrow> cache" where
  "cache_new num_pools = \<lparr>ca_entries = Map.empty\<rparr>"

definition cache_get :: "cache \<Rightarrow> u256 \<Rightarrow> address \<Rightarrow> u256 option" where
  "cache_get c amount_in pool =
     map_option ce_output (ca_entries c \<lparr>ck_pool = pool, ck_amount = amount_in\<rparr>)"

definition cache_invalidate :: "cache \<Rightarrow> address \<Rightarrow> cache" where
  "cache_invalidate c pool =
     c\<lparr>ca_entries := (\<lambda>k. if ck_pool k \<noteq> pool then ca_entries c k else None)\<rparr>"

subsection \<open>The interface of a memo table\<close>

text \<open>
  What a client relies on: a fresh table knows nothing, and dropping a pool forgets
  that pool's entries and no other. A table is sound for a relation when every entry it holds
  is in the relation, and coherent with a partial function when every entry is that function's
  value: a client that reads only coherent tables cannot tell a hit from a fresh computation.
\<close>

locale memo_table =
  fixes fresh :: 'c
    and look :: "'c \<Rightarrow> 'a \<Rightarrow> 'k \<Rightarrow> 'v option"
    and drop_key :: "'c \<Rightarrow> 'k \<Rightarrow> 'c"
  assumes look_fresh: "look fresh x k = None"
    and look_drop: "look (drop_key c k) x k' = (if k' = k then None else look c x k')"
begin

definition sound :: "('k \<Rightarrow> 'a \<Rightarrow> 'v \<Rightarrow> bool) \<Rightarrow> 'c \<Rightarrow> bool" where
  "sound R c \<longleftrightarrow> (\<forall>x k v. look c x k = Some v \<longrightarrow> R k x v)"

lemma soundD: "sound R c \<Longrightarrow> look c x k = Some v \<Longrightarrow> R k x v"
  by (simp add: sound_def)

lemma sound_fresh: "sound R fresh"
  by (simp add: sound_def look_fresh)

lemma sound_after_drop:
  assumes "sound R c" and "\<And>x k. look c' x k = (if k \<in> ks then None else look c x k)"
    and "\<And>k x v. k \<notin> ks \<Longrightarrow> R k x v \<Longrightarrow> R' k x v"
  shows "sound R' c'"
  using assms by (auto simp: sound_def)

definition coherent :: "('k \<Rightarrow> 'a \<Rightarrow> 'v option) \<Rightarrow> 'c \<Rightarrow> bool" where
  "coherent f c \<longleftrightarrow> (\<forall>x k v. look c x k = Some v \<longrightarrow> f k x = Some v)"

lemma coherent_sound: "coherent f c \<longleftrightarrow> sound (\<lambda>k x v. f k x = Some v) c"
  by (simp add: coherent_def sound_def)

lemma coherentD: "coherent f c \<Longrightarrow> look c x k = Some v \<Longrightarrow> f k x = Some v"
  by (simp add: coherent_def)

lemma coherent_fresh: "coherent f fresh"
  by (simp add: coherent_sound sound_fresh)

lemma look_drop_all:
  "look (fold (\<lambda>k c. drop_key c k) ks c) x k =
     (if k \<in> set ks then None else look c x k)"
  by (induction ks arbitrary: c) (auto simp: look_drop)

text \<open>Dropping every key at which the function may have changed restores coherence.\<close>

lemma coherent_drop_all:
  assumes "coherent f c" and "\<And>k x. k \<notin> set ks \<Longrightarrow> g k x = f k x"
  shows "coherent g (fold (\<lambda>k c. drop_key c k) ks c)"
  unfolding coherent_sound
  by (rule sound_after_drop [OF assms(1) [unfolded coherent_sound] look_drop_all])
    (simp add: assms(2))

end

interpretation cm: memo_table "cache_new n" cache_get cache_invalidate for n
  by unfold_locales (auto simp: cache_new_def cache_get_def cache_invalidate_def)

end
