(* ===== verification/StateDB.thy ===== *)
theory StateDB
  imports Pools
begin

text \<open>
  \<open>BlockStateDB\<close> (\<^verbatim>\<open>src/state_db/blockstate_db.rs\<close>), the bot's copy of the chain state: a
  cache of accounts and storage slots over a remote provider.

  The provider and the parts of \<^verbatim>\<open>revm\<close> the code calls (hashing of bytecode, the default
  account) are records of functions; a provider answer \<open>None\<close> is a transport error, and
  a record stands for the answers during one call. The methods of \<^verbatim>\<open>Database\<close> take
  \<open>&mut self\<close> and return a \<open>Result\<close>, so they give a result and a state: what they changed
  before failing stays. \<open>into_revm\<close> and \<open>into_alloy\<close> convert between names of one type
  (the file imports one \<open>Address\<close>, one \<open>B256\<close> and one \<open>AccountInfo\<close>) and leave the value as
  it is. Logging and the tokio runtime are left out.
\<close>

subsection \<open>Data\<close>

type_synonym bytecode = "u8 list"

record account_info =
  ai_balance :: u256
  ai_nonce :: u64
  ai_code_hash :: b256
  ai_code :: "bytecode option"

datatype insertion_type = Custom | OnChain

record db_slot =
  sl_value :: u256
  sl_insertion :: insertion_type

datatype account_status = NoneValue | StorageCleared | Touched | SelfDestructed

record db_account =
  ac_info :: account_info
  ac_status :: account_status
  ac_storage :: "u256 \<Rightarrow> db_slot option"
  ac_insertion :: insertion_type

record provider =
  rpc_transaction_count :: "address \<Rightarrow> u64 option"
  rpc_balance :: "address \<Rightarrow> u256 option"
  rpc_code :: "address \<Rightarrow> bytecode option"
  rpc_storage :: "address \<Rightarrow> u256 \<Rightarrow> u256 option"
  rpc_block :: "u64 \<Rightarrow> b256 option option option"

record revm =
  rv_hash_slow :: "bytecode \<Rightarrow> b256"
  rv_default_info :: account_info
  rv_default_code :: bytecode
  rv_keccak_empty :: b256

record state_db =
  db_accounts :: "address \<Rightarrow> db_account option"
  db_contracts :: "b256 \<Rightarrow> bytecode option"
  db_block_hashes :: "u64 \<Rightarrow> b256 option"
  db_pools :: "address set"
  db_pool_info :: "address \<Rightarrow> pool option"
  db_provider :: provider

subsection \<open>Construction and lookups\<close>

definition new_account :: "revm \<Rightarrow> insertion_type \<Rightarrow> db_account" where
  "new_account R it =
     \<lparr>ac_info = rv_default_info R, ac_status = NoneValue, ac_storage = Map.empty,
      ac_insertion = it\<rparr>"

definition default_account :: "revm \<Rightarrow> db_account" where
  "default_account R =
     \<lparr>ac_info = rv_default_info R, ac_status = NoneValue, ac_storage = Map.empty,
      ac_insertion = OnChain\<rparr>"

text \<open>\<open>new\<close> gives \<open>None\<close> when no tokio runtime can be had.\<close>

definition state_db_new :: "revm \<Rightarrow> bool \<Rightarrow> provider \<Rightarrow> state_db option" where
  "state_db_new R have_runtime prov =
     (if have_runtime then
        Some \<lparr>db_accounts = Map.empty,
              db_contracts = [rv_keccak_empty R \<mapsto> rv_default_code R],
              db_block_hashes = Map.empty, db_pools = {}, db_pool_info = Map.empty,
              db_provider = prov\<rparr>
      else None)"

definition get_pool :: "state_db \<Rightarrow> address \<Rightarrow> pool res" where
  "get_pool db a = unwrap_opt (db_pool_info db a)"

definition tracking_pool :: "state_db \<Rightarrow> address \<Rightarrow> bool" where
  "tracking_pool db a = (a \<in> db_pools db)"

definition zero_to_one :: "state_db \<Rightarrow> address \<Rightarrow> address \<Rightarrow> bool option" where
  "zero_to_one db a token_in =
     map_option (\<lambda>info. pl_token0 info = token_in) (db_pool_info db a)"

subsection \<open>\<open>DatabaseRef\<close>: reads that do not change the cache\<close>

definition basic_ref :: "revm \<Rightarrow> state_db \<Rightarrow> address \<Rightarrow> account_info option res" where
  "basic_ref R db a =
     (let p = db_provider db in
      case (rpc_transaction_count p a, rpc_balance p a, rpc_code p a) of
        (Some nonce, Some balance, Some code) \<Rightarrow>
          Ok (Some \<lparr>ai_balance = balance, ai_nonce = nonce,
                    ai_code_hash = rv_hash_slow R code, ai_code = Some code\<rparr>)
      | _ \<Rightarrow> err Transport_error)"

definition code_by_hash_ref :: "revm \<Rightarrow> state_db \<Rightarrow> b256 \<Rightarrow> bytecode res" where
  "code_by_hash_ref R db h =
     (case db_contracts db h of
        Some code \<Rightarrow> Ok code
      | None \<Rightarrow> Ok (rv_default_code R))"

text \<open>The cached slot of an account, if the account and the slot are cached.\<close>

definition cached_slot :: "state_db \<Rightarrow> address \<Rightarrow> u256 \<Rightarrow> db_slot option" where
  "cached_slot db a k =
     (case db_accounts db a of
        Some acc \<Rightarrow> ac_storage acc k
      | None \<Rightarrow> None)"

definition storage_ref :: "state_db \<Rightarrow> address \<Rightarrow> u256 \<Rightarrow> u256 res" where
  "storage_ref db a k =
     (case cached_slot db a k of
        Some sl \<Rightarrow> Ok (sl_value sl)
      | None \<Rightarrow>
          (case rpc_storage (db_provider db) a k of
             Some v \<Rightarrow> Ok v
           | None \<Rightarrow> err Transport_error))"

definition block_hash_ref :: "state_db \<Rightarrow> u64 \<Rightarrow> b256 res" where
  "block_hash_ref db n =
     (case db_block_hashes db n of
        Some h \<Rightarrow> Ok h
      | None \<Rightarrow>
          (case rpc_block (db_provider db) n of
             Some (Some (Some h)) \<Rightarrow> Ok h
           | Some (Some None) \<Rightarrow> Ok 0
           | Some None \<Rightarrow> Ok 0
           | None \<Rightarrow> err Transport_error))"

subsection \<open>Insertions\<close>

definition put_account :: "state_db \<Rightarrow> address \<Rightarrow> db_account \<Rightarrow> state_db" where
  "put_account db a acc = db\<lparr>db_accounts := (db_accounts db)(a \<mapsto> acc)\<rparr>"

definition put_slot :: "db_account \<Rightarrow> u256 \<Rightarrow> u256 \<Rightarrow> insertion_type \<Rightarrow> db_account" where
  "put_slot acc k v it =
     acc\<lparr>ac_storage := (ac_storage acc)(k \<mapsto> \<lparr>sl_value = v, sl_insertion = it\<rparr>)\<rparr>"

definition insert_account_info ::
  "revm \<Rightarrow> state_db \<Rightarrow> address \<Rightarrow> account_info \<Rightarrow> insertion_type \<Rightarrow> state_db"
where
  "insert_account_info R db a info it =
     put_account db a ((new_account R it)\<lparr>ac_info := info\<rparr>)"

text \<open>\<open>add_pool\<close> replaces whatever the cache held for the pool's address, unless the
  provider fails.\<close>

definition add_pool :: "revm \<Rightarrow> state_db \<Rightarrow> pool \<Rightarrow> state_db" where
  "add_pool R db p =
     (let a = pl_address p;
          db1 = db\<lparr>db_pools := insert a (db_pools db),
                   db_pool_info := (db_pool_info db)(a \<mapsto> p)\<rparr>
      in case basic_ref R db1 a of
           Inr (Some info) \<Rightarrow>
             put_account db1 a
               \<lparr>ac_info = info, ac_status = NoneValue, ac_storage = Map.empty,
                ac_insertion = OnChain\<rparr>
         | Inr None \<Rightarrow>
             put_account db1 a
               \<lparr>ac_info = rv_default_info R, ac_status = NoneValue,
                ac_storage = Map.empty, ac_insertion = OnChain\<rparr>
         | Inl _ \<Rightarrow> db1)"

text \<open>The slots a block trace reports for an account, keys distinct.\<close>

record trace_state =
  ts_storage :: "(b256 \<times> b256) list option"

definition update_slot :: "address \<Rightarrow> b256 \<times> b256 \<Rightarrow> state_db \<Rightarrow> state_db" where
  "update_slot a kv db =
     (case db_accounts db a of
        Some acc \<Rightarrow> put_account db a (put_slot acc (fst kv) (snd kv) Custom)
      | None \<Rightarrow> db)"

definition update_all_slots :: "state_db \<Rightarrow> address \<Rightarrow> trace_state \<Rightarrow> state_db res" where
  "update_all_slots db a ts =
     (case ts_storage ts of
        Some kvs \<Rightarrow> Ok (fold (update_slot a) kvs db)
      | None \<Rightarrow> Ok db)"

subsection \<open>\<open>Database\<close>: reads that fill the cache\<close>

definition basic :: "revm \<Rightarrow> state_db \<Rightarrow> address \<Rightarrow> account_info option res \<times> state_db" where
  "basic R db a =
     (case db_accounts db a of
        Some acc \<Rightarrow> (Ok (Some (ac_info acc)), db)
      | None \<Rightarrow>
          (case basic_ref R db a of
             Inr (Some info) \<Rightarrow>
               (Ok (Some info), insert_account_info R db a info OnChain)
           | Inr None \<Rightarrow> (Ok None, db)
           | Inl e \<Rightarrow> (Inl e, db)))"

definition code_by_hash :: "revm \<Rightarrow> state_db \<Rightarrow> b256 \<Rightarrow> bytecode res \<times> state_db" where
  "code_by_hash R db h =
     (case db_contracts db h of
        Some code \<Rightarrow> (Ok code, db)
      | None \<Rightarrow>
          (case code_by_hash_ref R db h of
             Inr code \<Rightarrow> (Ok code, db\<lparr>db_contracts := (db_contracts db)(h \<mapsto> code)\<rparr>)
           | Inl e \<Rightarrow> (Inl e, db)))"

text \<open>The entry at which \<open>storage\<close> caches the fetched slot: the account must exist, and is
  fetched, or made with default values, when it does not.\<close>

definition ensure_account :: "revm \<Rightarrow> state_db \<Rightarrow> address \<Rightarrow> unit res \<times> state_db" where
  "ensure_account R db a =
     (if db_accounts db a = None then
        (case basic R db a of
           (Inl e, db1) \<Rightarrow> (Inl e, db1)
         | (Inr (Some _), db1) \<Rightarrow> (Ok (), db1)
         | (Inr None, db1) \<Rightarrow>
             (Ok (), insert_account_info R db1 a (rv_default_info R) OnChain))
      else (Ok (), db))"

definition storage :: "revm \<Rightarrow> state_db \<Rightarrow> address \<Rightarrow> u256 \<Rightarrow> u256 res \<times> state_db" where
  "storage R db a k =
     (case cached_slot db a k of
        Some sl \<Rightarrow> (Ok (sl_value sl), db)
      | None \<Rightarrow>
          (case storage_ref db a k of
             Inl e \<Rightarrow> (Inl e, db)
           | Inr v \<Rightarrow>
               (case ensure_account R db a of
                  (Inl e, db1) \<Rightarrow> (Inl e, db1)
                | (Inr _, db1) \<Rightarrow>
                    (let acc = (case db_accounts db1 a of
                                  Some acc \<Rightarrow> acc
                                | None \<Rightarrow> new_account R OnChain)
                     in (Ok v, put_account db1 a (put_slot acc k v OnChain))))))"

definition block_hash :: "state_db \<Rightarrow> u64 \<Rightarrow> b256 res \<times> state_db" where
  "block_hash db n =
     (case db_block_hashes db n of
        Some h \<Rightarrow> (Ok h, db)
      | None \<Rightarrow>
          (case block_hash_ref db n of
             Inr h \<Rightarrow> (Ok h, db\<lparr>db_block_hashes := (db_block_hashes db)(n \<mapsto> h)\<rparr>)
           | Inl e \<Rightarrow> (Inl e, db)))"

text \<open>\<open>accounts.get_mut(..).unwrap()\<close> followed by an insertion into its storage.\<close>

definition insert_slot :: "state_db \<Rightarrow> address \<Rightarrow> u256 \<Rightarrow> u256 \<Rightarrow> state_db res" where
  "insert_slot db a k v =
     rbind (unwrap_opt (db_accounts db a))
       (\<lambda>acc. Ok (put_account db a (put_slot acc k v Custom)))"

definition insert_account_storage ::
  "revm \<Rightarrow> state_db \<Rightarrow> address \<Rightarrow> u256 \<Rightarrow> u256 \<Rightarrow> insertion_type \<Rightarrow> unit res \<times> state_db"
where
  "insert_account_storage R db a k v it =
     (case db_accounts db a of
        Some acc \<Rightarrow> (Ok (), put_account db a (put_slot acc k v Custom))
      | None \<Rightarrow>
          (case basic R db a of
             (Inr (Some info), db1) \<Rightarrow>
               (case insert_slot (insert_account_info R db1 a info it) a k v of
                  Inr db2 \<Rightarrow> (Ok (), db2)
                | Inl e \<Rightarrow> (Inl e, db1))
           | (Inr None, db1) \<Rightarrow>
               (case insert_slot (insert_account_info R db1 a (rv_default_info R) it) a k v of
                  Inr db2 \<Rightarrow> (Ok (), db2)
                | Inl e \<Rightarrow> (Inl e, db1))
           | (Inl (Panic p), db1) \<Rightarrow> (panic p, db1)
           | (Inl (Error _), db1) \<Rightarrow> (err Account_fetch_failed, db1)))"

subsection \<open>\<open>DatabaseCommit\<close>: the effects of an executed transaction\<close>

text \<open>The account changes \<^verbatim>\<open>revm\<close> reports: its status flags, its info, and the present
  value of every storage slot it loaded.\<close>

record evm_account =
  ev_touched :: bool
  ev_created :: bool
  ev_selfdestructed :: bool
  ev_storage_cleared :: bool
  ev_info :: account_info
  ev_storage :: "(u256 \<times> u256) list"

text \<open>Non-empty bytecode goes to the contract table; \<open>take\<close> removes it from the info that
  is stored.\<close>

definition commit_code :: "state_db \<Rightarrow> account_info \<Rightarrow> state_db \<times> account_info" where
  "commit_code db info =
     (case ai_code info of
        Some code \<Rightarrow>
          ((if code \<noteq> [] then
              db\<lparr>db_contracts := (db_contracts db)(ai_code_hash info \<mapsto> code)\<rparr>
            else db),
           info\<lparr>ai_code := None\<rparr>)
      | None \<Rightarrow> (db, info))"

definition commit_account :: "revm \<Rightarrow> address \<times> evm_account \<Rightarrow> state_db \<Rightarrow> state_db" where
  "commit_account R change db =
     (let (a, ev) = change in
      if \<not> ev_touched ev \<and> \<not> ev_created ev then db
      else if ev_selfdestructed ev then
        (let acc = (case db_accounts db a of Some acc \<Rightarrow> acc | None \<Rightarrow> default_account R)
         in put_account db a
              (acc\<lparr>ac_storage := Map.empty, ac_status := SelfDestructed,
                   ac_info := rv_default_info R\<rparr>))
      else
        (let (db1, info) = commit_code db (ev_info ev);
             acc0 = (case db_accounts db1 a of
                       Some acc \<Rightarrow> acc
                     | None \<Rightarrow> new_account R Custom);
             acc1 = acc0\<lparr>ac_info := info\<rparr>;
             acc2 = (if ev_created ev then
                       acc1\<lparr>ac_storage := Map.empty, ac_status := StorageCleared\<rparr>
                     else if ev_storage_cleared ev then acc1\<lparr>ac_status := StorageCleared\<rparr>
                     else if ev_touched ev then acc1\<lparr>ac_status := Touched\<rparr>
                     else acc1)
         in put_account db1 a
              (fold (\<lambda>(k, v) acc. put_slot acc k v Custom) (ev_storage ev) acc2)))"

definition commit :: "revm \<Rightarrow> state_db \<Rightarrow> (address \<times> evm_account) list \<Rightarrow> state_db" where
  "commit R db changes = fold (commit_account R) changes db"

subsection \<open>Frame lemmas\<close>

named_theorems db_simps \<open>what each insertion does to the fields of the database\<close>

lemma put_account_fields [db_simps, simp]:
  "db_accounts (put_account db a acc) = (db_accounts db)(a \<mapsto> acc)"
  "db_contracts (put_account db a acc) = db_contracts db"
  "db_block_hashes (put_account db a acc) = db_block_hashes db"
  "db_pools (put_account db a acc) = db_pools db"
  "db_pool_info (put_account db a acc) = db_pool_info db"
  "db_provider (put_account db a acc) = db_provider db"
  by (simp_all add: put_account_def)

lemma put_slot_fields [db_simps, simp]:
  "ac_storage (put_slot acc k v it) =
     (ac_storage acc)(k \<mapsto> \<lparr>sl_value = v, sl_insertion = it\<rparr>)"
  "ac_info (put_slot acc k v it) = ac_info acc"
  "ac_status (put_slot acc k v it) = ac_status acc"
  by (simp_all add: put_slot_def)

lemma new_account_fields [db_simps, simp]:
  "ac_storage (new_account R it) = Map.empty"
  "ac_storage (default_account R) = Map.empty"
  by (simp_all add: new_account_def default_account_def)

lemma insert_account_info_fields [db_simps, simp]:
  "db_pools (insert_account_info R db a info it) = db_pools db"
  "db_pool_info (insert_account_info R db a info it) = db_pool_info db"
  "db_provider (insert_account_info R db a info it) = db_provider db"
  by (simp_all add: insert_account_info_def)

text \<open>A read of a slot, split into the cache and the provider.\<close>

definition provider_read :: "state_db \<Rightarrow> address \<Rightarrow> u256 \<Rightarrow> u256 res" where
  "provider_read db a k =
     (case rpc_storage (db_provider db) a k of Some v \<Rightarrow> Ok v | None \<Rightarrow> err Transport_error)"

text \<open>The cached value if there is one, and the other source if not.\<close>

definition slot_or :: "db_slot option \<Rightarrow> u256 res \<Rightarrow> u256 res" where
  "slot_or sl r = (case sl of Some s \<Rightarrow> Ok (sl_value s) | None \<Rightarrow> r)"

lemma slot_or_simps [simp]: "slot_or (Some s) r = Ok (sl_value s)" "slot_or None r = r"
  by (simp_all add: slot_or_def)

lemma storage_ref_eq: "storage_ref db a k = slot_or (cached_slot db a k) (provider_read db a k)"
  by (simp add: storage_ref_def provider_read_def slot_or_def split: option.splits)

lemma provider_read_cong: "db_provider db' = db_provider db \<Longrightarrow> provider_read db' = provider_read db"
  by (intro ext) (simp add: provider_read_def)

lemma storage_ref_same_cache:
  assumes "db_provider db' = db_provider db" and "cached_slot db' a k = cached_slot db a k"
  shows "storage_ref db' a k = storage_ref db a k"
  unfolding storage_ref_eq assms(2) provider_read_cong [OF assms(1)] ..

lemma cached_slot_put_account [simp]:
  "cached_slot (put_account db a acc) b k =
     (if b = a then ac_storage acc k else cached_slot db b k)"
  by (simp add: cached_slot_def)

lemma cached_slot_missing: "db_accounts db a = None \<Longrightarrow> cached_slot db a k = None"
  by (simp add: cached_slot_def)

lemma cached_slot_present: "db_accounts db a = Some acc \<Longrightarrow> cached_slot db a k = ac_storage acc k"
  by (simp add: cached_slot_def)

lemma provider_read_put_account [simp]: "provider_read (put_account db a acc) = provider_read db"
  by (rule provider_read_cong) simp

lemma storage_ref_put_account:
  "storage_ref (put_account db a acc) b k =
     (if b = a then slot_or (ac_storage acc k) (provider_read db a k) else storage_ref db b k)"
  by (simp add: storage_ref_eq)

lemma storage_ref_put_slot:
  assumes "db_accounts db a = Some acc \<or> db_accounts db a = None \<and> ac_storage acc = Map.empty"
  shows "storage_ref (put_account db a (put_slot acc k v it)) b j =
     (if b = a \<and> j = k then Ok v else storage_ref db b j)"
  using assms by (auto simp: storage_ref_eq cached_slot_present cached_slot_missing)

text \<open>Caching an account without slots hides nothing that was cached.\<close>

lemma storage_ref_insert_account_info:
  "db_accounts db a = None \<Longrightarrow>
     storage_ref (insert_account_info R db a info it) b k = storage_ref db b k"
  by (simp add: insert_account_info_def storage_ref_eq cached_slot_missing)

subsection \<open>The interface of a slot store\<close>

text \<open>
  The pool databases (\<^verbatim>\<open>v2_db.rs\<close>, \<^verbatim>\<open>v3_db.rs\<close>) use the store only through writing a
  slot of an existing account and reading slots. These laws are all they rely on.
\<close>

locale slot_store =
  fixes put :: "'s \<Rightarrow> address \<Rightarrow> u256 \<Rightarrow> u256 \<Rightarrow> 's res"
    and get :: "'s \<Rightarrow> address \<Rightarrow> u256 \<Rightarrow> u256 res"
    and has :: "'s \<Rightarrow> address \<Rightarrow> bool"
  assumes put_has: "has s a \<Longrightarrow> \<exists>t. put s a k v = Inr t"
    and put_missing: "\<not> has s a \<Longrightarrow> put s a k v = panic Unwrap_none"
    and has_put: "put s a k v = Inr t \<Longrightarrow> has t b = has s b"
    and get_put: "put s a k v = Inr t \<Longrightarrow>
          get t b j = (if b = a \<and> j = k then Ok v else get s b j)"
begin

definition put_all :: "address \<Rightarrow> (u256 \<times> u256) list \<Rightarrow> 's \<Rightarrow> 's res" where
  "put_all a = rfold (\<lambda>(k, v) s. put s a k v)"

lemma put_all_simps:
  "put_all a [] s = Ok s"
  "put_all a ((k, v) # kvs) s = rbind (put s a k v) (put_all a kvs)"
  by (simp_all add: put_all_def)

lemma put_all_has: "has s a \<Longrightarrow> \<exists>t. put_all a kvs s = Inr t \<and> has t a"
proof (induction kvs arbitrary: s)
  case Nil
  then show ?case by (simp add: put_all_simps)
next
  case (Cons kv kvs)
  obtain k v where kv: "kv = (k, v)" by force
  from Cons.prems obtain t where "put s a k v = Inr t" using put_has by blast
  with Cons.IH [of t] Cons.prems kv show ?case
    by (simp add: put_all_simps has_put)
qed

text \<open>The last value written to a slot is read back; every other slot keeps its value.\<close>

lemma get_put_all:
  "put_all a kvs s = Inr t \<Longrightarrow>
     get t b j = (if b = a then (case map_of (rev kvs) j of Some v \<Rightarrow> Ok v | None \<Rightarrow> get s b j)
                   else get s b j)"
proof (induction kvs arbitrary: s)
  case Nil
  then show ?case by (simp add: put_all_simps)
next
  case (Cons kv kvs)
  obtain k v where kv: "kv = (k, v)" by force
  with Cons.prems obtain u where u: "put s a k v = Inr u" "put_all a kvs u = Inr t"
    by (auto simp: put_all_simps rbind_eq_Inr)
  from Cons.IH [OF u(2)] get_put [OF u(1)] kv show ?case
    by (auto simp: map_add_def split: option.splits)
qed

lemma get_put_all_distinct:
  assumes "put_all a kvs s = Inr t" and "distinct (map fst kvs)" and "(k, v) \<in> set kvs"
  shows "get t a k = Ok v"
proof -
  from assms(2,3) have "map_of (rev kvs) k = Some v"
    by (simp add: distinct_map map_of_eq_Some_iff rev_map [symmetric])
  with get_put_all [OF assms(1)] show ?thesis by simp
qed

end

definition has_account :: "state_db \<Rightarrow> address \<Rightarrow> bool" where
  "has_account db a = (db_accounts db a \<noteq> None)"

text \<open>The second way of reading a slot: from the cache only, panicking when it is absent.\<close>

definition cached_value :: "state_db \<Rightarrow> address \<Rightarrow> u256 \<Rightarrow> u256 res" where
  "cached_value db a k =
     rbind (unwrap_opt (db_accounts db a))
       (\<lambda>acc. rbind (unwrap_opt (ac_storage acc k)) (\<lambda>sl. Ok (sl_value sl)))"

lemma insert_slot_has: "db_accounts db a = Some acc \<Longrightarrow>
    insert_slot db a k v = Ok (put_account db a (put_slot acc k v Custom))"
  by (simp add: insert_slot_def)

lemma insert_slot_InrE:
  assumes "insert_slot db a k v = Inr db'"
  obtains acc where "db_accounts db a = Some acc"
    "db' = put_account db a (put_slot acc k v Custom)"
  using assms by (auto simp: insert_slot_def rbind_eq_Inr)

interpretation sr: slot_store insert_slot storage_ref has_account
proof
  fix s t :: state_db and a b :: address and k v j :: u256
  show "has_account s a \<Longrightarrow> \<exists>t. insert_slot s a k v = Inr t"
    by (auto simp: has_account_def insert_slot_has)
  show "\<not> has_account s a \<Longrightarrow> insert_slot s a k v = panic Unwrap_none"
    by (simp add: has_account_def insert_slot_def)
  assume w: "insert_slot s a k v = Inr t"
  from w show "has_account t b = has_account s b"
    by (elim insert_slot_InrE) (auto simp: has_account_def)
  from w show "storage_ref t b j = (if b = a \<and> j = k then Ok v else storage_ref s b j)"
    by (elim insert_slot_InrE) (simp add: storage_ref_put_slot)
qed

interpretation cv: slot_store insert_slot cached_value has_account
proof
  fix s t :: state_db and a b :: address and k v j :: u256
  show "has_account s a \<Longrightarrow> \<exists>t. insert_slot s a k v = Inr t" by (rule sr.put_has)
  show "\<not> has_account s a \<Longrightarrow> insert_slot s a k v = panic Unwrap_none" by (rule sr.put_missing)
  assume w: "insert_slot s a k v = Inr t"
  then show "has_account t b = has_account s b" by (rule sr.has_put)
  from w show "cached_value t b j = (if b = a \<and> j = k then Ok v else cached_value s b j)"
    by (elim insert_slot_InrE) (auto simp: cached_value_def)
qed

subsection \<open>A concrete database\<close>

text \<open>A provider that answers every request and an empty database over it, on which the
  properties are instantiated.\<close>

definition ex_provider :: provider where
  "ex_provider =
     \<lparr>rpc_transaction_count = (\<lambda>a. Some 1), rpc_balance = (\<lambda>a. Some 2),
      rpc_code = (\<lambda>a. Some [96]), rpc_storage = (\<lambda>a k. Some (k + 5)),
      rpc_block = (\<lambda>n. Some (Some (Some 3)))\<rparr>"

definition ex_revm :: revm where
  "ex_revm =
     \<lparr>rv_hash_slow = (\<lambda>code. of_nat (length code)),
      rv_default_info = \<lparr>ai_balance = 0, ai_nonce = 0, ai_code_hash = 0, ai_code = None\<rparr>,
      rv_default_code = [], rv_keccak_empty = 0\<rparr>"

definition ex_db :: state_db where
  "ex_db =
     \<lparr>db_accounts = Map.empty, db_contracts = [0 \<mapsto> []], db_block_hashes = Map.empty,
      db_pools = {}, db_pool_info = Map.empty, db_provider = ex_provider\<rparr>"

lemma ex_db_new: "state_db_new ex_revm True ex_provider = Some ex_db"
  by (simp add: state_db_new_def ex_db_def ex_revm_def)

definition ex_pool :: pool where
  "ex_pool =
     \<lparr>pl_address = 77, pl_token0 = 10, pl_token1 = 20, pl_decimals0 = 18, pl_decimals1 = 6,
      pl_type = UniswapV2, pl_fee = 0, pl_is_v2 = True, pl_is_v3 = False,
      pl_v2 = Some \<lparr>v2_reserve0 = 1000, v2_reserve1 = 2000, v2_stable = None\<rparr>,
      pl_v3 = None, pl_variant = VSimple\<rparr>"

lemmas ex_defs = ex_db_def ex_provider_def ex_revm_def

text \<open>The same database caching one pool, with the given slots.\<close>

definition ex_with :: "pool \<Rightarrow> (u256 \<times> u256) list \<Rightarrow> state_db" where
  "ex_with p kvs =
     ex_db\<lparr>db_accounts :=
              [pl_address p \<mapsto>
                \<lparr>ac_info = \<lparr>ai_balance = 0, ai_nonce = 0, ai_code_hash = 0, ai_code = None\<rparr>,
                 ac_status = NoneValue,
                 ac_storage = map_of (map (\<lambda>(k, v). (k, \<lparr>sl_value = v, sl_insertion = Custom\<rparr>)) kvs),
                 ac_insertion = OnChain\<rparr>],
            db_pools := {pl_address p}, db_pool_info := [pl_address p \<mapsto> p]\<rparr>"

lemma ex_with_reads:
  "storage_ref (ex_with p kvs) (pl_address p) k =
     (case map_of kvs k of Some v \<Rightarrow> Ok v | None \<Rightarrow> Ok (k + 5))"
  "cached_value (ex_with p kvs) (pl_address p) k = unwrap_opt (map_of kvs k)"
  "db_pool_info (ex_with p kvs) = [pl_address p \<mapsto> p]"
  by (cases "map_of kvs k", auto simp: ex_with_def storage_ref_def cached_slot_def
      cached_value_def ex_db_def ex_provider_def map_of_map)+

subsection \<open>The cache is transparent\<close>

lemma basic_storage_ref: "storage_ref (snd (basic R db a)) b k = storage_ref db b k"
  by (auto simp: basic_def storage_ref_insert_account_info split: option.splits sum.splits)

lemma basic_provider: "db_provider (snd (basic R db a)) = db_provider db"
  by (auto simp: basic_def split: option.splits sum.splits)

lemma basic_None_unchanged:
  "fst (basic R db a) = Inr None \<or> fst (basic R db a) = Inl e \<Longrightarrow> snd (basic R db a) = db"
  by (auto simp: basic_def split: option.splits sum.splits)

lemma basic_no_panic: "fst (basic R db a) \<noteq> panic p"
  by (auto simp: basic_def basic_ref_def Let_def split: option.splits sum.splits)

lemma basic_ref_not_None: "basic_ref R db a \<noteq> Inr None"
  by (auto simp: basic_ref_def Let_def split: option.splits)

lemma basic_fills:
  assumes "fst (basic R db a) = Inr (Some info)"
  shows "\<exists>acc. db_accounts (snd (basic R db a)) a = Some acc \<and> ac_info acc = info"
  using assms
  by (auto simp: basic_def insert_account_info_def split: option.splits sum.splits)

lemma ensure_account_frame:
  assumes "ensure_account R db a = (r, db1)"
  shows "storage_ref db1 b k = storage_ref db b k"
    and "r = Inr () \<Longrightarrow> has_account db1 a"
    and "r = Inl e \<Longrightarrow> db1 = db"
proof -
  obtain rb dbb where b: "basic R db a = (rb, dbb)" by force
  have bs: "storage_ref dbb b k = storage_ref db b k" for b k
    using basic_storage_ref [of R db a b k] b by simp
  have un: "rb = Inr None \<or> rb = Inl e \<Longrightarrow> dbb = db" for e
    using basic_None_unchanged [of R db a e] b by simp
  show "storage_ref db1 b k = storage_ref db b k"
    using assms b bs un
    by (auto simp: ensure_account_def storage_ref_insert_account_info
             split: if_splits sum.splits option.splits)
  show "r = Inr () \<Longrightarrow> has_account db1 a"
    using assms b basic_fills [of R db a]
    by (auto simp: ensure_account_def has_account_def insert_account_info_def
             split: if_splits sum.splits option.splits)
  show "r = Inl e \<Longrightarrow> db1 = db"
    using assms b un
    by (auto simp: ensure_account_def split: if_splits sum.splits option.splits)
qed

lemma storage_cases:
  assumes "storage R db a k = (r, db')"
  obtains (cached) sl where "cached_slot db a k = Some sl" "r = Ok (sl_value sl)" "db' = db"
  | (failed) e where "r = Inl e" "db' = db"
  | (fetched) v acc db1 where "cached_slot db a k = None" "storage_ref db a k = Ok v" "r = Ok v"
      "ensure_account R db a = (Inr (), db1)" "db_accounts db1 a = Some acc"
      "db' = put_account db1 a (put_slot acc k v OnChain)"
proof (cases "cached_slot db a k")
  case (Some sl)
  show ?thesis by (rule cached [OF Some]) (use assms Some in \<open>simp_all add: storage_def\<close>)
next
  case None
  note miss = this
  show ?thesis
  proof (cases "storage_ref db a k")
    case (Inl e)
    show ?thesis by (rule failed [of e]) (use assms miss Inl in \<open>simp_all add: storage_def\<close>)
  next
    case (Inr v)
    obtain re db1 where e: "ensure_account R db a = (re, db1)" by force
    show ?thesis
    proof (cases re)
      case (Inl f)
      show ?thesis
        by (rule failed [of f])
           (use assms miss Inr e Inl ensure_account_frame(3) [OF e] in \<open>simp_all add: storage_def\<close>)
    next
      case (Inr u)
      with ensure_account_frame(2) [OF e] obtain acc where acc: "db_accounts db1 a = Some acc"
        by (auto simp: has_account_def)
      show ?thesis
        by (rule fetched [OF miss, of v db1 acc])
           (use assms miss \<open>storage_ref db a k = Inr v\<close> e Inr acc in \<open>simp_all add: storage_def\<close>)
    qed
  qed
qed

text \<open>
  C16: Reading a slot through the cache-filling \<^verbatim>\<open>Database::storage\<close> is transparent. When it
  returns a value, that is the value \<^verbatim>\<open>storage_ref\<close> would have returned; afterwards every
  slot of every account still reads as before, and a second read of the slot is a cache
  hit with the same value that leaves the database as it is.
\<close>

theorem storage_read_through:
  assumes "storage R db a k = (Inr v, db')"
  shows "storage_ref db a k = Inr v \<and>
         (\<forall>b j. storage_ref db' b j = storage_ref db b j) \<and>
         storage R db' a k = (Inr v, db')"
  using assms
proof (cases rule: storage_cases)
  case (cached sl)
  then show ?thesis using assms by (simp add: storage_ref_eq)
next
  case (fetched w acc db1)
  have "storage_ref db' b j = storage_ref db b j" for b j
    using fetched ensure_account_frame(1) [OF fetched(4)] by (simp add: storage_ref_put_slot)
  with fetched show ?thesis by (simp add: storage_def)
qed simp

theorem storage_read_through_witness:
  "\<exists>db'. storage ex_revm ex_db 7 8 = (Inr 13, db') \<and> storage_ref db' 7 8 = Inr 13 \<and>
     storage_ref db' 9 1 = Inr 6 \<and> storage ex_revm db' 7 8 = (Inr 13, db')"
proof -
  obtain db' where s: "storage ex_revm ex_db 7 8 = (Inr 13, db')"
    by (simp add: storage_def cached_slot_def storage_ref_def ensure_account_def basic_def
        basic_ref_def insert_account_info_def ex_defs)
  have "storage_ref ex_db 7 8 = Inr 13" "storage_ref ex_db 9 1 = Inr 6"
    by (simp_all add: storage_ref_def cached_slot_def ex_defs)
  with storage_read_through [OF s] s show ?thesis by metis
qed

text \<open>A failing read changes nothing.\<close>

lemma storage_failed_unchanged: "storage R db a k = (Inl e, db') \<Longrightarrow> db' = db"
  by (erule storage_cases) auto

subsection \<open>Insertions read back\<close>

lemma insert_account_storage_cases:
  assumes "insert_account_storage R db a k v it = (r, db')"
  obtains (inserted) acc db1 where "r = Ok ()" "db_accounts db1 a = Some acc"
      "\<And>b j. storage_ref db1 b j = storage_ref db b j"
      "db' = put_account db1 a (put_slot acc k v Custom)"
  | (failed) "r = err Account_fetch_failed" "db' = db"
proof (cases "db_accounts db a")
  case (Some acc)
  then show ?thesis using assms inserted [of db acc] by (simp add: insert_account_storage_def)
next
  case None
  have fresh: thesis
    if "insert_slot (insert_account_info R db1 a info it) a k v = Inr db2" "r = Ok ()" "db' = db2"
      and ref: "\<And>b j. storage_ref (insert_account_info R db1 a info it) b j = storage_ref db b j"
    for db1 db2 info
    using that(1) by (rule insert_slot_InrE) (rule inserted [OF that(2) _ ref], use that(3) in auto)
  obtain rb db1 where b: "basic R db a = (rb, db1)" by force
  have ins: "insert_slot (insert_account_info R d a info it) a k v \<noteq> Inl e" for d info e
    by (simp add: insert_slot_def insert_account_info_def)
  have ref: "storage_ref (insert_account_info R db1 a info it) b' j = storage_ref db b' j" for info b' j
    using None b
    by (auto simp: basic_def insert_account_info_def storage_ref_eq cached_slot_missing
             split: sum.splits option.splits)
  show ?thesis
  proof (cases rb)
    case (Inl f)
    then show ?thesis
      using assms None b basic_no_panic [of R db a] basic_None_unchanged [of R db a f] failed
      by (auto simp: insert_account_storage_def split: fault.splits)
  next
    case (Inr oi)
    with assms None b ins show ?thesis
      by (fastforce simp: insert_account_storage_def split: option.splits sum.splits
                    intro: fresh [OF _ _ _ ref])
  qed
qed

text \<open>
  \<^verbatim>\<open>insert_account_storage\<close> either fails to fetch the account, and then leaves the
  database as it was, or succeeds, and then the slot reads as the inserted value while
  every other slot of every account reads as before.
\<close>

theorem insert_account_storage_reads:
  "insert_account_storage R db a k v it = (err Account_fetch_failed, db) \<or>
   (\<exists>db'. insert_account_storage R db a k v it = (Ok (), db') \<and>
          (\<forall>b j. storage_ref db' b j = (if b = a \<and> j = k then Ok v else storage_ref db b j)))"
proof -
  obtain r db' where i: "insert_account_storage R db a k v it = (r, db')" by force
  then show ?thesis
  proof (cases rule: insert_account_storage_cases)
    case (inserted acc db1)
    with i show ?thesis by (simp add: storage_ref_put_slot)
  next
    case failed
    with i show ?thesis by simp
  qed
qed

lemma update_slots_fold:
  assumes "db_accounts db a = Some acc"
  shows "\<exists>acc'. db_accounts (fold (update_slot a) kvs db) a = Some acc' \<and>
           (\<forall>b j. storage_ref (fold (update_slot a) kvs db) b j =
              (if b = a then (case map_of (rev kvs) j of Some v \<Rightarrow> Ok v | None \<Rightarrow> storage_ref db b j)
               else storage_ref db b j))"
  using assms
proof (induction kvs arbitrary: db acc)
  case Nil
  then show ?case by simp
next
  case (Cons kv kvs)
  let ?db = "update_slot a kv db"
  from Cons.prems have u: "?db = put_account db a (put_slot acc (fst kv) (snd kv) Custom)"
    by (simp add: update_slot_def)
  then have "db_accounts ?db a = Some (put_slot acc (fst kv) (snd kv) Custom)" by simp
  from Cons.IH [OF this] u Cons.prems show ?case
    by (cases kv) (auto simp: storage_ref_put_slot map_add_def split: option.splits)
qed

lemma update_slots_absent:
  "db_accounts db a = None \<Longrightarrow> fold (update_slot a) kvs db = db"
  by (induction kvs) (simp_all add: update_slot_def)

lemma update_slot_other:
  "b \<noteq> a \<Longrightarrow> db_accounts (fold (update_slot a) kvs db) b = db_accounts db b"
  by (induction kvs arbitrary: db) (auto simp: update_slot_def split: option.splits)

lemma update_slots_fields:
  "db_pools (fold (update_slot a) kvs db) = db_pools db"
  "db_pool_info (fold (update_slot a) kvs db) = db_pool_info db"
  "db_provider (fold (update_slot a) kvs db) = db_provider db"
  by (induction kvs arbitrary: db) (auto simp: update_slot_def split: option.splits)

lemma update_slots_has_account:
  "has_account (fold (update_slot a) kvs db) b = has_account db b"
  by (induction kvs arbitrary: db)
     (auto simp: update_slot_def has_account_def split: option.splits)

text \<open>What a trace of an account makes of a read.\<close>

definition traced_read :: "state_db \<Rightarrow> address \<Rightarrow> trace_state \<Rightarrow> u256 \<Rightarrow> u256 res" where
  "traced_read db a ts k =
     (if has_account db a
      then (case map_of (rev (case ts_storage ts of None \<Rightarrow> [] | Some kvs \<Rightarrow> kvs)) k of
              Some v \<Rightarrow> Ok v
            | None \<Rightarrow> storage_ref db a k)
      else storage_ref db a k)"

lemma update_all_slots_reads:
  assumes "update_all_slots db a ts = Inr db'"
  shows "storage_ref db' b k = (if b = a then traced_read db a ts k else storage_ref db b k)"
proof (cases "db_accounts db a")
  case None
  with assms show ?thesis
    by (auto simp: update_all_slots_def update_slots_absent traced_read_def has_account_def
             split: option.splits)
next
  case (Some acc)
  with assms update_slots_fold [OF Some] show ?thesis
    by (auto simp: update_all_slots_def traced_read_def has_account_def split: option.splits)
qed

subsection \<open>Adding a pool\<close>

lemma basic_ref_add_fields:
  "db_provider db' = db_provider db \<Longrightarrow> basic_ref R db' a = basic_ref R db a"
  by (simp add: basic_ref_def)

lemma add_pool_accounts:
  "db_accounts (add_pool R db p) b =
     (if b = pl_address p
      then (case basic_ref R db b of
              Inr (Some info) \<Rightarrow>
                Some \<lparr>ac_info = info, ac_status = NoneValue, ac_storage = Map.empty,
                      ac_insertion = OnChain\<rparr>
            | _ \<Rightarrow> db_accounts db b)
      else db_accounts db b)"
  using basic_ref_not_None [of R db "pl_address p"]
  by (auto simp: add_pool_def Let_def basic_ref_def split: sum.splits option.splits)

lemma add_pool_has_account:
  "has_account (add_pool R db p) b \<longleftrightarrow>
     has_account db b \<or> b = pl_address p \<and> (\<exists>info. basic_ref R db b = Inr (Some info))"
  by (auto simp: has_account_def add_pool_accounts split: sum.splits option.splits)

lemma add_pool_read_other:
  "b \<noteq> pl_address p \<Longrightarrow> storage_ref (add_pool R db p) b k = storage_ref db b k"
  by (rule storage_ref_same_cache)
     (auto simp: add_pool_def Let_def cached_slot_def split: sum.splits option.splits)

subsection \<open>Committed transactions\<close>

lemma put_slots_storage:
  "ac_storage (fold (\<lambda>(k, v) acc. put_slot acc k v it) kvs acc) k =
     (case map_of (rev kvs) k of
        Some v \<Rightarrow> Some \<lparr>sl_value = v, sl_insertion = it\<rparr>
      | None \<Rightarrow> ac_storage acc k)"
  by (induction kvs arbitrary: acc) (auto simp: map_add_def split: option.splits)

text \<open>What one account change makes of a read, as the code has it: a destroyed account and
  a created one lose their cached slots, and a slot that is not cached is read from the
  provider.\<close>

definition committed_read :: "state_db \<Rightarrow> address \<Rightarrow> evm_account \<Rightarrow> u256 \<Rightarrow> u256 res" where
  "committed_read db a ev k =
     (if \<not> ev_touched ev \<and> \<not> ev_created ev then storage_ref db a k
      else if ev_selfdestructed ev then provider_read db a k
      else (case map_of (rev (ev_storage ev)) k of
              Some v \<Rightarrow> Ok v
            | None \<Rightarrow> if ev_created ev then provider_read db a k else storage_ref db a k))"

lemma commit_code_fields:
  "commit_code db info = (db1, info1) \<Longrightarrow>
     db_accounts db1 = db_accounts db \<and> db_pools db1 = db_pools db \<and>
     db_pool_info db1 = db_pool_info db \<and> db_provider db1 = db_provider db"
  by (auto simp: commit_code_def split: option.splits if_splits)

lemma commit_account_provider [simp]:
  "db_provider (commit_account R c db) = db_provider db"
  by (auto simp: commit_account_def Let_def commit_code_def split: prod.splits option.splits)

lemma commit_account_other:
  "b \<noteq> fst c \<Longrightarrow> db_accounts (commit_account R c db) b = db_accounts db b"
  by (auto simp: commit_account_def Let_def commit_code_def split: prod.splits option.splits)

lemma commit_account_read_other:
  assumes "b \<noteq> fst c"
  shows "storage_ref (commit_account R c db) b k = storage_ref db b k"
  using commit_account_other [OF assms]
  by (intro storage_ref_same_cache) (simp_all add: cached_slot_def)

lemma commit_account_read:
  "storage_ref (commit_account R (a, ev) db) a k = committed_read db a ev k"
proof -
  obtain db1 info where cc: "commit_code db (ev_info ev) = (db1, info)" by force
  note f = commit_code_fields [OF cc]
  have pr: "provider_read db1 = provider_read db" using f by (intro provider_read_cong) simp
  show ?thesis
    using f
    by (cases "db_accounts db a"; cases "map_of (rev (ev_storage ev)) k")
       (auto simp: commit_account_def committed_read_def cc Let_def storage_ref_put_account pr
             put_slots_storage storage_ref_eq cached_slot_def)
qed

lemma committed_read_cong:
  assumes "db_provider db' = db_provider db" and "storage_ref db' a k = storage_ref db a k"
  shows "committed_read db' a ev k = committed_read db a ev k"
  using assms provider_read_cong [OF assms(1)]
  by (simp add: committed_read_def split: option.splits)

lemma commit_Cons [simp]: "commit R db (c # cs) = commit R (commit_account R c db) cs"
  by (simp add: commit_def)

lemma commit_Nil [simp]: "commit R db [] = db"
  by (simp add: commit_def)

lemma commit_read_other:
  "a \<notin> fst ` set cs \<Longrightarrow> storage_ref (commit R db cs) a k = storage_ref db a k"
  by (induction cs arbitrary: db) (auto simp: commit_account_read_other)

text \<open>
  C17: After \<^verbatim>\<open>commit\<close> of a set of account changes (one per address), a slot of a changed
  account reads as \<open>committed_read\<close> says, whatever the order of the changes, and the slots
  of every other account read as before.
\<close>

theorem commit_reads:
  assumes "distinct (map fst changes)"
  shows "storage_ref (commit R db changes) a k =
     (case map_of changes a of
        Some ev \<Rightarrow> committed_read db a ev k
      | None \<Rightarrow> storage_ref db a k)"
  using assms
proof (induction changes arbitrary: db)
  case Nil
  then show ?case by simp
next
  case (Cons c cs)
  obtain b ev where c: "c = (b, ev)" by force
  show ?case
  proof (cases "a = b")
    case True
    with Cons.prems c have "a \<notin> fst ` set cs" by auto
    with True c show ?thesis by (simp add: commit_read_other commit_account_read)
  next
    case False
    have "committed_read (commit_account R c db) a ev' k = committed_read db a ev' k" for ev'
      using False c by (intro committed_read_cong) (simp_all add: commit_account_read_other)
    with False c Cons.prems Cons.IH [of "commit_account R c db"] show ?thesis
      by (auto simp: commit_account_read_other split: option.splits)
  qed
qed

theorem commit_reads_witness:
  "storage_ref (commit ex_revm ex_db
      [(7, \<lparr>ev_touched = True, ev_created = False, ev_selfdestructed = False,
            ev_storage_cleared = False, ev_info = rv_default_info ex_revm,
            ev_storage = [(8, 99)]\<rparr>),
       (9, \<lparr>ev_touched = True, ev_created = False, ev_selfdestructed = True,
            ev_storage_cleared = False, ev_info = rv_default_info ex_revm,
            ev_storage = []\<rparr>)]) 7 8 = Inr 99"
  by (subst commit_reads) (simp_all add: committed_read_def)

subsection \<open>The tracked pools\<close>

text \<open>
  The methods as the steps of a state machine. The invariant ties the set of tracked
  addresses to the table of pool data: a tracked pool has its data, under its own address.
\<close>

inductive db_step :: "revm \<Rightarrow> state_db \<Rightarrow> state_db \<Rightarrow> bool" for R where
  step_add_pool: "db_step R db (add_pool R db p)"
| step_update_all_slots: "update_all_slots db a ts = Inr db' \<Longrightarrow> db_step R db db'"
| step_insert_account_info: "db_step R db (insert_account_info R db a info it)"
| step_insert_account_storage: "db_step R db (snd (insert_account_storage R db a k v it))"
| step_insert_slot: "insert_slot db a k v = Inr db' \<Longrightarrow> db_step R db db'"
| step_basic: "db_step R db (snd (basic R db a))"
| step_code_by_hash: "db_step R db (snd (code_by_hash R db h))"
| step_storage: "db_step R db (snd (storage R db a k))"
| step_block_hash: "db_step R db (snd (block_hash db n))"
| step_commit: "db_step R db (commit R db changes)"

inductive db_reachable :: "revm \<Rightarrow> state_db \<Rightarrow> bool" for R where
  reach_new: "state_db_new R True prov = Some db \<Longrightarrow> db_reachable R db"
| reach_step: "db_reachable R db \<Longrightarrow> db_step R db db' \<Longrightarrow> db_reachable R db'"

definition pools_tracked :: "state_db \<Rightarrow> bool" where
  "pools_tracked db \<longleftrightarrow>
     dom (db_pool_info db) = db_pools db \<and>
     (\<forall>a p. db_pool_info db a = Some p \<longrightarrow> pl_address p = a)"

lemma pools_tracked_cong:
  "db_pools db' = db_pools db \<Longrightarrow> db_pool_info db' = db_pool_info db \<Longrightarrow>
     pools_tracked db' = pools_tracked db"
  by (simp add: pools_tracked_def)

lemma add_pool_fields:
  "db_pools (add_pool R db p) = insert (pl_address p) (db_pools db)"
  "db_pool_info (add_pool R db p) = (db_pool_info db)(pl_address p \<mapsto> p)"
  "db_provider (add_pool R db p) = db_provider db"
  by (auto simp: add_pool_def Let_def split: sum.splits option.splits)

lemma basic_fields:
  "db_pools (snd (basic R db a)) = db_pools db"
  "db_pool_info (snd (basic R db a)) = db_pool_info db"
  by (auto simp: basic_def split: sum.splits option.splits)

lemma insert_slot_fields:
  "insert_slot db a k v = Inr db' \<Longrightarrow> db_pools db' = db_pools db"
  "insert_slot db a k v = Inr db' \<Longrightarrow> db_pool_info db' = db_pool_info db"
  "insert_slot db a k v = Inr db' \<Longrightarrow> db_provider db' = db_provider db"
  by (auto elim!: insert_slot_InrE)

lemma ensure_account_fields:
  assumes "ensure_account R db a = (r, db1)"
  shows "db_pools db1 = db_pools db" and "db_pool_info db1 = db_pool_info db"
proof -
  obtain rb dbb where b: "basic R db a = (rb, dbb)" by force
  have f: "db_pools dbb = db_pools db" "db_pool_info dbb = db_pool_info db"
    using basic_fields [of R db a] b by simp_all
  from assms have "db1 = db \<or> db1 = dbb \<or>
      db1 = insert_account_info R dbb a (rv_default_info R) OnChain"
    by (auto simp: ensure_account_def b split: if_splits sum.splits option.splits)
  then show "db_pools db1 = db_pools db" "db_pool_info db1 = db_pool_info db"
    using f by (elim disjE; simp)+
qed

lemma storage_fields:
  "db_pools (snd (storage R db a k)) = db_pools db"
  "db_pool_info (snd (storage R db a k)) = db_pool_info db"
proof -
  obtain r db' where s: "storage R db a k = (r, db')" by force
  then have "db_pools db' = db_pools db \<and> db_pool_info db' = db_pool_info db"
  proof (cases rule: storage_cases)
    case (fetched v acc db1)
    with ensure_account_fields [OF fetched(4)] show ?thesis by simp
  qed simp_all
  with s show "db_pools (snd (storage R db a k)) = db_pools db"
    "db_pool_info (snd (storage R db a k)) = db_pool_info db" by simp_all
qed

lemma insert_account_storage_fields:
  "db_pools (snd (insert_account_storage R db a k v it)) = db_pools db"
  "db_pool_info (snd (insert_account_storage R db a k v it)) = db_pool_info db"
proof -
  obtain rb dbb where b: "basic R db a = (rb, dbb)" by force
  have f: "db_pools dbb = db_pools db" "db_pool_info dbb = db_pool_info db"
    using basic_fields [of R db a] b by simp_all
  have ins: "db_pools d = db_pools db \<and> db_pool_info d = db_pool_info db"
    if "insert_slot (insert_account_info R dbb a info it) a k v = Inr d" for d info
    using insert_slot_fields(1,2) [OF that] f by simp
  show "db_pools (snd (insert_account_storage R db a k v it)) = db_pools db"
    and "db_pool_info (snd (insert_account_storage R db a k v it)) = db_pool_info db"
    unfolding insert_account_storage_def b
    using f ins
    by (cases "db_accounts db a"; simp split: sum.split option.split fault.split)+
qed

lemma commit_account_fields:
  "db_pools (commit_account R c db) = db_pools db"
  "db_pool_info (commit_account R c db) = db_pool_info db"
  by (auto simp: commit_account_def Let_def commit_code_def split: prod.splits option.splits)

lemma commit_fields:
  "db_pools (commit R db changes) = db_pools db"
  "db_pool_info (commit R db changes) = db_pool_info db"
  by (induction changes arbitrary: db) (auto simp: commit_account_fields)

lemma db_step_pools:
  assumes "db_step R db db'"
  shows "db_pools db \<subseteq> db_pools db'"
    and "pools_tracked db \<Longrightarrow> pools_tracked db'"
proof -
  have "(db_pools db' = db_pools db \<and> db_pool_info db' = db_pool_info db) \<or>
        (\<exists>p. db' = add_pool R db p)"
    using assms
  proof cases
    case (step_update_all_slots a ts)
    then show ?thesis by (auto simp: update_all_slots_def update_slots_fields split: option.splits)
  next
    case (step_insert_slot a k v)
    then show ?thesis using insert_slot_fields(1,2) by metis
  next
    case (step_insert_account_storage a k v it)
    then show ?thesis by (simp add: insert_account_storage_fields)
  next
    case (step_storage a k)
    then show ?thesis by (simp add: storage_fields)
  next
    case (step_code_by_hash h)
    then show ?thesis by (simp add: code_by_hash_def code_by_hash_ref_def split: option.split)
  next
    case (step_block_hash n)
    then show ?thesis by (simp add: block_hash_def split: option.split sum.split)
  next
    case (step_basic a)
    then show ?thesis by (simp add: basic_fields)
  next
    case (step_commit changes)
    then show ?thesis by (simp add: commit_fields)
  qed auto
  then consider (same) "db_pools db' = db_pools db" "db_pool_info db' = db_pool_info db"
    | (added) p where "db' = add_pool R db p" by blast
  then have "db_pools db \<subseteq> db_pools db' \<and> (pools_tracked db \<longrightarrow> pools_tracked db')"
  proof cases
    case same
    with pools_tracked_cong [OF same] show ?thesis by simp
  next
    case (added p)
    then show ?thesis by (auto simp add: add_pool_fields pools_tracked_def dom_def set_eq_iff)
  qed
  then show "db_pools db \<subseteq> db_pools db'" and "pools_tracked db \<Longrightarrow> pools_tracked db'"
    by blast+
qed

text \<open>
  C19: In every reachable database, the tracked addresses are exactly those with pool data,
  and each pool is stored under its own address. So \<^verbatim>\<open>get_pool\<close> and the \<open>unwrap\<close> of
  \<^verbatim>\<open>zero_to_one\<close> never panic on a tracked pool.
\<close>

theorem reachable_pools_tracked:
  assumes "db_reachable R db"
  shows "pools_tracked db \<and>
         (\<forall>a \<in> db_pools db. \<exists>p. get_pool db a = Ok p \<and> pl_address p = a \<and>
            (\<forall>t. zero_to_one db a t = Some (pl_token0 p = t)))"
proof -
  from assms have inv: "pools_tracked db"
  proof induction
    case (reach_new prov db)
    then show ?case by (auto simp: state_db_new_def pools_tracked_def)
  next
    case (reach_step db db')
    then show ?case using db_step_pools(2) by blast
  qed
  then have "\<exists>p. db_pool_info db a = Some p \<and> pl_address p = a" if "a \<in> db_pools db" for a
    using that unfolding pools_tracked_def by (metis domD)
  with inv show ?thesis by (force simp: get_pool_def zero_to_one_def)
qed

theorem reachable_pools_tracked_witness:
  "db_reachable ex_revm (add_pool ex_revm ex_db ex_pool) \<and>
   get_pool (add_pool ex_revm ex_db ex_pool) 77 = Ok ex_pool"
proof -
  have "db_reachable ex_revm ex_db" by (rule reach_new [OF ex_db_new])
  then have r: "db_reachable ex_revm (add_pool ex_revm ex_db ex_pool)"
    by (rule reach_step) (rule step_add_pool)
  have "77 \<in> db_pools (add_pool ex_revm ex_db ex_pool)"
    by (simp add: add_pool_fields ex_pool_def)
  with reachable_pools_tracked [OF r]
  obtain p where "get_pool (add_pool ex_revm ex_db ex_pool) 77 = Ok p" by blast
  then have "p = ex_pool" by (simp add: get_pool_def add_pool_fields ex_pool_def)
  with r \<open>get_pool _ 77 = Ok p\<close> show ?thesis by simp
qed

end
