(* ===== verification/V2DB.thy ===== *)
theory V2DB
  imports StateDB
begin

text \<open>
  Uniswap V2 pools in the state database (\<^verbatim>\<open>src/state_db/v2_db.rs\<close>). The contract keeps
  its token addresses in slots 6 and 7 and both reserves packed in slot 8: \<open>reserve0\<close> in
  bits 0 to 111, \<open>reserve1\<close> in bits 112 to 223 and, on chain, a timestamp above them.
  \<open>Address::from_word\<close> keeps the low 20 bytes of a word, and an address copied to bytes
  12 to 31 of a zeroed buffer is its zero extension, so both are \<open>ucast\<close>.
\<close>

definition U112_MASK :: u256 where
  "U112_MASK = push_bit 112 1 - 1"

definition insert_reserves :: "state_db \<Rightarrow> address \<Rightarrow> u256 \<Rightarrow> u256 \<Rightarrow> state_db res" where
  "insert_reserves db pool reserve0 reserve1 =
     (let packed_reserves = push_bit 112 reserve1 OR reserve0
      in insert_slot db pool 8 packed_reserves)"

definition insert_token0 :: "state_db \<Rightarrow> address \<Rightarrow> address \<Rightarrow> state_db res" where
  "insert_token0 db pool token = insert_slot db pool 6 (ucast token)"

definition insert_token1 :: "state_db \<Rightarrow> address \<Rightarrow> address \<Rightarrow> state_db res" where
  "insert_token1 db pool token = insert_slot db pool 7 (ucast token)"

definition insert_v2 :: "revm \<Rightarrow> state_db \<Rightarrow> pool \<Rightarrow> state_db res" where
  "insert_v2 R db p =
     (let a = pl_address p;
          db1 = add_pool R db p
      in rbind (unwrap_opt (pl_v2 p)) (\<lambda>v2_pool.
         rbind (insert_reserves db1 a (v2_reserve0 v2_pool) (v2_reserve1 v2_pool)) (\<lambda>db2.
         rbind (insert_token0 db2 a (pl_token0 p)) (\<lambda>db3.
         insert_token1 db3 a (pl_token1 p)))))"

definition get_reserves :: "state_db \<Rightarrow> address \<Rightarrow> (u256 \<times> u256) res" where
  "get_reserves db pool =
     rbind (unwrap_res (storage_ref db pool 8)) (\<lambda>value.
       Ok (drop_bit 0 value AND U112_MASK, drop_bit 112 value AND U112_MASK))"

definition get_token0 :: "state_db \<Rightarrow> address \<Rightarrow> address res" where
  "get_token0 db pool =
     rbind (unwrap_res (storage_ref db pool 6)) (\<lambda>token0. Ok (ucast token0))"

definition get_token1 :: "state_db \<Rightarrow> address \<Rightarrow> address res" where
  "get_token1 db pool =
     rbind (unwrap_res (storage_ref db pool 7)) (\<lambda>token1. Ok (ucast token1))"

text \<open>\<open>todo!()\<close>.\<close>

definition get_tokens :: "state_db \<Rightarrow> address \<Rightarrow> (address \<times> address) res" where
  "get_tokens db pool = panic (Explicit_panic ''not yet implemented'')"

subsection \<open>Packing\<close>

lemma U112_MASK_eq: "U112_MASK = mask 112"
  by (simp add: U112_MASK_def mask_eq_exp_minus_1)

lemma get_reserves_eq:
  "get_reserves db pool =
     rbind (unwrap_res (storage_ref db pool 8)) (\<lambda>value.
       Ok (take_bit 112 value, take_bit 112 (drop_bit 112 value)))"
  by (simp add: get_reserves_def U112_MASK_eq take_bit_eq_mask)

text \<open>The word the contract holds; the timestamp is 0 in the packing of the bot.\<close>

definition pack_reserves :: "u32 \<Rightarrow> u256 \<Rightarrow> u256 \<Rightarrow> u256" where
  "pack_reserves ts reserve0 reserve1 =
     push_bit 224 (ucast ts) OR push_bit 112 reserve1 OR reserve0"

lemma unpack_reserves:
  assumes "unat r0 < 2 ^ 112" and "unat r1 < 2 ^ 112"
  shows "take_bit 112 (pack_reserves ts r0 r1) = r0"
    and "take_bit 112 (drop_bit 112 (pack_reserves ts r0 r1)) = r1"
proof -
  note t = take_bit_unat_less [OF assms(1)] take_bit_unat_less [OF assms(2)]
  have "take_bit 112 (pack_reserves ts r0 r1) = take_bit 112 r0"
    by (rule bit_eqI) (auto simp: pack_reserves_def bit_simps)
  with t show "take_bit 112 (pack_reserves ts r0 r1) = r0" by simp
  have "take_bit 112 (drop_bit 112 (pack_reserves ts (take_bit 112 r0) r1)) = take_bit 112 r1"
    by (rule bit_eqI) (auto simp: pack_reserves_def bit_simps)
  with t show "take_bit 112 (drop_bit 112 (pack_reserves ts r0 r1)) = r1" by simp
qed

subsection \<open>A pool after its insertion\<close>

lemma insert_v2_eq:
  "insert_v2 R db p =
     rbind (unwrap_opt (pl_v2 p)) (\<lambda>v2_pool.
       sr.put_all (pl_address p)
         [(8, pack_reserves 0 (v2_reserve0 v2_pool) (v2_reserve1 v2_pool)),
          (6, ucast (pl_token0 p)), (7, ucast (pl_token1 p))]
         (add_pool R db p))"
  by (simp add: insert_v2_def insert_reserves_def insert_token0_def insert_token1_def
      pack_reserves_def sr.put_all_simps Let_def sr.put_all_def cong: rbind_cong)

lemma put_all_fields:
  "sr.put_all a kvs db = Inr db' \<Longrightarrow>
     db_pools db' = db_pools db \<and> db_pool_info db' = db_pool_info db"
  by (induction kvs arbitrary: db)
     (auto simp: sr.put_all_simps rbind_eq_Inr insert_slot_fields)

text \<open>
  C26: \<^verbatim>\<open>insert_v2\<close> of a pool whose reserves fit their 112 bits, when it succeeds, makes the pool
  readable: the getters return the reserves and tokens of the pool, the pool is tracked,
  and no slot of another account changes.
\<close>

theorem insert_v2_round_trip:
  assumes "insert_v2 R db p = Ok db'" and "pl_v2 p = Some v2"
    and "unat (v2_reserve0 v2) < 2 ^ 112" and "unat (v2_reserve1 v2) < 2 ^ 112"
  shows "get_reserves db' (pl_address p) = Ok (v2_reserve0 v2, v2_reserve1 v2) \<and>
         get_token0 db' (pl_address p) = Ok (pl_token0 p) \<and>
         get_token1 db' (pl_address p) = Ok (pl_token1 p) \<and>
         tracking_pool db' (pl_address p) \<and>
         zero_to_one db' (pl_address p) t = Some (pl_token0 p = t) \<and>
         (\<forall>b k. b \<noteq> pl_address p \<longrightarrow> storage_ref db' b k = storage_ref db b k)"
proof -
  let ?kvs = "[(8, pack_reserves 0 (v2_reserve0 v2) (v2_reserve1 v2)),
               (6, ucast (pl_token0 p)), (7, ucast (pl_token1 p))]"
  from assms(1,2) have w: "sr.put_all (pl_address p) ?kvs (add_pool R db p) = Inr db'"
    by (simp add: insert_v2_eq)
  note r = sr.get_put_all [OF w]
  from put_all_fields [OF w]
  have f: "tracking_pool db' (pl_address p)"
    "zero_to_one db' (pl_address p) t = Some (pl_token0 p = t)"
    by (simp_all add: add_pool_fields tracking_pool_def zero_to_one_def)
  have "get_reserves db' (pl_address p) = Ok (v2_reserve0 v2, v2_reserve1 v2)"
    using unpack_reserves [OF assms(3,4)] by (simp add: get_reserves_eq r)
  moreover have "get_token0 db' (pl_address p) = Ok (pl_token0 p)"
    "get_token1 db' (pl_address p) = Ok (pl_token1 p)"
    by (simp_all add: get_token0_def get_token1_def r ucast_up_down)
  ultimately show ?thesis using f r by (auto simp: add_pool_read_other)
qed

theorem insert_v2_round_trip_witness:
  "\<exists>db'. insert_v2 ex_revm ex_db ex_pool = Ok db' \<and> get_reserves db' 77 = Ok (1000, 2000) \<and>
     get_token0 db' 77 = Ok 10 \<and> get_token1 db' 77 = Ok 20"
proof -
  have "has_account (add_pool ex_revm ex_db ex_pool) 77"
    by (simp add: add_pool_has_account ex_pool_def basic_ref_def ex_defs)
  from sr.put_all_has [OF this]
  obtain db' where i: "insert_v2 ex_revm ex_db ex_pool = Ok db'"
    unfolding insert_v2_eq by (auto simp: ex_pool_def)
  from insert_v2_round_trip [OF i, of "\<lparr>v2_reserve0 = 1000, v2_reserve1 = 2000, v2_stable = None\<rparr>"]
    i show ?thesis by (simp add: ex_pool_def)
qed

text \<open>
  The only way \<^verbatim>\<open>insert_v2\<close> fails is a panic: the pool has no V2 data, or the provider
  could not answer for the account and the cache does not hold it.
\<close>

theorem insert_v2_panics_iff:
  "insert_v2 R db p = Inl e \<longleftrightarrow>
     e = Panic Unwrap_none \<and>
     (pl_v2 p = None \<or>
      db_accounts db (pl_address p) = None \<and>
      basic_ref R db (pl_address p) = err Transport_error)"
proof -
  have br: "(\<exists>info. basic_ref R db a = Inr (Some info)) \<longleftrightarrow> basic_ref R db a \<noteq> err Transport_error" for a
    by (auto simp: basic_ref_def Let_def split: option.splits)
  have missing: "sr.put_all a ((k, v) # kvs) s = panic Unwrap_none" if "\<not> has_account s a"
    for a k v kvs and s :: state_db
    using sr.put_missing [OF that, of k v] by (simp add: sr.put_all_simps)
  show ?thesis
  proof (cases "pl_v2 p")
    case None
    then show ?thesis by (auto simp: insert_v2_eq)
  next
    case (Some v2)
    show ?thesis
    proof (cases "has_account (add_pool R db p) (pl_address p)")
      case True
      from sr.put_all_has [OF this] Some obtain d where "insert_v2 R db p = Inr d"
        unfolding insert_v2_eq by auto
      moreover from True have "has_account db (pl_address p) \<or>
          basic_ref R db (pl_address p) \<noteq> err Transport_error"
        by (simp add: add_pool_has_account br)
      ultimately show ?thesis using Some by (auto simp: has_account_def)
    next
      case False
      from missing [OF this] Some have "insert_v2 R db p = panic Unwrap_none"
        by (simp add: insert_v2_eq)
      moreover from False have "\<not> has_account db (pl_address p)"
          "basic_ref R db (pl_address p) = err Transport_error"
        by (simp_all add: add_pool_has_account br)
      ultimately show ?thesis using Some by (auto simp: has_account_def)
    qed
  qed
qed

text \<open>
  A block trace that reports slot 8 of a cached pool in the contract's own layout, with its
  timestamp, makes \<^verbatim>\<open>get_reserves\<close> return exactly the reserves of the trace.
\<close>

theorem traced_reserves:
  assumes "update_all_slots db a ts = Ok db'" and "has_account db a"
    and "ts_storage ts = Some kvs" and "map_of (rev kvs) 8 = Some (pack_reserves t r0 r1)"
    and "unat r0 < 2 ^ 112" and "unat r1 < 2 ^ 112"
  shows "get_reserves db' a = Ok (r0, r1)"
  using update_all_slots_reads [OF assms(1), of a 8] assms(2-4)
    unpack_reserves [OF assms(5,6)]
  by (simp add: get_reserves_eq traced_read_def)

theorem traced_reserves_witness:
  "\<exists>db'. update_all_slots (add_pool ex_revm ex_db ex_pool) 77
            \<lparr>ts_storage = Some [(8, pack_reserves 9 300 400)]\<rparr> = Ok db' \<and>
         get_reserves db' 77 = Ok (300, 400)"
proof -
  obtain db' where u: "update_all_slots (add_pool ex_revm ex_db ex_pool) 77
      \<lparr>ts_storage = Some [(8, pack_reserves 9 300 400)]\<rparr> = Ok db'"
    by (simp add: update_all_slots_def)
  have "has_account (add_pool ex_revm ex_db ex_pool) 77"
    by (simp add: add_pool_has_account ex_pool_def basic_ref_def ex_defs)
  from traced_reserves [OF u this, of _ 9 300 400] u show ?thesis by simp
qed

end
