(* ===== verification/V3DB.thy ===== *)
theory V3DB
  imports V2DB
begin

text \<open>
  Uniswap V3 pools in the state database (\<^verbatim>\<open>src/state_db/v3_db.rs\<close>). Slot 0 packs the price,
  the tick and the observation fields, slot 4 holds the liquidity and slot 14 the tick
  spacing; the net liquidity of a tick and a word of the tick bitmap live in slots hashed
  from their key and the mapping's offset, 5 or 6.

  \<open>keccak256\<close> is a parameter \<open>kc\<close> on the 64 bytes it is applied to, the key in the high and
  the offset in the low 32 bytes: the concatenation of the two words. Signed keys are
  sign-extended by \<open>I256::try_from\<close>.
\<close>

type_synonym keccak = "512 word \<Rightarrow> 256 word"

definition BITS160MASK :: u256 where "BITS160MASK = push_bit 160 1 - 1"
definition BITS128MASK :: u256 where "BITS128MASK = push_bit 128 1 - 1"
definition BITS24MASK :: u256 where "BITS24MASK = push_bit 24 1 - 1"
definition BITS16MASK :: u256 where "BITS16MASK = push_bit 16 1 - 1"
definition BITS8MASK :: u256 where "BITS8MASK = push_bit 8 1 - 1"
definition BITS1MASK :: u256 where "BITS1MASK = 1"

subsection \<open>Insertions\<close>

definition hashed_slot :: "keccak \<Rightarrow> u256 \<Rightarrow> u256 \<Rightarrow> u256" where
  "hashed_slot kc offset item = kc (word_cat item offset)"

definition insert_tick_bitmap ::
  "keccak \<Rightarrow> state_db \<Rightarrow> address \<Rightarrow> i16 \<Rightarrow> u256 \<Rightarrow> state_db res"
where
  "insert_tick_bitmap kc db pool tick bitmap =
     (let slot = hashed_slot kc 6 (scast tick)
      in insert_slot db pool slot bitmap)"

definition insert_liquidity :: "state_db \<Rightarrow> address \<Rightarrow> u128 \<Rightarrow> state_db res" where
  "insert_liquidity db pool liq = insert_slot db pool 4 (ucast liq)"

definition insert_tick_liquidity_net ::
  "keccak \<Rightarrow> state_db \<Rightarrow> address \<Rightarrow> i32 \<Rightarrow> i128 \<Rightarrow> state_db res"
where
  "insert_tick_liquidity_net kc db pool tick liquidity_net =
     (let slot = hashed_slot kc 5 (scast tick);
          value = push_bit 128 (ucast liquidity_net)
      in insert_slot db pool slot value)"

definition insert_slot0 :: "state_db \<Rightarrow> address \<Rightarrow> u160 \<Rightarrow> i32 \<Rightarrow> state_db res" where
  "insert_slot0 db pool sqrt_price tick =
     (let s0 = ucast sqrt_price
               OR push_bit 160 (ucast tick AND BITS24MASK)
               OR push_bit (160 + 24) 0
               OR push_bit (160 + 24 + 16) 0
               OR push_bit (160 + 24 + 16 + 16) 0
               OR push_bit (160 + 24 + 16 + 16 + 16) (0 AND BITS8MASK)
               OR push_bit (160 + 24 + 16 + 16 + 16 + 8) 1
      in insert_slot db pool 0 s0)"

text \<open>\<open>U256::from\<close> of a negative \<open>i32\<close> panics.\<close>

definition insert_tick_spacing :: "state_db \<Rightarrow> address \<Rightarrow> i32 \<Rightarrow> state_db res" where
  "insert_tick_spacing db pool spacing =
     rbind (unwrap_opt (db_accounts db pool)) (\<lambda>_.
       if sint spacing < 0 then panic Conversion_out_of_range
       else insert_slot db pool 14 (ucast spacing))"

definition insert_v3 :: "keccak \<Rightarrow> revm \<Rightarrow> state_db \<Rightarrow> pool \<Rightarrow> state_db res" where
  "insert_v3 kc R db p =
     (let a = pl_address p;
          db1 = add_pool R db p
      in rbind (unwrap_opt (pl_v3 p)) (\<lambda>v3.
         rbind (uint_to (v3_sqrt_price v3)) (\<lambda>sqrt_price.
         rbind (insert_slot0 db1 a sqrt_price (v3_tick v3)) (\<lambda>db2.
         rbind (insert_liquidity db2 a (v3_liquidity v3)) (\<lambda>db3.
         rbind (insert_tick_spacing db3 a (v3_tick_spacing v3)) (\<lambda>db4.
         rbind (rfold (\<lambda>(tick, net) d. insert_tick_liquidity_net kc d a tick net)
                  (v3_ticks v3) db4) (\<lambda>db5.
         rfold (\<lambda>(word_pos, bitmap) d. insert_tick_bitmap kc d a word_pos bitmap)
           (v3_bitmap v3) db5)))))))"

subsection \<open>Reads\<close>

definition tick_spacing :: "state_db \<Rightarrow> address \<Rightarrow> i32 res" where
  "tick_spacing db a =
     rbind (cached_value db a 14) (\<lambda>data. Ok (saturating_to_signed data))"

record slot0_return =
  s0_sqrt_price :: u160
  s0_tick :: "24 word"
  s0_observation_index :: "16 word"
  s0_observation_cardinality :: "16 word"
  s0_observation_cardinality_next :: "16 word"
  s0_fee_protocol :: u8
  s0_unlocked :: bool

text \<open>\<open>I24::try_from\<close> of an \<open>i32\<close> and \<open>to::<bool>\<close>.\<close>

definition to_i24 :: "i32 \<Rightarrow> 24 word res" where
  "to_i24 t =
     (if - (2 ^ 23) \<le> sint t \<and> sint t < 2 ^ 23 then Ok (ucast t) else err Conversion_failed)"

definition to_bool :: "u256 \<Rightarrow> bool res" where
  "to_bool x =
     (if x = 0 then Ok False else if x = 1 then Ok True else panic Conversion_out_of_range)"

definition slot0_of_cell :: "u256 \<Rightarrow> slot0_return res" where
  "slot0_of_cell cell =
     rbind (uint_to (drop_bit 160 cell AND BITS24MASK)) (\<lambda>raw_tick :: 24 word.
     (let tick = (scast raw_tick :: i32) in
     rbind (uint_to (cell AND BITS160MASK)) (\<lambda>sqrt_price_x_96.
     rbind (to_i24 tick) (\<lambda>tick24.
     rbind (uint_to (drop_bit (160 + 24) cell AND BITS16MASK)) (\<lambda>obs_index.
     rbind (uint_to (drop_bit (160 + 24 + 16) cell AND BITS16MASK)) (\<lambda>obs_card.
     rbind (uint_to (drop_bit (160 + 24 + 16 + 16) cell AND BITS16MASK)) (\<lambda>obs_next.
     rbind (uint_to (drop_bit (160 + 24 + 16 + 16 + 16) cell AND BITS8MASK)) (\<lambda>fee_protocol.
     rbind (to_bool (drop_bit (160 + 24 + 16 + 16 + 16 + 8) cell AND BITS1MASK)) (\<lambda>unlocked.
       Ok \<lparr>s0_sqrt_price = sqrt_price_x_96, s0_tick = tick24,
           s0_observation_index = obs_index, s0_observation_cardinality = obs_card,
           s0_observation_cardinality_next = obs_next, s0_fee_protocol = fee_protocol,
           s0_unlocked = unlocked\<rparr>)))))))))"

definition slot0 :: "state_db \<Rightarrow> address \<Rightarrow> slot0_return res" where
  "slot0 db a = rbind (cached_value db a 0) slot0_of_cell"

definition liquidity :: "state_db \<Rightarrow> address \<Rightarrow> u128 res" where
  "liquidity db a =
     rbind (cached_value db a 4) (\<lambda>cell. Ok (saturating_to_unsigned cell))"

definition read_hashed_slot ::
  "keccak \<Rightarrow> state_db \<Rightarrow> address \<Rightarrow> u256 \<Rightarrow> u256 \<Rightarrow> u256 res"
where
  "read_hashed_slot kc db account hashmap_offset item =
     storage_ref db account (hashed_slot kc hashmap_offset item)"

definition ticks_liquidity_net :: "keccak \<Rightarrow> state_db \<Rightarrow> address \<Rightarrow> i32 \<Rightarrow> i128 res" where
  "ticks_liquidity_net kc db a tick =
     rbind (read_hashed_slot kc db a 5 (scast tick)) (\<lambda>cell. uint_to (drop_bit 128 cell))"

definition tick_bitmap :: "keccak \<Rightarrow> state_db \<Rightarrow> address \<Rightarrow> i16 \<Rightarrow> u256 res" where
  "tick_bitmap kc db a tick = read_hashed_slot kc db a 6 (scast tick)"

subsection \<open>The layout of slot 0\<close>

lemma masks:
  "BITS160MASK = mask 160" "BITS128MASK = mask 128" "BITS24MASK = mask 24"
  "BITS16MASK = mask 16" "BITS8MASK = mask 8"
  by (simp_all add: BITS160MASK_def BITS128MASK_def BITS24MASK_def BITS16MASK_def
      BITS8MASK_def mask_eq_exp_minus_1)

text \<open>The word the contract keeps, for any contents.\<close>

definition pack_slot0 :: "slot0_return \<Rightarrow> u256" where
  "pack_slot0 s =
     ucast (s0_sqrt_price s)
     OR push_bit 160 (ucast (s0_tick s))
     OR push_bit 184 (ucast (s0_observation_index s))
     OR push_bit 200 (ucast (s0_observation_cardinality s))
     OR push_bit 216 (ucast (s0_observation_cardinality_next s))
     OR push_bit 232 (ucast (s0_fee_protocol s))
     OR push_bit 240 (of_bool (s0_unlocked s))"

lemma to_i24_scast: "to_i24 (scast t) = Ok t"
proof -
  have s: "sint (scast t :: i32) = sint t" by (rule sint_up_scast) (simp add: is_up)
  have "(ucast (scast t :: i32) :: 24 word) = t"
    by (rule bit_word_eqI) (simp add: bit_simps)
  moreover have "- (2 ^ 23) \<le> sint t" "sint t < 2 ^ 23"
    using sint_greater_eq [of t] sint_lt [of t] by simp_all
  ultimately show ?thesis by (simp add: to_i24_def s)
qed

lemma pack_slot0_fields:
  fixes s defines "c \<equiv> pack_slot0 s"
  shows "(ucast (take_bit 160 c) :: u160) = s0_sqrt_price s"
    and "(ucast (take_bit 24 (drop_bit 160 c)) :: 24 word) = s0_tick s"
    and "(ucast (take_bit 16 (drop_bit 184 c)) :: 16 word) = s0_observation_index s"
    and "(ucast (take_bit 16 (drop_bit 200 c)) :: 16 word) = s0_observation_cardinality s"
    and "(ucast (take_bit 16 (drop_bit 216 c)) :: 16 word) = s0_observation_cardinality_next s"
    and "(ucast (take_bit 8 (drop_bit 232 c)) :: u8) = s0_fee_protocol s"
    and "drop_bit 240 c AND 1 = of_bool (s0_unlocked s)"
  unfolding c_def pack_slot0_def
  by (rule bit_word_eqI, auto simp: bit_simps bit_of_bool_iff bit_1_iff dest: bit_imp_le_length; fail)+

text \<open>Decoding the contract's layout gives back every field; no conversion panics.\<close>

lemma slot0_of_pack: "slot0_of_cell (pack_slot0 s) = Ok s"
  using pack_slot0_fields [of s]
  by (simp add: slot0_of_cell_def masks BITS1MASK_def take_bit_eq_mask [symmetric] uint_to_take_bit
      to_i24_scast to_bool_def)

lemma insert_slot0_eq:
  "insert_slot0 db a sqrt_price tick =
     insert_slot db a 0 (pack_slot0
       \<lparr>s0_sqrt_price = sqrt_price, s0_tick = ucast tick, s0_observation_index = 0,
        s0_observation_cardinality = 0, s0_observation_cardinality_next = 0,
        s0_fee_protocol = 0, s0_unlocked = True\<rparr>)"
proof -
  have "ucast tick AND BITS24MASK = (ucast (ucast tick :: 24 word) :: u256)"
    by (rule bit_word_eqI) (auto simp: masks bit_simps)
  then show ?thesis
    by (simp add: insert_slot0_def pack_slot0_def Let_def)
qed

subsection \<open>A pool after its insertion\<close>

text \<open>The slots \<^verbatim>\<open>insert_v3\<close> writes, in order.\<close>

definition v3_slots :: "keccak \<Rightarrow> u160 \<Rightarrow> v3_pool \<Rightarrow> (u256 \<times> u256) list" where
  "v3_slots kc sqrt_price v3 =
     [(0, pack_slot0
            \<lparr>s0_sqrt_price = sqrt_price, s0_tick = ucast (v3_tick v3),
             s0_observation_index = 0, s0_observation_cardinality = 0,
             s0_observation_cardinality_next = 0, s0_fee_protocol = 0, s0_unlocked = True\<rparr>),
      (4, ucast (v3_liquidity v3)),
      (14, ucast (v3_tick_spacing v3))] @
     map (\<lambda>(t, net). (hashed_slot kc 5 (scast t), push_bit 128 (ucast net))) (v3_ticks v3) @
     map (\<lambda>(w, bm). (hashed_slot kc 6 (scast w), bm)) (v3_bitmap v3)"

lemma put_all_append:
  "sr.put_all a (xs @ ys) db = rbind (sr.put_all a xs db) (sr.put_all a ys)"
  by (simp add: sr.put_all_def rfold_append)

lemma insert_ticks_eq:
  "rfold (\<lambda>(tick, net) d. insert_tick_liquidity_net kc d a tick net) ts =
     sr.put_all a (map (\<lambda>(t, net). (hashed_slot kc 5 (scast t), push_bit 128 (ucast net))) ts)"
  by (simp add: sr.put_all_def rfold_map insert_tick_liquidity_net_def case_prod_unfold)

lemma insert_bitmap_eq:
  "rfold (\<lambda>(w, bm) d. insert_tick_bitmap kc d a w bm) ws =
     sr.put_all a (map (\<lambda>(w, bm). (hashed_slot kc 6 (scast w), bm)) ws)"
  by (simp add: sr.put_all_def rfold_map insert_tick_bitmap_def case_prod_unfold)

lemma insert_tick_spacing_Inr:
  "insert_tick_spacing db a ts = Inr db' \<longleftrightarrow>
     0 \<le> sint ts \<and> insert_slot db a 14 (ucast ts) = Inr db'"
  by (auto simp: insert_tick_spacing_def insert_slot_def rbind_eq_Inr)

lemma insert_v3_slots:
  assumes "insert_v3 kc R db p = Ok db'" and "pl_v3 p = Some v3"
  obtains sqrt_price where "uint_to (v3_sqrt_price v3) = Ok sqrt_price"
    and "0 \<le> sint (v3_tick_spacing v3)"
    and "sr.put_all (pl_address p) (v3_slots kc sqrt_price v3) (add_pool R db p) = Inr db'"
  using assms that
  by (auto simp: insert_v3_def Let_def rbind_eq_Inr insert_slot0_eq insert_liquidity_def
      insert_tick_spacing_Inr insert_ticks_eq insert_bitmap_eq v3_slots_def put_all_append
      sr.put_all_simps)

text \<open>
  What is asked of the hash: on the keys of this pool it does not collide, neither between
  two keys nor with the plain slots 0, 4 and 14.
\<close>

definition hash_keys :: "v3_pool \<Rightarrow> 512 word list" where
  "hash_keys v3 =
     map (\<lambda>(t, net). word_cat (scast t :: u256) (5 :: u256)) (v3_ticks v3) @
     map (\<lambda>(w, bm). word_cat (scast w :: u256) (6 :: u256)) (v3_bitmap v3)"

definition no_collision :: "keccak \<Rightarrow> v3_pool \<Rightarrow> bool" where
  "no_collision kc v3 \<longleftrightarrow> distinct (map kc (hash_keys v3)) \<and>
     (\<forall>k \<in> set (hash_keys v3). kc k \<noteq> 0 \<and> kc k \<noteq> 4 \<and> kc k \<noteq> 14)"

lemma v3_slots_keys:
  "map fst (v3_slots kc sp v3) = [0, 4, 14] @ map kc (hash_keys v3)"
  by (simp add: v3_slots_def hash_keys_def hashed_slot_def case_prod_unfold comp_def)

lemma v3_slots_distinct: "no_collision kc v3 \<Longrightarrow> distinct (map fst (v3_slots kc sp v3))"
  by (auto simp: v3_slots_keys no_collision_def)

lemma net_of_cell: "uint_to (drop_bit 128 (push_bit 128 (ucast net :: u256))) = Ok (net :: i128)"
proof -
  have d: "drop_bit 128 (push_bit 128 (ucast net :: u256)) = ucast net"
    by (rule bit_word_eqI) (auto simp: bit_simps dest: bit_imp_le_length)
  show ?thesis
    using unat_less_width [of net] unfolding d
    by (simp add: uint_to_def unat_ucast_up ucast_up_down)
qed

lemma tick24_sint:
  assumes "- (2 ^ 23) \<le> sint t" and "sint t < 2 ^ 23"
  shows "sint (ucast (t :: i32) :: 24 word) = sint t"
proof -
  have "(ucast t :: 24 word) = scast t"
    by (rule bit_word_eqI) (auto simp: bit_simps)
  then have "sint (ucast t :: 24 word) = signed_take_bit 23 (sint t)"
    by (simp add: signed_scast_eq)
  with assms show ?thesis by (simp add: signed_take_bit_int_eq_self_iff)
qed

text \<open>
  C18: A V3 pool inserted successfully reads back exactly, whatever its tick tables hold, as long
  as the hash does not collide on its keys: price, tick, lock and the zeroed observation
  fields of slot 0, the liquidity, the tick spacing, the net liquidity of every tick and
  every word of the bitmap. Other accounts keep their slots.
\<close>

theorem insert_v3_round_trip:
  assumes "insert_v3 kc R db p = Ok db'" and "pl_v3 p = Some v3" and "no_collision kc v3"
    and "- (2 ^ 23) \<le> sint (v3_tick v3)" and "sint (v3_tick v3) < 2 ^ 23"
  shows "(\<exists>s. slot0 db' (pl_address p) = Ok s \<and>
            ucast (s0_sqrt_price s) = v3_sqrt_price v3 \<and>
            sint (s0_tick s) = sint (v3_tick v3) \<and> s0_unlocked s \<and>
            s0_observation_index s = 0 \<and> s0_fee_protocol s = 0) \<and>
         liquidity db' (pl_address p) = Ok (v3_liquidity v3) \<and>
         tick_spacing db' (pl_address p) = Ok (v3_tick_spacing v3) \<and>
         (\<forall>(t, net) \<in> set (v3_ticks v3). ticks_liquidity_net kc db' (pl_address p) t = Ok net) \<and>
         (\<forall>(w, bm) \<in> set (v3_bitmap v3). tick_bitmap kc db' (pl_address p) w = Ok bm) \<and>
         (\<forall>b k. b \<noteq> pl_address p \<longrightarrow> storage_ref db' b k = storage_ref db b k)"
proof -
  let ?a = "pl_address p"
  obtain sp where sp: "uint_to (v3_sqrt_price v3) = Ok sp" and ts: "0 \<le> sint (v3_tick_spacing v3)"
    and w: "sr.put_all ?a (v3_slots kc sp v3) (add_pool R db p) = Inr db'"
    by (rule insert_v3_slots [OF assms(1,2)])
  note d = v3_slots_distinct [OF assms(3), of sp]
  note c = cv.get_put_all_distinct [OF w d] and r = sr.get_put_all_distinct [OF w d]
  have price: "ucast sp = v3_sqrt_price v3"
    using sp by (auto simp: uint_to_def word_unat_eq_iff unat_ucast_up unsigned_ucast_eq
        take_bit_nat_eq_self split: if_splits)
  let ?s = "\<lparr>s0_sqrt_price = sp, s0_tick = ucast (v3_tick v3), s0_observation_index = 0,
             s0_observation_cardinality = 0, s0_observation_cardinality_next = 0,
             s0_fee_protocol = 0, s0_unlocked = True\<rparr>"
  have "slot0 db' ?a = Ok ?s"
    using c [of 0 "pack_slot0 ?s"] by (simp add: slot0_def v3_slots_def slot0_of_pack)
  moreover have "liquidity db' ?a = Ok (v3_liquidity v3)"
    using c [of 4 "ucast (v3_liquidity v3)"]
    by (simp add: liquidity_def v3_slots_def saturating_unsigned_ucast)
  moreover have "tick_spacing db' ?a = Ok (v3_tick_spacing v3)"
    using c [of 14 "ucast (v3_tick_spacing v3)"] ts
    by (simp add: tick_spacing_def v3_slots_def saturating_signed_ucast)
  moreover have "ticks_liquidity_net kc db' ?a t = Ok net" if "(t, net) \<in> set (v3_ticks v3)" for t net
    using r [of "hashed_slot kc 5 (scast t)" "push_bit 128 (ucast net)"] that
    by (force simp: ticks_liquidity_net_def read_hashed_slot_def v3_slots_def net_of_cell)
  moreover have "tick_bitmap kc db' ?a x = Ok bm" if "(x, bm) \<in> set (v3_bitmap v3)" for x bm
    using r [of "hashed_slot kc 6 (scast x)" bm] that
    by (force simp: tick_bitmap_def read_hashed_slot_def v3_slots_def)
  moreover have "storage_ref db' b k = storage_ref db b k" if "b \<noteq> ?a" for b k
    using sr.get_put_all [OF w, of b k] that by (simp add: add_pool_read_other)
  ultimately show ?thesis using price tick24_sint [OF assms(4,5)] by auto
qed

text \<open>A pool with a negative tick, two ticks and a bitmap word, and a hash for its keys.\<close>

definition ex_v3 :: v3_pool where
  "ex_v3 = \<lparr>v3_sqrt_price = 5000, v3_tick = -60, v3_liquidity = 900, v3_tick_spacing = 60,
            v3_fee = 500, v3_ticks = [(-120, -7), (60, 7)], v3_bitmap = [(-1, 12)]\<rparr>"

definition ex_keccak :: keccak where
  "ex_keccak k = ucast (k AND 7) + ucast (drop_bit 256 k) * 8 + 10000"

definition ex_v3_pool :: pool where
  "ex_v3_pool = ex_pool\<lparr>pl_v3 := Some ex_v3, pl_type := UniswapV3, pl_is_v2 := False, pl_is_v3 := True\<rparr>"

lemma ex_no_collision: "no_collision ex_keccak ex_v3"
  by code_simp

lemma ex_insert_v3: "\<exists>db'. insert_v3 ex_keccak ex_revm ex_db ex_v3_pool = Ok db'"
proof -
  have h: "has_account (add_pool ex_revm ex_db ex_v3_pool) 77"
    by (simp add: add_pool_has_account ex_v3_pool_def ex_pool_def basic_ref_def ex_defs)
  have sp: "uint_to (v3_sqrt_price ex_v3) = Ok (5000 :: u160)"
    by (simp add: uint_to_def ex_v3_def)
  from sr.put_all_has [OF h, of "v3_slots ex_keccak 5000 ex_v3"] sp show ?thesis
    by (auto simp: insert_v3_def Let_def rbind_eq_Inr insert_slot0_eq insert_liquidity_def
      insert_tick_spacing_Inr insert_ticks_eq insert_bitmap_eq v3_slots_def put_all_append
      sr.put_all_simps ex_v3_pool_def ex_pool_def ex_v3_def)
qed

theorem insert_v3_round_trip_witness:
  "\<exists>db' s. insert_v3 ex_keccak ex_revm ex_db ex_v3_pool = Ok db' \<and> slot0 db' 77 = Ok s \<and>
     sint (s0_tick s) = -60 \<and> ticks_liquidity_net ex_keccak db' 77 (-120) = Ok (-7) \<and>
     tick_bitmap ex_keccak db' 77 (-1) = Ok 12"
proof -
  obtain db' where i: "insert_v3 ex_keccak ex_revm ex_db ex_v3_pool = Ok db'"
    using ex_insert_v3 by auto
  have p: "pl_v3 ex_v3_pool = Some ex_v3" "pl_address ex_v3_pool = 77"
    by (simp_all add: ex_v3_pool_def ex_pool_def)
  have t: "sint (v3_tick ex_v3) = -60" by (simp add: ex_v3_def)
  from insert_v3_round_trip [OF i p(1) ex_no_collision] p(2) t i show ?thesis
    by (auto simp: ex_v3_def)
qed

lemma update_slots_put_all:
  "has_account db a \<Longrightarrow> sr.put_all a kvs db = Inr (fold (update_slot a) kvs db)"
proof (induction kvs arbitrary: db)
  case Nil
  then show ?case by (simp add: sr.put_all_simps)
next
  case (Cons kv kvs)
  then obtain acc where acc: "db_accounts db a = Some acc" by (auto simp: has_account_def)
  then have "insert_slot db a (fst kv) (snd kv) = Inr (update_slot a kv db)"
    by (simp add: insert_slot_has update_slot_def)
  moreover have "has_account (update_slot a kv db) a"
    using acc by (simp add: update_slot_def has_account_def)
  ultimately show ?case using Cons.IH by (cases kv) (simp add: sr.put_all_simps)
qed

text \<open>
  A block trace that reports slot 0 of a cached pool in the contract's layout makes
  \<^verbatim>\<open>slot0\<close> return exactly the contents of the trace, every field of it.
\<close>

theorem traced_slot0:
  assumes "update_all_slots db a ts = Ok db'" and "has_account db a"
    and "ts_storage ts = Some kvs" and "map_of (rev kvs) 0 = Some (pack_slot0 s)"
  shows "slot0 db' a = Ok s"
proof -
  from assms(1-3) have "sr.put_all a kvs db = Inr db'"
    by (simp add: update_all_slots_def update_slots_put_all)
  from cv.get_put_all [OF this, of a 0] assms(4) show ?thesis
    by (simp add: slot0_def slot0_of_pack)
qed

theorem traced_slot0_witness:
  "\<exists>db'. update_all_slots (add_pool ex_revm ex_db ex_pool) 77
            \<lparr>ts_storage = Some [(0, pack_slot0 \<lparr>s0_sqrt_price = 99, s0_tick = -3,
               s0_observation_index = 4, s0_observation_cardinality = 5,
               s0_observation_cardinality_next = 6, s0_fee_protocol = 7, s0_unlocked = False\<rparr>)]\<rparr>
           = Ok db' \<and>
         (\<exists>s. slot0 db' 77 = Ok s \<and> s0_tick s = -3 \<and> \<not> s0_unlocked s)"
proof -
  let ?s = "\<lparr>s0_sqrt_price = 99, s0_tick = -3,
               s0_observation_index = 4, s0_observation_cardinality = 5,
               s0_observation_cardinality_next = 6, s0_fee_protocol = 7, s0_unlocked = False\<rparr>"
  obtain db' where u: "update_all_slots (add_pool ex_revm ex_db ex_pool) 77
      \<lparr>ts_storage = Some [(0, pack_slot0 ?s)]\<rparr> = Ok db'"
    by (simp add: update_all_slots_def)
  have "has_account (add_pool ex_revm ex_db ex_pool) 77"
    by (simp add: add_pool_has_account ex_pool_def basic_ref_def ex_defs)
  from traced_slot0 [OF u this, of _ ?s] u show ?thesis by simp
qed

end
