(* ===== verification/Uniswap.thy ===== *)
theory Uniswap
  imports V3DB
begin

text \<open>
  The Uniswap V2 and V3 output calculations (\<^verbatim>\<open>src/calculation/uniswap.rs\<close>). The V3 loop
  calls the crate \<^verbatim>\<open>uniswap_v3_math\<close>, a parameter record \<open>v3_math\<close> here; what the
  termination argument needs of it is the predicate \<open>v3_math_laws\<close>.
\<close>

subsection \<open>Uniswap V2\<close>

definition uniswap_v2_out ::
  "state_db \<Rightarrow> u256 \<Rightarrow> address \<Rightarrow> address \<Rightarrow> u256 \<Rightarrow> u256 res"
where
  "uniswap_v2_out db amount_in pool_address token_in fee =
     rbind (unwrap_opt (zero_to_one db pool_address token_in)) (\<lambda>zto.
     rbind (get_reserves db pool_address) (\<lambda>(reserve0, reserve1).
       let scalar = 10000;
           (reserve0, reserve1) = (if zto then (reserve0, reserve1) else (reserve1, reserve0));
           amount_in_with_fee = amount_in * fee;
           numerator = amount_in_with_fee * reserve1;
           denominator = reserve0 * scalar + amount_in_with_fee
       in udiv numerator denominator))"

text \<open>The constant-product formula on the natural numbers.\<close>

definition v2_spec :: "nat \<Rightarrow> nat \<Rightarrow> nat \<Rightarrow> nat \<Rightarrow> nat" where
  "v2_spec x fee rin rout = x * fee * rout div (rin * 10000 + x * fee)"

lemma v2_spec_le: "v2_spec x fee rin rout \<le> rout"
proof (cases "rin * 10000 + x * fee = 0")
  case False
  then have "x * fee * rout div (rin * 10000 + x * fee) \<le>
      (rin * 10000 + x * fee) * rout div (rin * 10000 + x * fee)"
    by (intro div_le_mono mult_right_mono) auto
  with False show ?thesis
    using nonzero_mult_div_cancel_left [OF False, of rout] by (simp add: v2_spec_def)
qed (simp add: v2_spec_def)

lemma v2_spec_less: "0 < rin \<Longrightarrow> 0 < rout \<Longrightarrow> v2_spec x fee rin rout < rout"
  by (simp add: v2_spec_def div_less_iff_less_mult algebra_simps)

lemma v2_spec_product:
  assumes "fee \<le> 10000"
  shows "rin * rout \<le> (rin + x) * (rout - v2_spec x fee rin rout)"
proof -
  let ?o = "v2_spec x fee rin rout" and ?d = "rin * 10000 + x * fee"
  have o: "?o \<le> rout" by (rule v2_spec_le)
  have "?o * ?d \<le> x * fee * rout" unfolding v2_spec_def by (rule div_times_less_eq_dividend)
  then have "rin * 10000 * rout \<le> ?d * rout - ?o * ?d" by (simp add: algebra_simps)
  also have "\<dots> = ?d * (rout - ?o)" by (simp only: diff_mult_distrib2 mult.commute [of _ ?d])
  also have "\<dots> \<le> ((rin + x) * 10000) * (rout - ?o)"
    using assms by (intro mult_right_mono) (simp_all add: algebra_simps)
  finally have "10000 * (rin * rout) \<le> 10000 * ((rin + x) * (rout - ?o))"
    by (simp only: ac_simps)
  then show ?thesis by simp
qed

lemma v2_spec_mono:
  assumes "x \<le> y"
  shows "v2_spec x fee rin rout \<le> v2_spec y fee rin rout"
proof (cases "rin * 10000 + x * fee = 0")
  case True
  show ?thesis unfolding v2_spec_def [of x] True by simp
next
  case False
  let ?a = "x * fee" and ?b = "y * fee" and ?r = "rin * 10000"
  have ab: "?a \<le> ?b" using assms by simp
  then have pos: "0 < ?r + ?a" "0 < ?r + ?b" using False by auto
  have "v2_spec x fee rin rout * (?r + ?b) * (?r + ?a) = (v2_spec x fee rin rout * (?r + ?a)) * (?r + ?b)"
    by (simp only: ac_simps)
  also have "\<dots> \<le> (?a * rout) * (?r + ?b)"
    unfolding v2_spec_def by (intro mult_right_mono div_times_less_eq_dividend) simp
  also have "\<dots> = ?a * ?r * rout + ?a * ?b * rout"
    by (simp only: distrib_left ac_simps)
  also have "\<dots> \<le> ?b * ?r * rout + ?a * ?b * rout"
    using assms by (intro add_right_mono mult_right_mono) simp_all
  also have "\<dots> = (?b * rout) * (?r + ?a)"
    by (simp only: distrib_left ac_simps)
  finally have "v2_spec x fee rin rout * (?r + ?b) \<le> ?b * rout"
    using pos(1) by (simp only: mult_le_cancel2)
  then show ?thesis
    using pos(2) by (simp add: v2_spec_def [of y] less_eq_div_iff_mult_less_eq)
qed

lemma get_reserves_bounds:
  "get_reserves db a = Inr (r0, r1) \<Longrightarrow> unat r0 < 2 ^ 112 \<and> unat r1 < 2 ^ 112"
  using unat_take_bit_bound [of 112] unfolding get_reserves_eq rbind_eq_Inr by blast

lemma v2_amounts_exact:
  fixes x f rin rout :: u256
  assumes "unat x < 2 ^ 128" "unat f \<le> 10000" "unat rin < 2 ^ 112" "unat rout < 2 ^ 112"
  shows "unat (x * f * rout) = unat x * unat f * unat rout"
    and "unat (rin * 10000 + x * f) = unat rin * 10000 + unat x * unat f"
proof -
  have a: "unat x * unat f < 2 ^ 128 * 10001" using assms(1,2) by (intro mult_lt_bounds) simp_all
  have b: "unat x * unat f * unat rout < 2 ^ 128 * 10001 * 2 ^ 112"
    by (rule mult_lt_bounds [OF a assms(4)])
  have c: "unat rin * 10000 < 2 ^ 112 * 10001" using assms(3) by simp
  have xf: "unat (x * f) = unat x * unat f" by (rule unat_mul_exact) (use a in simp)
  show "unat (x * f * rout) = unat x * unat f * unat rout"
    by (subst unat_mul_exact) (use b xf in simp_all)
  have rs: "unat (rin * 10000) = unat rin * 10000"
    by (subst unat_mul_exact) (use c in simp_all)
  show "unat (rin * 10000 + x * f) = unat rin * 10000 + unat x * unat f"
    by (subst unat_add_exact) (use a c xf rs in simp_all)
qed

lemma uniswap_v2_out_spec:
  assumes "zero_to_one db a t = Some z" and "get_reserves db a = Ok (r0, r1)"
    and "unat x < 2 ^ 128" and "unat f \<le> 10000"
    and "rin = (if z then r0 else r1)" and "rout = (if z then r1 else r0)"
  shows "uniswap_v2_out db x a t f =
     (if unat rin * 10000 + unat x * unat f = 0 then panic Div_by_zero
      else Ok (of_nat (v2_spec (unat x) (unat f) (unat rin) (unat rout))))"
proof -
  have b: "unat rin < 2 ^ 112" "unat rout < 2 ^ 112"
    using get_reserves_bounds [OF assms(2)] assms(5,6) by auto
  note e = v2_amounts_exact [OF assms(3,4) b]
  have u: "uniswap_v2_out db x a t f = udiv (x * f * rout) (rin * 10000 + x * f)"
    using assms by (simp add: uniswap_v2_out_def Let_def)
  have z: "rin * 10000 + x * f = 0 \<longleftrightarrow> unat rin * 10000 + unat x * unat f = 0"
    using e(2) unat_eq_zero by metis
  have q: "unat (x * f * rout div (rin * 10000 + x * f)) =
      v2_spec (unat x) (unat f) (unat rin) (unat rout)"
    by (simp only: unat_div_exact e v2_spec_def)
  have "x * f * rout div (rin * 10000 + x * f) =
      of_nat (v2_spec (unat x) (unat f) (unat rin) (unat rout))"
    unfolding q [symmetric] by simp
  with u z show ?thesis by (auto simp: udiv_def)
qed

text \<open>
  C21: For amounts below \<open>2^128\<close> and a fee factor of at most 10000 the word arithmetic of
  \<^verbatim>\<open>uniswap_v2_out\<close> never wraps: the output is the constant-product formula, rounded
  down, on the reserves oriented by the token that goes in, and it panics exactly when the
  formula divides by zero. It never pays out more than the reserve, all of it only from a
  pool whose other side is empty, and the product of the reserves does not decrease.
\<close>

theorem uniswap_v2_out_exact:
  assumes "zero_to_one db a t = Some z" and "get_reserves db a = Ok (r0, r1)"
    and "unat x < 2 ^ 128" and "unat f \<le> 10000"
    and "rin = (if z then r0 else r1)" and "rout = (if z then r1 else r0)"
  shows "(case uniswap_v2_out db x a t f of
            Inl e \<Rightarrow> e = Panic Div_by_zero \<and> rin = 0 \<and> (x = 0 \<or> f = 0)
          | Inr out \<Rightarrow>
              unat out = unat x * unat f * unat rout div (unat rin * 10000 + unat x * unat f) \<and>
              out \<le> rout \<and> (0 < rin \<and> 0 < rout \<longrightarrow> out < rout) \<and>
              unat rin * unat rout \<le> (unat rin + unat x) * (unat rout - unat out))"
proof -
  let ?v = "v2_spec (unat x) (unat f) (unat rin) (unat rout)"
  have "?v < 2 ^ 256"
    using v2_spec_le [of "unat x" "unat f" "unat rin" "unat rout"] unat_less_width [of rout] by simp
  then have n: "unat (of_nat ?v :: u256) = ?v"
    by (simp add: unsigned_of_nat take_bit_nat_eq_self)
  have z: "unat rin * 10000 + unat x * unat f = 0 \<longleftrightarrow> rin = 0 \<and> (x = 0 \<or> f = 0)"
    by (simp add: unsigned_eq_0_iff)
  show ?thesis
  proof (cases "unat rin * 10000 + unat x * unat f = 0")
    case True
    then show ?thesis using z uniswap_v2_out_spec [OF assms] by simp
  next
    case False
    moreover have "0 < rin \<and> 0 < rout \<longrightarrow> ?v < unat rout"
      using v2_spec_less by (simp add: word_less_nat_alt)
    ultimately show ?thesis
      using uniswap_v2_out_spec [OF assms] n v2_spec_le v2_spec_product [OF assms(4)]
      by (simp add: word_le_nat_alt word_less_nat_alt v2_spec_def [symmetric] unsigned_eq_0_iff)
  qed
qed

text \<open>A larger input never buys less from the same pool.\<close>

theorem uniswap_v2_out_mono:
  assumes "uniswap_v2_out db x a t f = Ok out" and "uniswap_v2_out db y a t f = Ok out'"
    and "x \<le> y" and "unat y < 2 ^ 128" and "unat f \<le> 10000"
  shows "out \<le> out'"
proof -
  from assms(1) obtain z r0 r1 where
    zr: "zero_to_one db a t = Some z" "get_reserves db a = Ok (r0, r1)"
    by (auto simp: uniswap_v2_out_def rbind_eq_Inr)
  have xy: "unat x \<le> unat y" using assms(3) by (simp add: word_le_nat_alt)
  then have x128: "unat x < 2 ^ 128" using assms(4) by simp
  note sx = uniswap_v2_out_spec [OF zr x128 assms(5) refl refl]
    and sy = uniswap_v2_out_spec [OF zr assms(4,5) refl refl]
  let ?i = "if z then r0 else r1" and ?o = "if z then r1 else r0"
  have lt: "v2_spec n (unat f) (unat ?i) (unat ?o) < 2 ^ 256" for n
    using v2_spec_le [of n "unat f" "unat ?i" "unat ?o"] unat_less_width [of ?o] by simp
  have "out = of_nat (v2_spec (unat x) (unat f) (unat ?i) (unat ?o))"
    "out' = of_nat (v2_spec (unat y) (unat f) (unat ?i) (unat ?o))"
    using assms(1,2) sx sy by (simp_all split: if_splits)
  moreover note v2_spec_mono [OF xy, of "unat f" "unat ?i" "unat ?o"] lt
  ultimately show ?thesis
    by (simp add: word_le_nat_alt unsigned_of_nat take_bit_nat_eq_self)
qed

text \<open>A pool of 1000000 and 2000000 units, in the contract's slots.\<close>

definition ex_v2_db :: state_db where
  "ex_v2_db = ex_with ex_pool [(8, 2000000 * 2 ^ 112 + 1000000), (6, 10), (7, 20)]"

lemma ex_v2_db_reads:
  "zero_to_one ex_v2_db 77 10 = Some True" "zero_to_one ex_v2_db 77 20 = Some False"
  "get_reserves ex_v2_db 77 = Ok (1000000, 2000000)"
  using ex_with_reads [of ex_pool]
  by (simp_all add: ex_v2_db_def zero_to_one_def get_reserves_eq ex_pool_def)

theorem uniswap_v2_out_exact_witness:
  "uniswap_v2_out ex_v2_db 5000 77 10 9970 = Ok 9920 \<and>
   (1000000 :: nat) * 2000000 \<le> (1000000 + 5000) * (2000000 - 9920)"
  using uniswap_v2_out_exact [OF ex_v2_db_reads(1,3), of 5000 9970 1000000 2000000]
  by (simp add: uniswap_v2_out_def ex_v2_db_reads udiv_def Let_def)

theorem uniswap_v2_out_mono_witness:
  "uniswap_v2_out ex_v2_db 5000 77 20 9975 = Ok 2487 \<and> (2487 :: u256) \<le> 4975"
proof -
  have "uniswap_v2_out ex_v2_db 5000 77 20 9975 = Ok 2487"
    "uniswap_v2_out ex_v2_db 10000 77 20 9975 = Ok 4962"
    by (simp_all add: uniswap_v2_out_def ex_v2_db_reads udiv_def Let_def)
  with uniswap_v2_out_mono [OF this] show ?thesis by simp
qed

subsection \<open>Uniswap V3: the external library\<close>

text \<open>
  \<^verbatim>\<open>uniswap_v3_math\<close>: \<open>next_initialized_tick_within_one_word\<close>, \<open>get_sqrt_ratio_at_tick\<close>,
  \<open>compute_swap_step\<close>, \<open>get_tick_at_sqrt_ratio\<close> and its four constants.
\<close>

record v3_math =
  vm_next_tick :: "(i16 \<Rightarrow> u256 option) \<Rightarrow> i32 \<Rightarrow> i32 \<Rightarrow> bool \<Rightarrow> (i32 \<times> bool) res"
  vm_ratio_at_tick :: "i32 \<Rightarrow> u256 res"
  vm_swap_step :: "u256 \<Rightarrow> u256 \<Rightarrow> u128 \<Rightarrow> i256 \<Rightarrow> u32 \<Rightarrow> (u256 \<times> u256 \<times> u256 \<times> u256) res"
  vm_tick_at_ratio :: "u256 \<Rightarrow> i32 res"
  vm_min_tick :: i32
  vm_max_tick :: i32
  vm_min_ratio :: u256
  vm_max_ratio :: u256

subsection \<open>Uniswap V3: the swap loop\<close>

record current_state =
  cs_remaining :: i256
  cs_calculated :: i256
  cs_price :: u256
  cs_tick :: i32
  cs_liquidity :: u128

definition position :: "i32 \<Rightarrow> i16 \<times> u8" where
  "position tick = (ucast (signed_drop_bit 8 tick), ucast (word_of_int (sint tick smod 256) :: i32))"

text \<open>The inclusive range of \<open>i16\<close>; it is empty when the upper end wrapped.\<close>

definition word_range :: "i16 \<Rightarrow> i16 \<Rightarrow> i16 list" where
  "word_range lo hi = map word_of_int [sint lo..sint hi]"

definition load_window ::
  "keccak \<Rightarrow> state_db \<Rightarrow> address \<Rightarrow> i16 \<Rightarrow> (i16 \<Rightarrow> u256 option) res"
where
  "load_window kc db pool word_pos =
     rfold (\<lambda>i m. rbind (or_default (tick_bitmap kc db pool i) 0) (\<lambda>bm. Ok (m(i \<mapsto> bm))))
       (word_range (word_pos - 1) (word_pos + 1)) Map.empty"

definition clamp_tick :: "i32 \<Rightarrow> i32 \<Rightarrow> i32 \<Rightarrow> i32" where
  "clamp_tick lo hi t = (if sint t < sint lo then lo else if sint hi < sint t then hi else t)"

definition swap_target :: "bool \<Rightarrow> u256 \<Rightarrow> u256 \<Rightarrow> u256" where
  "swap_target zto limit next =
     (if zto then (if next < limit then limit else next)
      else if next > limit then limit else next)"

text \<open>The liquidity after crossing an initialized tick; \<open>-net\<close> wraps on \<open>i128::MIN\<close>.\<close>

definition cross_liquidity :: "bool \<Rightarrow> u128 \<Rightarrow> i128 \<Rightarrow> u128 res" where
  "cross_liquidity zto liq net =
     (let net = (if zto then - net else net)
      in if sint net < 0
         then (case checked_sub liq (- net) of
                 Some l \<Rightarrow> Ok l | None \<Rightarrow> err Insufficient_liquidity)
         else (case checked_add liq net of
                 Some l \<Rightarrow> Ok l | None \<Rightarrow> err Liquidity_overflow))"

text \<open>The end of an iteration: the amounts, the price, then tick and liquidity.\<close>

definition v3_advance ::
  "v3_math \<Rightarrow> keccak \<Rightarrow> state_db \<Rightarrow> address \<Rightarrow> bool \<Rightarrow> i32 \<Rightarrow> bool \<Rightarrow> u256 \<Rightarrow>
     u256 \<times> u256 \<times> u256 \<times> u256 \<Rightarrow> current_state \<Rightarrow> current_state res"
where
  "v3_advance M kc db pool zto tick_next initialized price_next step s =
     (let (price, amount_in, amount_out, fee_amount) = step;
          s1 = s\<lparr>cs_remaining := cs_remaining s - (amount_in + fee_amount),
                 cs_calculated := cs_calculated s - amount_out,
                 cs_price := price\<rparr>
      in if price = price_next
         then rbind (if initialized
                     then rbind (ticks_liquidity_net kc db pool tick_next)
                            (cross_liquidity zto (cs_liquidity s))
                     else Ok (cs_liquidity s)) (\<lambda>liq.
                Ok (s1\<lparr>cs_liquidity := liq,
                       cs_tick := (if zto then tick_next - 1 else tick_next)\<rparr>))
         else if price \<noteq> cs_price s
         then rbind (vm_tick_at_ratio M price) (\<lambda>t. Ok (s1\<lparr>cs_tick := t\<rparr>))
         else Ok s1)"

text \<open>One iteration of the \<open>while\<close>.\<close>

definition v3_iteration ::
  "v3_math \<Rightarrow> keccak \<Rightarrow> state_db \<Rightarrow> address \<Rightarrow> bool \<Rightarrow> u256 \<Rightarrow> i32 \<Rightarrow> u32 \<Rightarrow>
     current_state \<Rightarrow> current_state res"
where
  "v3_iteration M kc db pool zto limit spacing fee s =
     rbind (i_div (cs_tick s) spacing) (\<lambda>compressed.
     rbind (load_window kc db pool (fst (position compressed))) (\<lambda>window.
     rbind (vm_next_tick M window (cs_tick s) spacing zto) (\<lambda>(raw_next, initialized).
     let tick_next = clamp_tick (vm_min_tick M) (vm_max_tick M) raw_next in
     rbind (vm_ratio_at_tick M tick_next) (\<lambda>price_next.
     rbind (vm_swap_step M (cs_price s) (swap_target zto limit price_next)
              (cs_liquidity s) (cs_remaining s) fee) (\<lambda>step.
       v3_advance M kc db pool zto tick_next initialized price_next step s)))))"

text \<open>The loop over its body; \<open>None\<close> means that it does not end.\<close>

partial_function (option) v3_loop ::
  "(current_state \<Rightarrow> current_state res) \<Rightarrow> u256 \<Rightarrow> current_state \<Rightarrow> current_state res option"
where
  "v3_loop iteration limit s =
     (if cs_remaining s \<noteq> 0 \<and> cs_price s \<noteq> limit
      then (case iteration s of
              Inl e \<Rightarrow> Some (Inl e)
            | Inr s' \<Rightarrow> v3_loop iteration limit s')
      else Some (Inr s))"

definition v3_limit :: "v3_math \<Rightarrow> bool \<Rightarrow> u256" where
  "v3_limit M zto = (if zto then vm_min_ratio M + 1 else vm_max_ratio M - 1)"

text \<open>The loop's inputs: direction, tick spacing and the first state.\<close>

definition v3_start ::
  "state_db \<Rightarrow> u256 \<Rightarrow> address \<Rightarrow> address \<Rightarrow> (bool \<times> i32 \<times> current_state) res"
where
  "v3_start db amount_in pool token_in =
     rbind (unwrap_opt (zero_to_one db pool token_in)) (\<lambda>zto.
     rbind (slot0 db pool) (\<lambda>sl.
     rbind (liquidity db pool) (\<lambda>liq.
     rbind (tick_spacing db pool) (\<lambda>spacing.
       Ok (zto, spacing,
           \<lparr>cs_remaining = amount_in, cs_calculated = 0,
            cs_price = ucast (s0_sqrt_price sl), cs_tick = scast (s0_tick sl),
            cs_liquidity = liq\<rparr>)))))"

definition uniswap_v3_out ::
  "v3_math \<Rightarrow> keccak \<Rightarrow> state_db \<Rightarrow> u256 \<Rightarrow> address \<Rightarrow> address \<Rightarrow> u32 \<Rightarrow> u256 res option"
where
  "uniswap_v3_out M kc db amount_in pool token_in fee =
     (if amount_in = 0 then Some (Ok 0)
      else case v3_start db amount_in pool token_in of
             Inl e \<Rightarrow> Some (Inl e)
           | Inr (zto, spacing, s) \<Rightarrow>
               map_option (\<lambda>r. rbind r (\<lambda>s'. Ok (- cs_calculated s')))
                 (v3_loop (v3_iteration M kc db pool zto (v3_limit M zto) spacing fee)
                    (v3_limit M zto) s))"

subsection \<open>Positions in the bitmap\<close>

lemma position_sint:
  assumes "- (2 ^ 23) \<le> sint t" and "sint t < 2 ^ 23"
  shows "sint (fst (position t)) = sint t div 256"
proof -
  have "sint (signed_drop_bit 8 t) = sint t div 256"
    by (simp add: sint_signed_drop_bit_eq drop_bit_eq_div)
  with assms show ?thesis
    by (simp add: position_def sint_narrow)
qed

lemma position_bit: "uint (snd (position t)) = sint t mod 256"
proof -
  have u: "(ucast (word_of_int k :: i32) :: u8) = word_of_int k" for k
    by (rule bit_word_eqI) (auto simp: bit_simps bit_word_of_int_iff)
  have "(sint t smod 256) mod 256 = sint t mod 256"
    unfolding minus_sdiv_mult_eq_smod [symmetric] by (simp add: mod_diff_eq [symmetric])
  then show ?thesis
    by (simp add: position_def u uint_word_of_int)
qed

text \<open>
  \<^verbatim>\<open>position\<close> is the floor decomposition of a tick into word and bit, for negative ticks
  too, although it takes Rust's truncated remainder.
\<close>

theorem position_decomposes:
  assumes "- (2 ^ 23) \<le> sint t" and "sint t < 2 ^ 23"
  shows "sint t = 256 * sint (fst (position t)) + int (unat (snd (position t)))"
  by (simp add: position_sint [OF assms] position_bit)

theorem position_decomposes_witness:
  "position (-1) = (-1, 255) \<and> sint (-1 :: i32) = 256 * sint (-1 :: i16) + int (unat (255 :: u8))"
proof -
  have "position (-1) = (-1, 255)" by code_simp
  with position_decomposes [of "-1"] show ?thesis by simp
qed

lemma load_all:
  assumes "rfold (\<lambda>i m. rbind (g i) (\<lambda>v. Ok (m(i \<mapsto> v)))) xs m0 = Inr m"
  shows "\<forall>i. if i \<in> set xs then \<exists>v. g i = Inr v \<and> m i = Some v else m i = m0 i"
  using assms
proof (induction xs arbitrary: m0)
  case Nil
  then show ?case by simp
next
  case (Cons x xs)
  obtain v where v: "g x = Inr v"
    "rfold (\<lambda>i m. rbind (g i) (\<lambda>v. Ok (m(i \<mapsto> v)))) xs (m0(x \<mapsto> v)) = Inr m"
    using Cons.prems unfolding rfold.simps rbind_eq_Inr Inr_inject by blast
  from Cons.IH [OF v(2)] v(1) show ?case by (auto split: if_splits)
qed

lemma load_window_total: "\<exists>m. load_window kc db pool w = Ok m"
proof -
  have t: "\<exists>v. or_default (tick_bitmap kc db pool i) 0 = Ok v" for i
    by (auto simp: tick_bitmap_def read_hashed_slot_def storage_ref_def split: option.splits)
  have "\<exists>m. rfold (\<lambda>i m. rbind (or_default (tick_bitmap kc db pool i) 0) (\<lambda>bm. Ok (m(i \<mapsto> bm)))) xs m0
      = Ok m" for xs m0
  proof (induction xs arbitrary: m0)
    case (Cons x xs)
    then show ?case using t [of x] by (auto simp: rbind_eq_Inr)
  qed simp
  then show ?thesis by (simp add: load_window_def)
qed

lemma load_window_entry:
  assumes "load_window kc db pool w = Inr m"
    and "- (2 ^ 15) < sint w" and "sint w < 2 ^ 15 - 1" and "\<bar>k - sint w\<bar> \<le> 1"
  shows "\<exists>bm. or_default (tick_bitmap kc db pool (word_of_int k)) 0 = Ok bm \<and>
           m (word_of_int k) = Some bm"
proof -
  have "sint (w - 1) = sint w - 1" "sint (w + 1) = sint w + 1"
    using sint_in_range [of "sint w - 1", where ?'a = 16] sint_in_range [of "sint w + 1", where ?'a = 16]
      assms(2,3) by simp_all
  then have "word_of_int k \<in> set (word_range (w - 1) (w + 1))"
    using assms(4) by (auto simp: word_range_def intro!: imageI)
  with load_all [OF assms(1) [unfolded load_window_def]] show ?thesis by meson
qed

lemma sdiv_floor:
  assumes "0 < (s :: int)"
  shows "t sdiv s = t div s \<or> t sdiv s = t div s + 1"
proof (cases "0 \<le> t")
  case True
  with assms show ?thesis by (simp add: signed_divide_int_def sgn_if)
next
  case False
  then have "t sdiv s = - (- t div s)" using assms by (simp add: signed_divide_int_def)
  moreover have "- (- t div s) = t div s \<or> - (- t div s) = t div s + 1"
    using assms by (cases "t mod s = 0") (simp_all add: zdiv_zminus1_eq_if)
  ultimately show ?thesis by simp
qed

lemma sdiv_bounds:
  assumes "0 < (s :: int)" and "- a < t" and "t < b" and "0 < a" and "0 < b"
  shows "- a < t sdiv s" and "t sdiv s < b"
proof -
  have d: "x div s \<le> x" "0 \<le> x div s" if "0 \<le> x" for x
    using that assms(1) int_div_le_self [of x s] by (cases "x = 0", simp_all add: pos_imp_zdiv_nonneg_iff)
  have "t sdiv s = (if 0 \<le> t then t div s else - (- t div s))"
    using assms(1) by (simp add: signed_divide_int_def sgn_if)
  with assms d [of t] d [of "- t"] show "- a < t sdiv s" "t sdiv s < b"
    by (auto split: if_splits)
qed

lemma near_div:
  fixes q c k :: int
  assumes "q = c \<or> q = c + 1" and "k = c div 256 \<or> k = (c + 1) div 256"
  shows "\<bar>k - q div 256\<bar> \<le> 1"
  using assms by (elim disjE; hypsubst; linarith?) (presburger+)?

text \<open>
  The loop rounds \<open>tick / tick_spacing\<close> towards zero where the library rounds down. The
  three words it loads still contain the word of the rounded-down tick and the word of
  the next tick above, each with the database's bitmap, so the library never misses a
  word of the bitmap it searches, in either direction.
\<close>

theorem window_covers_search:
  assumes "i_div t spacing = Ok compressed" and "0 < sint spacing"
    and "- (2 ^ 22) < sint t" and "sint t < 2 ^ 22"
    and "load_window kc db pool (fst (position compressed)) = Ok window"
    and "c = sint t div sint spacing" and "k = c div 256 \<or> k = (c + 1) div 256"
  shows "\<exists>bm. or_default (tick_bitmap kc db pool (word_of_int k)) 0 = Ok bm \<and>
           window (word_of_int k) = Some bm"
proof -
  let ?q = "sint t sdiv sint spacing"
  have q: "?q = c \<or> ?q = c + 1"
    using assms(2) unfolding assms(6) by (rule sdiv_floor)
  have qb: "- (2 ^ 22) < ?q" "?q < 2 ^ 22"
    using sdiv_bounds [OF assms(2)] assms(3,4) by auto
  have "compressed = word_of_int ?q"
    using assms(1) by (simp add: i_div_def split: if_splits)
  then have sc: "sint compressed = ?q" using qb by (simp add: sint_in_range)
  then have w: "sint (fst (position compressed)) = ?q div 256"
    using qb by (simp add: position_sint)
  have "\<bar>k - ?q div 256\<bar> \<le> 1"
    using near_div [OF q assms(7)] .
  moreover have "- (2 ^ 15) < ?q div 256" "?q div 256 < 2 ^ 15 - 1"
    using qb by simp_all
  ultimately show ?thesis
    using load_window_entry [OF assms(5)] by (simp add: w)
qed

theorem window_covers_search_witness:
  "\<exists>m bm. load_window ex_keccak ex_v2_db 77 (fst (position 0)) = Ok m \<and> m (- 1) = Some bm \<and>
     or_default (tick_bitmap ex_keccak ex_v2_db 77 (- 1)) 0 = Ok bm"
proof -
  obtain m where m: "load_window ex_keccak ex_v2_db 77 (fst (position 0)) = Ok m"
    using load_window_total by blast
  have d: "i_div (- 5) 60 = Ok (0 :: i32)" by code_simp
  have k: "- 1 = (- 1 :: int) div 256" by simp
  have sp: "0 < sint (60 :: i32)" "- (2 ^ 22) < sint (- 5 :: i32)" "sint (- 5 :: i32) < 2 ^ 22"
    by simp_all
  have c: "- 1 = sint (- 5 :: i32) div sint (60 :: i32)" by simp
  have mi: "word_of_int (- 1) = (- 1 :: i16)" by simp
  from window_covers_search [OF d sp m c disjI1 [OF k]] m
  show ?thesis unfolding mi by blast
qed

subsection \<open>Crossing a tick\<close>

text \<open>
  C25: Crossing an initialized tick adds its net liquidity going up and subtracts it going
  down, exactly over the integers, and fails exactly when the result is no \<open>u128\<close>. The
  smallest \<open>i128\<close> is excluded: its negation wraps.
\<close>

theorem cross_liquidity_exact:
  assumes "sint net \<noteq> - (2 ^ 127)" and "l = int (unat liq) + (if zto then - sint net else sint net)"
  shows "cross_liquidity zto liq net =
     (if l < 0 then err Insufficient_liquidity
      else if 2 ^ 128 \<le> l then err Liquidity_overflow
      else Ok (word_of_int l))"
proof -
  have neg: "sint (- n) = - sint n" if "sint n \<noteq> - (2 ^ 127)" for n :: i128
    using sint_in_range [of "- sint n", where ?'a = 128] sint_greater_eq [of n] sint_lt [of n] that
    by simp
  define n where "n = (if zto then - net else net)"
  have n: "sint n = (if zto then - sint net else sint net)" "sint n \<noteq> - (2 ^ 127)"
    using neg [of net] assms(1) sint_lt [of net] by (auto simp: n_def)
  have u: "int (unat x) = sint x" if "0 \<le> sint x" for x :: i128
    using that sint_lt [of x] uint_sint [of x] by (simp add: take_bit_int_eq_self)
  have l: "l = int (unat liq) + sint n" using assms(2) n(1) by simp
  show ?thesis
  proof (cases "sint n < 0")
    case True
    then have m: "int (unat (- n)) = - sint n" using neg [OF n(2)] u [of "- n"] by simp
    have "liq - (- n) = word_of_int l" by (simp add: l)
    moreover have "- n \<le> liq \<longleftrightarrow> 0 \<le> l"
      using m by (simp only: word_le_nat_alt l zle_int [symmetric]) arith
    moreover have "l < 2 ^ 128"
      using True l of_nat_less_iff [of "unat liq" "2 ^ 128", where ?'a = int] unat_less_width [of liq]
      by simp
    ultimately show ?thesis
      using True by (auto simp: cross_liquidity_def n_def [symmetric] Let_def checked_sub_def)
  next
    case False
    then have m: "int (unat n) = sint n" using u by simp
    have "liq + n = word_of_int l" by (simp add: l)
    moreover have "unat liq + unat n < 2 ^ 128 \<longleftrightarrow> l < 2 ^ 128"
      using m l of_nat_less_iff [of "unat liq + unat n" "2 ^ 128", where ?'a = int] by simp
    moreover have "0 \<le> l" using False l by simp
    ultimately show ?thesis
      using False by (auto simp: cross_liquidity_def n_def [symmetric] Let_def checked_add_def)
  qed
qed

theorem cross_liquidity_exact_witness:
  "cross_liquidity True 900 (- 7) = Ok 907 \<and> cross_liquidity False 5 (- 7) = err Insufficient_liquidity"
proof -
  have s: "sint (- 7 :: i128) = - 7" by simp
  have "cross_liquidity True 900 (- 7) = Ok (word_of_int 907)"
    by (subst cross_liquidity_exact [of "- 7" 907 900 True, unfolded s]) simp_all
  moreover have "cross_liquidity False 5 (- 7) = err Insufficient_liquidity"
    by (subst cross_liquidity_exact [of "- 7" "- 2" 5 False, unfolded s]) simp_all
  ultimately show ?thesis by simp
qed

subsection \<open>Termination of the V3 loop\<close>

text \<open>
  What the loop relies on. The tick bounds fit the contract's 24 bits and the ratios at
  the bounds are the limits; the bitmap search returns a tick at or below the current one
  going down and above it going up; a swap step with input left either reaches its target
  price or takes the whole rest as input and fee, and never takes more than the rest.
  These are the documented contracts of \<open>TickMath\<close>, \<open>TickBitmap\<close> and \<open>SwapMath\<close>.
\<close>

definition v3_math_laws :: "v3_math \<Rightarrow> bool" where
  "v3_math_laws M \<longleftrightarrow>
     - (2 ^ 23) < sint (vm_min_tick M) \<and> sint (vm_min_tick M) < sint (vm_max_tick M) \<and>
     sint (vm_max_tick M) < 2 ^ 23 \<and>
     vm_min_ratio M < vm_min_ratio M + 1 \<and> vm_max_ratio M - 1 < vm_max_ratio M \<and>
     vm_ratio_at_tick M (vm_min_tick M) = Ok (vm_min_ratio M) \<and>
     vm_ratio_at_tick M (vm_max_tick M) = Ok (vm_max_ratio M) \<and>
     (\<forall>bm t sp lte t' i. - (2 ^ 23) \<le> sint t \<longrightarrow> sint t < 2 ^ 23 \<longrightarrow>
        vm_next_tick M bm t sp lte = Ok (t', i) \<longrightarrow>
        (if lte then sint t' \<le> sint t else sint t < sint t')) \<and>
     (\<forall>p target liq rem fee p' ain aout f. 0 < sint rem \<longrightarrow>
        vm_swap_step M p target liq rem fee = Ok (p', ain, aout, f) \<longrightarrow>
        unat ain + unat f \<le> unat rem \<and> (p' = target \<or> unat ain + unat f = unat rem))"

text \<open>The distance to the last tick in the direction of the swap.\<close>

definition tick_distance :: "v3_math \<Rightarrow> bool \<Rightarrow> i32 \<Rightarrow> nat" where
  "tick_distance M zto t =
     nat (if zto then sint t - (- (2 ^ 24)) else 2 ^ 24 - sint t)"

definition v3_wf :: "current_state \<Rightarrow> bool" where
  "v3_wf s \<longleftrightarrow> 0 \<le> sint (cs_remaining s) \<and> - (2 ^ 23) \<le> sint (cs_tick s) \<and> sint (cs_tick s) < 2 ^ 23"

lemma clamp_tick_sint:
  "sint lo \<le> sint hi \<Longrightarrow> sint (clamp_tick lo hi t) = max (sint lo) (min (sint hi) (sint t))"
  by (simp add: clamp_tick_def)

lemma remaining_after:
  fixes rem :: i256
  assumes "0 < sint rem" and "unat ain + unat f \<le> unat rem"
  shows "0 \<le> sint (rem - (ain + f))"
    and "unat ain + unat f = unat rem \<Longrightarrow> rem - (ain + f) = 0"
proof -
  have a: "unat (ain + f) = unat ain + unat f"
    by (rule unat_add_exact) (use assms(2) unat_less_width [of rem] in simp)
  then have le: "ain + f \<le> rem" using assms(2) by (simp add: word_le_nat_alt)
  have "unat (rem - (ain + f)) \<le> unat rem" using a by (simp add: unat_sub_exact [OF le])
  also have "\<dots> < 2 ^ 255" using unat_nonneg_signed [of rem] assms(1) by simp
  finally show "0 \<le> sint (rem - (ain + f))"
    by (simp add: sint_nonneg_iff_unat)
  show "rem - (ain + f) = 0" if "unat ain + unat f = unat rem"
    using that a by (metis diff_self word_unat_eq_iff)
qed

lemma v3_advance_Inr:
  assumes "v3_advance M kc db pool zto n ini pn (p, ain, aout, f) s = Inr s'"
  shows "cs_remaining s' = cs_remaining s - (ain + f) \<and> cs_price s' = p \<and>
         (p = pn \<longrightarrow> cs_tick s' = (if zto then n - 1 else n))"
  using assms by (auto simp: v3_advance_def Let_def rbind_eq_Inr split: if_splits)

lemma v3_iteration_Inr:
  assumes "v3_iteration M kc db pool zto limit spacing fee s = Inr s'"
  obtains window raw ini pn p ain aout f where
    "vm_next_tick M window (cs_tick s) spacing zto = Inr (raw, ini)"
    "vm_ratio_at_tick M (clamp_tick (vm_min_tick M) (vm_max_tick M) raw) = Inr pn"
    "vm_swap_step M (cs_price s) (swap_target zto limit pn) (cs_liquidity s) (cs_remaining s) fee
      = Inr (p, ain, aout, f)"
    "v3_advance M kc db pool zto (clamp_tick (vm_min_tick M) (vm_max_tick M) raw) ini pn
      (p, ain, aout, f) s = Inr s'"
  using assms unfolding v3_iteration_def Let_def rbind_eq_Inr case_prod_unfold
  by (metis prod.collapse)

text \<open>
  One iteration under the laws: unless it ends the swap, it moves the tick strictly on in
  the direction of the swap, and it never makes the remaining input negative.
\<close>

lemma v3_iteration_progress:
  assumes laws: "v3_math_laws M" and wf: "v3_wf s"
    and go: "cs_remaining s \<noteq> 0"
    and it: "v3_iteration M kc db pool zto (v3_limit M zto) spacing fee s = Inr s'"
  shows "0 \<le> sint (cs_remaining s') \<and>
         (cs_remaining s' = 0 \<or> cs_price s' = v3_limit M zto \<or>
          v3_wf s' \<and> tick_distance M zto (cs_tick s') < tick_distance M zto (cs_tick s))"
proof -
  let ?t = "cs_tick s" and ?rem = "cs_remaining s"
  obtain window raw ini pn p ain aout f where
    nt: "vm_next_tick M window ?t spacing zto = Inr (raw, ini)" and
    pn: "vm_ratio_at_tick M (clamp_tick (vm_min_tick M) (vm_max_tick M) raw) = Inr pn" and
    sw: "vm_swap_step M (cs_price s) (swap_target zto (v3_limit M zto) pn) (cs_liquidity s) ?rem fee
      = Inr (p, ain, aout, f)" and
    ad: "v3_advance M kc db pool zto (clamp_tick (vm_min_tick M) (vm_max_tick M) raw) ini pn
      (p, ain, aout, f) s = Inr s'"
    by (rule v3_iteration_Inr [OF it])
  let ?n = "clamp_tick (vm_min_tick M) (vm_max_tick M) raw"
  from v3_advance_Inr [OF ad] have r: "cs_remaining s' = ?rem - (ain + f)" and pr: "cs_price s' = p"
    and tk: "p = pn \<Longrightarrow> cs_tick s' = (if zto then ?n - 1 else ?n)" by auto
  have "sint ?rem \<noteq> 0" using go signed_word_eqI [of ?rem 0] by auto
  with wf have rem: "0 < sint ?rem" by (simp add: v3_wf_def)
  have step: "unat ain + unat f \<le> unat ?rem"
    "p = swap_target zto (v3_limit M zto) pn \<or> unat ain + unat f = unat ?rem"
    using laws rem sw unfolding v3_math_laws_def by blast+
  note ra = remaining_after [OF rem step(1)]
  have bounds: "- (2 ^ 23) < sint (vm_min_tick M)" "sint (vm_min_tick M) < sint (vm_max_tick M)"
    "sint (vm_max_tick M) < 2 ^ 23"
    and ends: "vm_min_ratio M < vm_min_ratio M + 1" "vm_max_ratio M - 1 < vm_max_ratio M"
    "vm_ratio_at_tick M (vm_min_tick M) = Ok (vm_min_ratio M)"
    "vm_ratio_at_tick M (vm_max_tick M) = Ok (vm_max_ratio M)"
    using laws unfolding v3_math_laws_def by blast+
  have dir: "if zto then sint raw \<le> sint ?t else sint ?t < sint raw"
    using laws wf nt unfolding v3_math_laws_def v3_wf_def by blast
  have nb: "sint (vm_min_tick M) \<le> sint ?n" "sint ?n \<le> sint (vm_max_tick M)"
    using bounds by (simp_all add: clamp_tick_sint)
  show ?thesis
  proof (cases "cs_remaining s' = 0 \<or> p = v3_limit M zto")
    case True
    with ra(1) r pr show ?thesis by auto
  next
    case False
    with step(2) ra(2) r have "p = swap_target zto (v3_limit M zto) pn" by auto
    with False have p: "p = pn" "if zto then \<not> pn < v3_limit M zto else \<not> v3_limit M zto < pn"
      by (auto simp: swap_target_def split: if_splits)
    show ?thesis
    proof (cases zto)
      case True
      have "?n \<noteq> vm_min_tick M"
        using p(2) True pn ends(1,3) by (auto simp: v3_limit_def)
      then have "sint ?n \<noteq> sint (vm_min_tick M)" using signed_word_eqI by blast
      then have n: "sint ?n \<le> sint ?t"
        using dir True nb(1) bounds(2) by (simp add: clamp_tick_sint split: if_splits)
      have "sint (?n - 1) = sint ?n - 1"
        using sint_in_range [of "sint ?n - 1", where ?'a = 32] nb bounds by simp
      then show ?thesis
        using tk [OF p(1)] True n nb bounds ra(1) r by (auto simp: v3_wf_def tick_distance_def)
    next
      case False
      have "?n \<noteq> vm_max_tick M"
        using p(2) False pn ends(2,4) by (auto simp: v3_limit_def)
      then have "sint ?n \<noteq> sint (vm_max_tick M)" using signed_word_eqI by blast
      then have n: "sint ?t < sint ?n"
        using dir False nb(2) bounds(2) by (simp add: clamp_tick_sint split: if_splits)
      then show ?thesis
        using tk [OF p(1)] False n nb bounds ra(1) r wf by (auto simp: v3_wf_def tick_distance_def)
    qed
  qed
qed

lemma v3_loop_terminates:
  assumes "v3_math_laws M" and "v3_wf s"
  shows "\<exists>r. v3_loop (v3_iteration M kc db pool zto (v3_limit M zto) spacing fee)
               (v3_limit M zto) s = Some r \<and>
           (\<forall>s'. r = Inr s' \<longrightarrow> 0 \<le> sint (cs_remaining s') \<and>
                  (cs_remaining s' = 0 \<or> cs_price s' = v3_limit M zto))"
  using assms(2)
proof (induction "tick_distance M zto (cs_tick s)" arbitrary: s rule: less_induct)
  case less
  let ?it = "v3_iteration M kc db pool zto (v3_limit M zto) spacing fee"
  let ?loop = "v3_loop ?it (v3_limit M zto)"
  show ?case
  proof (cases "cs_remaining s \<noteq> 0 \<and> cs_price s \<noteq> v3_limit M zto")
    case False
    then have "?loop s = Some (Inr s)" by (subst v3_loop.simps) auto
    with False less.prems show ?thesis by (auto simp: v3_wf_def)
  next
    case True
    show ?thesis
    proof (cases "?it s")
      case (Inl e)
      with True have "?loop s = Some (Inl e)" by (subst v3_loop.simps) simp
      then show ?thesis by simp
    next
      case (Inr s')
      with True have l: "?loop s = ?loop s'" by (subst v3_loop.simps) simp
      from True have "cs_remaining s \<noteq> 0" by simp
      from v3_iteration_progress [OF assms(1) less.prems this Inr] show ?thesis
      proof (elim conjE disjE)
        assume "v3_wf s'" "tick_distance M zto (cs_tick s') < tick_distance M zto (cs_tick s)"
        from less.hyps [OF this(2,1)] l show ?thesis by simp
      next
        assume *: "0 \<le> sint (cs_remaining s')" "cs_remaining s' = 0"
        then have "?loop s' = Some (Inr s')" by (subst v3_loop.simps) auto
        with * l show ?thesis by auto
      next
        assume *: "0 \<le> sint (cs_remaining s')" "cs_price s' = v3_limit M zto"
        then have "?loop s' = Some (Inr s')" by (subst v3_loop.simps) auto
        with * l show ?thesis by auto
      qed
    qed
  qed
qed

lemma v3_start_wf:
  assumes "v3_start db x a t = Inr (zto, spacing, s)" and "0 \<le> sint x"
  shows "v3_wf s"
proof -
  have "cs_remaining s = x \<and> (\<exists>sl :: slot0_return. cs_tick s = scast (s0_tick sl))"
    using assms(1) by (auto simp: v3_start_def rbind_eq_Inr)
  then obtain sl :: slot0_return where "cs_remaining s = x" and tick: "cs_tick s = scast (s0_tick sl)" by blast
  moreover have "sint (scast (s0_tick sl) :: i32) = sint (s0_tick sl)"
    by (rule sint_up_scast) (simp add: is_up)
  moreover have "- (2 ^ 23) \<le> sint (s0_tick sl)" "sint (s0_tick sl) < 2 ^ 23"
    using sint_greater_eq [of "s0_tick sl"] sint_lt [of "s0_tick sl"] by simp_all
  ultimately show ?thesis using assms(2) by (simp add: v3_wf_def)
qed


text \<open>A library that satisfies the laws: linear prices, five units per tick.\<close>

definition ex_math :: v3_math where
  "ex_math =
     \<lparr>vm_next_tick = (\<lambda>bm t sp lte. Ok (if lte then t else t + 1, False)),
      vm_ratio_at_tick = (\<lambda>t. Ok (word_of_int (sint t + 10000000))),
      vm_swap_step = (\<lambda>p target liq rem fee.
        if 5 < rem then Ok (target, 3, 3, 2) else Ok (p, rem, 1, 0)),
      vm_tick_at_ratio = (\<lambda>p. Ok 0),
      vm_min_tick = - 887272, vm_max_tick = 887272,
      vm_min_ratio = 9112728, vm_max_ratio = 10887272\<rparr>"

lemma ex_math_laws: "v3_math_laws ex_math"
proof -
  have n: "sint (t + 1) = sint t + 1" if "- (2 ^ 23) \<le> sint t" "sint t < 2 ^ 23" for t :: i32
    using sint_in_range [of "sint t + 1", where ?'a = 32] that by simp
  show ?thesis
    unfolding v3_math_laws_def
    by (intro conjI allI impI)
       (auto simp: ex_math_def n word_less_nat_alt split: if_splits)
qed


end
