(* ===== verification/Aerodrome.thy ===== *)
theory Aerodrome
  imports Uniswap
begin

text \<open>
  The output of Aerodrome pools (\<^verbatim>\<open>src/calculation/aerodrome.rs\<close>): the volatile
  constant-product formula and the stable curve \<open>x y (x^2 + y^2)\<close>, solved for \<open>y\<close> by at
  most 255 Newton steps. \<open>get_fee\<close>, \<open>get_decimals\<close> and \<open>get_stable\<close> of the database are
  called here and defined nowhere in the repository: they are the record \<open>aero_info\<close>.
\<close>

record aero_info =
  af_fee :: "address \<Rightarrow> u256"
  af_decimals :: "address \<Rightarrow> u8 \<times> u8"
  af_stable :: "address \<Rightarrow> bool"

definition aero_k :: "u256 \<Rightarrow> u256 \<Rightarrow> bool \<Rightarrow> u256 \<Rightarrow> u256 \<Rightarrow> u256 res" where
  "aero_k x y is_stable decimals0 decimals1 =
     (if is_stable then
        rbind (udiv (x * e18) decimals0) (\<lambda>x'.
        rbind (udiv (y * e18) decimals1) (\<lambda>y'.
        let a = (x' * y') div e18;
            b = (x' * x') div e18 + (y' * y') div e18
        in Ok ((a * b) div e18)))
      else Ok (x * y))"

definition aero_f :: "u256 \<Rightarrow> u256 \<Rightarrow> u256" where
  "aero_f x0 y =
     (let a = (x0 * y) div e18;
          b = (x0 * x0) div e18 + (y * y) div e18
      in (a * b) div e18)"

definition aero_d :: "u256 \<Rightarrow> u256 \<Rightarrow> u256" where
  "aero_d x0 y =
     3 * x0 * ((y * y) div e18) div e18 + (((x0 * x0) div e18) * x0) div e18"

text \<open>The \<open>for\<close> loop: \<open>n\<close> iterations are left.\<close>

fun get_y_loop :: "nat \<Rightarrow> u256 \<Rightarrow> u256 \<Rightarrow> u256 \<Rightarrow> bool \<Rightarrow> u256 \<Rightarrow> u256 \<Rightarrow> u256 res" where
  "get_y_loop 0 x0 xy y is_stable decimals0 decimals1 = Ok 0"
| "get_y_loop (Suc n) x0 xy y is_stable decimals0 decimals1 =
     (let k = aero_f x0 y; d = aero_d x0 y in
      if d = 0 then Ok 0
      else if k < xy then
        (let dy = ((xy - k) * e18) div d in
         if dy = 0 then
           (if k = xy then Ok y
            else rbind (aero_k x0 (y + 1) is_stable decimals0 decimals1) (\<lambda>k1.
              if k1 > xy then Ok (y + 1)
              else get_y_loop n x0 xy (y + 1) is_stable decimals0 decimals1))
         else get_y_loop n x0 xy (y + dy) is_stable decimals0 decimals1)
      else
        (let dy = ((k - xy) * e18) div d in
         if dy = 0 then
           (if k = xy \<or> aero_f x0 (y - 1) < xy then Ok y
            else get_y_loop n x0 xy (y - 1) is_stable decimals0 decimals1)
         else get_y_loop n x0 xy (y - dy) is_stable decimals0 decimals1))"

definition get_y :: "u256 \<Rightarrow> u256 \<Rightarrow> u256 \<Rightarrow> bool \<Rightarrow> u256 \<Rightarrow> u256 \<Rightarrow> u256 res" where
  "get_y x0 xy y is_stable decimals0 decimals1 = get_y_loop 255 x0 xy y is_stable decimals0 decimals1"

definition aerodrome_out ::
  "aero_info \<Rightarrow> state_db \<Rightarrow> u256 \<Rightarrow> address \<Rightarrow> address \<Rightarrow> u256 res"
where
  "aerodrome_out I db amount_in token_in pool =
     rbind (get_reserves db pool) (\<lambda>(reserve0, reserve1).
     let pool_fee = af_fee I pool;
         (dec_0, dec_1) = af_decimals I pool;
         is_stable = af_stable I pool
     in rbind (get_token0 db pool) (\<lambda>token0.
     let amount_in = amount_in - (amount_in * pool_fee) div 10000;
         token0_decimals = 10 ^ unat dec_0;
         token1_decimals = 10 ^ unat dec_1
     in if is_stable then
          rbind (aero_k reserve0 reserve1 is_stable token0_decimals token1_decimals) (\<lambda>xy.
          rbind (udiv (reserve0 * e18) token0_decimals) (\<lambda>reserve0.
          rbind (udiv (reserve1 * e18) token1_decimals) (\<lambda>reserve1.
          let (reserve_a, reserve_b) =
                (if token_in = token0 then (reserve0, reserve1) else (reserve1, reserve0))
          in rbind (if token_in = token0 then udiv (amount_in * e18) token0_decimals
                    else udiv (amount_in * e18) token1_decimals) (\<lambda>amount_in.
             rbind (get_y (amount_in + reserve_a) xy reserve_b is_stable
                      token0_decimals token1_decimals) (\<lambda>y'.
             let y = reserve_b - y'
             in if token_in = token0 then Ok ((y * token1_decimals) div e18)
                else Ok ((y * token0_decimals) div e18))))))
        else
          (let (reserve_a, reserve_b) =
                 (if token_in = token0 then (reserve0, reserve1) else (reserve1, reserve0))
           in udiv (amount_in * reserve_b) (reserve_a + amount_in))))"

subsection \<open>What the Newton loop returns\<close>

text \<open>The ways a nonzero value leaves the loop.\<close>

lemma get_y_loop_exit:
  assumes "get_y_loop n x0 xy y is_stable dec0 dec1 = Ok r"
  shows "r = 0 \<or> aero_f x0 r = xy \<or> (xy \<le> aero_f x0 r \<and> aero_f x0 (r - 1) < xy) \<or>
         (aero_f x0 (r - 1) < xy \<and> (\<exists>k1. aero_k x0 r is_stable dec0 dec1 = Ok k1 \<and> xy < k1))"
  using assms
proof (induction n arbitrary: y)
  case 0
  then show ?case by simp
next
  case (Suc n)
  from Suc.prems show ?case
    by (auto simp: Let_def rbind_eq_Inr dest!: Suc.IH split: if_splits)
qed

text \<open>The curve on the natural numbers, and its agreement with the words below \<open>2^93\<close>.\<close>

definition curve :: "nat \<Rightarrow> nat \<Rightarrow> nat" where
  "curve x y =
     (x * y div 10 ^ 18) * (x * x div 10 ^ 18 + y * y div 10 ^ 18) div 10 ^ 18"

lemma curve_mono: "y \<le> z \<Longrightarrow> curve x y \<le> curve x z"
  unfolding curve_def by (intro div_le_mono mult_le_mono add_le_mono order_refl)

lemma aero_f_exact:
  assumes "unat x < 2 ^ 93" and "unat y < 2 ^ 93"
  shows "unat (aero_f x y) = curve (unat x) (unat y)"
proof -
  have p: "unat u * unat v < 2 ^ 186" if "unat u < 2 ^ 93" "unat v < 2 ^ 93" for u v :: u256
    using mult_lt_bounds [OF that] by simp
  have m: "unat (u * v) = unat u * unat v" if "unat u < 2 ^ 93" "unat v < 2 ^ 93" for u v :: u256
    by (rule unat_mul_exact) (use p [OF that] in simp)
  note m3 = m [OF assms] m [OF assms(1) assms(1)] m [OF assms(2) assms(2)]
  have q: "n div 10 ^ 18 < 2 ^ 127" if "n < 2 ^ 186" for n :: nat
    using that by (simp add: div_less_iff_less_mult)
  let ?a = "unat x * unat y div 10 ^ 18" and ?c = "unat x * unat x div 10 ^ 18"
    and ?e = "unat y * unat y div 10 ^ 18"
  have b: "?a < 2 ^ 127" "?c < 2 ^ 127" "?e < 2 ^ 127" using q p assms by blast+
  have d: "unat ((x * y) div e18) = ?a" "unat ((x * x) div e18) = ?c" "unat ((y * y) div e18) = ?e"
    by (simp_all only: unat_div_exact m3 unat_e18)
  have s: "unat ((x * x) div e18 + (y * y) div e18) = ?c + ?e"
    by (subst unat_add_exact) (use b d in simp_all)
  have "?c + ?e < 2 ^ 128" using b by simp
  then have ab: "?a * (?c + ?e) < 2 ^ 127 * 2 ^ 128" using b(1) by (intro mult_lt_bounds)
  have "unat ((x * y) div e18 * ((x * x) div e18 + (y * y) div e18)) = ?a * (?c + ?e)"
    by (subst unat_mul_exact) (use ab d s in simp_all)
  then show ?thesis
    by (simp only: aero_f_def Let_def unat_div_exact unat_e18 curve_def)
qed

lemma aero_k_18: "aero_k x y True e18 e18 = Ok (aero_f (x * e18 div e18) (y * e18 div e18))"
  by (simp add: aero_k_def aero_f_def Let_def)

lemma scale_back: "unat x < 2 ^ 93 \<Longrightarrow> x * e18 div e18 = x" for x :: u256
proof -
  assume "unat x < 2 ^ 93"
  then have "unat x * 10 ^ 18 < 2 ^ 93 * (10 ^ 18 + 1)" by (intro mult_lt_bounds) simp_all
  then have "unat (x * e18) = unat x * 10 ^ 18" by (subst unat_mul_exact) simp_all
  then have "unat (x * e18 div e18) = unat x" by (simp only: unat_div_exact unat_e18) simp
  then show ?thesis by (simp add: word_unat_eq_iff)
qed

text \<open>
  C22: For a pair of 18-decimal tokens, whenever \<^verbatim>\<open>_get_y\<close> finds a nonzero reserve (all amounts
  below \<open>2^93\<close>), it is on or just above the curve: it keeps the invariant at least at \<open>xy\<close>
  and either meets it exactly or is the least reserve that does. So the pool is never left
  below its invariant, and the trader loses at most the rounding of one unit.
\<close>

theorem get_y_least:
  assumes "get_y x0 xy y True e18 e18 = Ok r" and "r \<noteq> 0"
    and "unat x0 < 2 ^ 93" and "unat r < 2 ^ 93"
  shows "unat xy \<le> curve (unat x0) (unat r) \<and>
         (curve (unat x0) (unat r) = unat xy \<or> (\<forall>z < unat r. curve (unat x0) z < unat xy))"
proof -
  have fr: "unat (aero_f x0 r) = curve (unat x0) (unat r)"
    by (rule aero_f_exact [OF assms(3,4)])
  have "unat (r - 1) = unat r - 1"
    using assms(2) by (simp add: unat_minus_one)
  with assms(4) have r1: "unat (aero_f x0 (r - 1)) = curve (unat x0) (unat r - 1)"
    by (subst aero_f_exact [OF assms(3)]) simp_all
  have least: "\<forall>z < unat r. curve (unat x0) z < unat xy" if "aero_f x0 (r - 1) < xy"
  proof (intro allI impI)
    fix z assume "z < unat r"
    then have "curve (unat x0) z \<le> curve (unat x0) (unat r - 1)" by (intro curve_mono) simp
    also have "\<dots> < unat xy" using that r1 by (simp add: word_less_nat_alt)
    finally show "curve (unat x0) z < unat xy" .
  qed
  have "aero_k x0 r True e18 e18 = Ok (aero_f x0 r)"
    by (simp only: aero_k_18 scale_back assms(3,4))
  with get_y_loop_exit [OF assms(1) [unfolded get_y_def]] assms(2) fr least
  show ?thesis by (auto simp: word_le_nat_alt word_less_nat_alt)
qed

theorem get_y_least_witness:
  "get_y 1000000000000000000000 2000000000000000000000000000000 1000000000000000000000 True e18 e18
     = Ok 1000000000000000000000 \<and>
   2000000000000000000000000000000 \<le> curve 1000000000000000000000 1000000000000000000000"
proof -
  have g: "get_y 1000000000000000000000 2000000000000000000000000000000 1000000000000000000000 True e18 e18
     = Ok 1000000000000000000000"
    by code_simp
  from get_y_least [OF g] g show ?thesis by simp
qed

subsection \<open>Volatile pools\<close>

text \<open>
  The volatile branch is the constant-product formula on the input less its fee, both
  rounded down, for all amounts below \<open>2^128\<close>: no wrap-around, no more than the reserve,
  and a panic only on an empty pool and an empty input.
\<close>

theorem aerodrome_volatile_exact:
  assumes "\<not> af_stable I a" and "get_reserves db a = Ok (r0, r1)" and "get_token0 db a = Ok t0"
    and "unat x < 2 ^ 128" and "unat (af_fee I a) \<le> 10000"
    and "rin = (if t = t0 then r0 else r1)" and "rout = (if t = t0 then r1 else r0)"
    and "net = unat x - unat x * unat (af_fee I a) div 10000"
  shows "(case aerodrome_out I db x t a of
            Inl e \<Rightarrow> e = Panic Div_by_zero \<and> rin = 0 \<and> net = 0
          | Inr out \<Rightarrow> unat out = net * unat rout div (unat rin + net) \<and> out \<le> rout)"
proof -
  let ?f = "af_fee I a"
  let ?n = "x - (x * ?f) div 10000"
  have b: "unat rin < 2 ^ 112" "unat rout < 2 ^ 112"
    using get_reserves_bounds [OF assms(2)] assms(6,7) by auto
  have xf: "unat x * unat ?f < 2 ^ 128 * 10001" by (rule mult_lt_bounds) (use assms(4,5) in simp_all)
  then have u: "unat ((x * ?f) div 10000) = unat x * unat ?f div 10000"
    by (simp add: unat_div_exact unat_mul_exact)
  have "unat x * unat ?f div 10000 \<le> unat x * 10000 div 10000"
    using assms(5) by (intro div_le_mono mult_le_mono) simp_all
  then have le: "(x * ?f) div 10000 \<le> x" using u by (simp add: word_le_nat_alt)
  have n: "unat ?n = net" by (simp only: unat_sub_exact [OF le] u assms(8))
  then have nb: "net < 2 ^ 128" using assms(4,8) by simp
  have "net * unat rout < 2 ^ 128 * 2 ^ 112" by (rule mult_lt_bounds [OF nb b(2)])
  then have m: "unat (?n * rout) = net * unat rout" using n by (simp add: unat_mul_exact)
  have s: "unat (rin + ?n) = unat rin + net" using n nb b by (simp add: unat_add_exact)
  have out: "aerodrome_out I db x t a = udiv (?n * rout) (rin + ?n)"
    using assms(1-3,6,7) by (simp add: aerodrome_out_def Let_def case_prod_unfold)
  show ?thesis
  proof (cases "rin + ?n = 0")
    case True
    then have "unat rin + net = 0" using s by simp
    then have "unat rin = 0" "net = 0" by simp_all
    then have "rin = 0" "net = 0" by (simp_all add: unsigned_eq_0_iff)
    then show ?thesis using out True by simp
  next
    case False
    have q: "unat (?n * rout div (rin + ?n)) = net * unat rout div (unat rin + net)"
      by (simp only: unat_div_exact m s)
    have "net * unat rout div (unat rin + net) \<le> (unat rin + net) * unat rout div (unat rin + net)"
      by (intro div_le_mono mult_right_mono) simp_all
    also have "\<dots> \<le> unat rout" by simp
    finally show ?thesis using out False q by (simp add: word_le_nat_alt)
  qed
qed

definition ex_aero :: aero_info where
  "ex_aero = \<lparr>af_fee = (\<lambda>a. 30), af_decimals = (\<lambda>a. (18, 18)), af_stable = (\<lambda>a. False)\<rparr>"

definition ex_aero_stable :: aero_info where
  "ex_aero_stable = \<lparr>af_fee = (\<lambda>a. 5), af_decimals = (\<lambda>a. (18, 18)), af_stable = (\<lambda>a. True)\<rparr>"

lemma ex_token0: "get_token0 ex_v2_db 77 = Ok 10"
  using ex_with_reads(1) [of ex_pool]
  by (simp add: ex_v2_db_def get_token0_def ex_pool_def)

theorem aerodrome_volatile_exact_witness:
  "aerodrome_out ex_aero ex_v2_db 10000 10 77 = Ok 19743 \<and> (19743 :: u256) \<le> 2000000"
proof -
  have "aerodrome_out ex_aero ex_v2_db 10000 10 77 = Ok 19743"
    by (simp add: aerodrome_out_def ex_v2_db_reads ex_token0 ex_aero_def Let_def udiv_def)
  with aerodrome_volatile_exact [OF _ ex_v2_db_reads(3) ex_token0, of ex_aero 10000 1000000 10 2000000 9970]
  show ?thesis by (simp add: ex_aero_def)
qed

subsection \<open>Stable pools without a solution\<close>

text \<open>
  C23: \<^verbatim>\<open>_get_y\<close> answers 0 when the derivative rounds to zero (and after 255 steps without a
  solution), and the caller takes that 0 for the reserve left in the pool. So every stable
  pool of two 18-decimal tokens with reserves of dust is quoted as paying out its whole
  other reserve for any small input, the input 0 included.
\<close>

theorem aerodrome_dust_drained:
  assumes "af_stable I a" and "af_decimals I a = (18, 18)" and "unat (af_fee I a) \<le> 10000"
    and "get_reserves db a = Ok (r0, r1)" and "get_token0 db a = Ok t0"
    and "rin = (if t = t0 then r0 else r1)" and "rout = (if t = t0 then r1 else r0)"
    and "unat x + unat rin < 10 ^ 9" and "unat rout < 10 ^ 9"
  shows "aerodrome_out I db x t a = Ok rout"
proof -
  let ?f = "af_fee I a"
  let ?n = "x - (x * ?f) div 10000"
  have small: "unat u < 2 ^ 93" if "unat u < 10 ^ 9" for u :: u256 using that by simp
  have xf: "unat x * unat ?f < 10 ^ 9 * 10001" by (rule mult_lt_bounds) (use assms(3,8) in simp_all)
  have "unat x * unat ?f div 10000 \<le> unat x * 10000 div 10000"
    using assms(3) by (intro div_le_mono mult_le_mono) simp_all
  then have "(x * ?f) div 10000 \<le> x"
    using xf by (simp add: word_le_nat_alt unat_div_exact unat_mul_exact)
  then have "unat ?n \<le> unat x" by (simp add: unat_sub_exact)
  then have n: "unat (?n + rin) < 10 ^ 9" "unat ?n < 10 ^ 9"
    using assms(8) by (simp_all add: unat_add_exact)
  have sq: "(u * v) div e18 = 0" if "unat u < 10 ^ 9" "unat v < 10 ^ 9" for u v :: u256
  proof -
    have "unat u * unat v < 10 ^ 9 * 10 ^ 9" by (rule mult_lt_bounds [OF that])
    then have "unat ((u * v) div e18) = 0" by (simp add: unat_div_exact unat_mul_exact)
    then show ?thesis by (simp add: unsigned_eq_0_iff)
  qed
  have "aero_d (?n + rin) rout = 0"
    using sq n assms(9) by (simp add: aero_d_def)
  moreover have "255 = Suc 254" by simp
  ultimately have y: "get_y (?n + rin) xy rout True e18 e18 = Ok 0" for xy
    by (simp only: get_y_def get_y_loop.simps Let_def if_True simp_thms)
  have r: "unat rin < 10 ^ 9" using assms(8) by simp
  note sb = scale_back [OF small [OF n(2)]] scale_back [OF small [OF r]]
    scale_back [OF small [OF assms(9)]]
  show ?thesis
    using assms(1,2,4-7) sb y
    by (auto simp: aerodrome_out_def Let_def case_prod_unfold aero_k_18 split: if_splits)
qed

theorem aerodrome_dust_drained_witness:
  "aerodrome_out ex_aero_stable (ex_with ex_pool [(8, 1000 * 2 ^ 112 + 3000), (6, 10), (7, 20)]) 0 10 77
     = Ok 1000"
proof -
  let ?db = "ex_with ex_pool [(8, 1000 * 2 ^ 112 + 3000), (6, 10), (7, 20)]"
  have "get_reserves ?db 77 = Ok (3000, 1000)" "get_token0 ?db 77 = Ok 10"
    using ex_with_reads(1) [of ex_pool]
    by (simp_all add: get_reserves_eq get_token0_def ex_pool_def)
  from aerodrome_dust_drained [OF _ _ _ this refl refl, where I = ex_aero_stable and t = 10 and x = 0]
  show ?thesis by (simp add: ex_aero_stable_def)
qed

end
