(* ===== verification/Balancer.thy ===== *)
theory Balancer
  imports Pools
begin

text \<open>
  Balancer weighted pools and the fixed-point library under them
  (\<^verbatim>\<open>src/calculation/balancer.rs\<close>). \<open>PoolManager\<close> is defined nowhere in the repository;
  what \<open>get_balancer_pool\<close> returns is the record \<open>balancer_pool\<close>.

  The two unrolled ladders of \<open>if x >= x_n\<close> in \<^verbatim>\<open>exp\<close> and \<^verbatim>\<open>_ln\<close> are folds over the tables
  of their constants, and the unrolled Taylor terms folds over their divisors. \<open>None\<close> of
  \<open>lem_ln\<close> is unbounded recursion, which a negative argument causes; \<open>lem_pow\<close> never
  passes one.
\<close>

subsection \<open>Signed 256-bit arithmetic\<close>

text \<open>Division of \<open>I256\<close> truncates and panics on zero; \<open>MIN / -1\<close> wraps. The divisions by
  the library's constants cannot panic and use the quotient directly.\<close>

definition s_quot :: "i256 \<Rightarrow> i256 \<Rightarrow> i256" where
  "s_quot a b = word_of_int (sint a sdiv sint b)"

definition s_rem :: "i256 \<Rightarrow> i256 \<Rightarrow> i256" where
  "s_rem a b = word_of_int (sint a smod sint b)"

definition s_div :: "i256 \<Rightarrow> i256 \<Rightarrow> i256 res" where
  "s_div a b = (if b = 0 then panic Div_by_zero else Ok (s_quot a b))"

definition assert_that :: "bool \<Rightarrow> string \<Rightarrow> unit res" where
  "assert_that b msg = (if b then Ok () else panic (Assert_failed msg))"

subsection \<open>Constants\<close>

abbreviation one_18 :: i256 where "one_18 \<equiv> 1000000000000000000"
abbreviation one_20 :: i256 where "one_20 \<equiv> 100000000000000000000"
abbreviation one_36 :: i256 where "one_36 \<equiv> 1000000000000000000000000000000000000"

definition max_natural_exponent :: i256 where
  "max_natural_exponent = 130000000000000000000"

definition min_natural_exponent :: i256 where
  "min_natural_exponent = - 41000000000000000000"

definition ln_36_lower_bound :: i256 where
  "ln_36_lower_bound = 1000000000000000000 - 100000000000000000"

definition ln_36_upper_bound :: i256 where
  "ln_36_upper_bound = 1000000000000000000 + 100000000000000000"

definition mild_exponent_bound :: u256 where
  "mild_exponent_bound = 2 ^ 254 div 100000000000000000000"

definition lem_x0 :: i256 where "lem_x0 = 128000000000000000000"
definition lem_a0 :: i256 where
  "lem_a0 = 38877084059945950922200000000000000000000000000000000000"
definition lem_x1 :: i256 where "lem_x1 = 64000000000000000000"
definition lem_a1 :: i256 where "lem_a1 = 6235149080811616882910000000"

text \<open>\<open>(x_n, a_n)\<close> for n from 2 to 11, with 20 decimals; \<^verbatim>\<open>exp\<close> uses the first eight.\<close>

definition lem_table :: "(i256 \<times> i256) list" where
  "lem_table =
     [(3200000000000000000000, 7896296018268069516100000000000000),
      (1600000000000000000000, 888611052050787263676000000),
      (800000000000000000000, 298095798704172827474000),
      (400000000000000000000, 5459815003314423907810),
      (200000000000000000000, 738905609893065022723),
      (100000000000000000000, 271828182845904523536),
      (50000000000000000000, 164872127070012814685),
      (25000000000000000000, 128402541668774148407),
      (12500000000000000000, 113314845306682631683),
      (6250000000000000000, 106449445891785942956)]"

subsection \<open>The exponential\<close>

definition exp_step :: "i256 \<times> i256 \<Rightarrow> i256 \<times> i256 \<Rightarrow> i256 \<times> i256" where
  "exp_step xa s =
     (let (xn, an) = xa; (x, product) = s
      in if sint xn \<le> sint x then (x - xn, s_quot (product * an) one_20) else s)"

definition taylor_step :: "i256 \<Rightarrow> i256 \<Rightarrow> i256 \<times> i256 \<Rightarrow> i256 \<times> i256" where
  "taylor_step x n s =
     (let (term, series_sum) = s;
          term = s_quot (s_quot (term * x) one_20) n
      in (term, series_sum + term))"

definition taylor_series :: "i256 \<Rightarrow> i256" where
  "taylor_series x =
     (let (term, series_sum) =
            fold (taylor_step x) [2, 3, 4, 5, 6, 7, 8, 9, 10, 11, 12] (x, one_20 + x)
      in series_sum)"

definition exp_positive :: "i256 \<Rightarrow> i256" where
  "exp_positive x =
     (let (x, first_an) =
            (if sint lem_x0 \<le> sint x then (x - lem_x0, lem_a0)
             else if sint lem_x1 \<le> sint x then (x - lem_x1, lem_a1)
             else (x, 1));
          x = x * 100;
          (x, product) = fold exp_step (take 8 lem_table) (x, one_20)
      in s_quot (s_quot (product * taylor_series x) one_20 * first_an) 100)"

lemma sint_neg:
  fixes x :: "'a::len word"
  assumes "- (2 ^ (LENGTH('a) - 1)) < sint x"
  shows "sint (- x) = - sint x"
proof -
  have "- sint x < 2 ^ (LENGTH('a) - 1)" "- (2 ^ (LENGTH('a) - 1)) \<le> - sint x"
    using assms sint_lt [of x] by simp_all
  then have "sint (word_of_int (- sint x) :: 'a word) = - sint x" by (rule sint_in_range [rotated])
  then show ?thesis by simp
qed

function lem_exp :: "i256 \<Rightarrow> i256 res" where
  "lem_exp x =
     (if sint min_natural_exponent \<le> sint x \<and> sint x \<le> sint max_natural_exponent
      then if sint x < 0
           then rbind (lem_exp (- x)) (\<lambda>e. s_div (one_18 * one_18) e)
           else Ok (exp_positive x)
      else panic (Assert_failed ''INVALID_EXPONENT''))"
  by auto

termination
proof (relation "measure (\<lambda>x :: i256. if sint x < 0 then 1 else 0)")
  fix x :: i256
  assume *: "sint min_natural_exponent \<le> sint x \<and> sint x \<le> sint max_natural_exponent" "sint x < 0"
  then have "- (2 ^ 255) < sint x" by (simp add: min_natural_exponent_def)
  then have "sint (- x) = - sint x" by (intro sint_neg) simp
  with * show "(- x, x) \<in> measure (\<lambda>x :: i256. if sint x < 0 then 1 else 0)" by simp
qed simp

declare lem_exp.simps [simp del]

subsection \<open>The logarithms\<close>

definition ln_step :: "i256 \<times> i256 \<Rightarrow> i256 \<times> i256 \<Rightarrow> i256 \<times> i256" where
  "ln_step xa s =
     (let (xn, an) = xa; (a, sum) = s
      in if sint an \<le> sint a then (s_quot (a * one_20) an, sum + xn) else s)"

text \<open>A term of the logarithm's series: \<open>num\<close> times \<open>z^2\<close>, over \<open>n\<close>.\<close>

definition atanh_step :: "i256 \<Rightarrow> i256 \<Rightarrow> i256 \<Rightarrow> i256 \<times> i256 \<Rightarrow> i256 \<times> i256" where
  "atanh_step one z_squared n s =
     (let (num, series_sum) = s;
          num = s_quot (num * z_squared) one
      in (num, series_sum + s_quot num n))"

text \<open>The division by \<open>a_0\<close> or \<open>a_1\<close>, which are plain integers.\<close>

definition ln_coarse :: "i256 \<Rightarrow> i256 \<Rightarrow> i256 \<times> i256 \<Rightarrow> i256 \<times> i256" where
  "ln_coarse xn an s =
     (let (a, sum) = s
      in if sint (an * one_18) \<le> sint a then (s_quot a an, sum + xn) else s)"

text \<open>\<^verbatim>\<open>_ln\<close> of an argument of at least one.\<close>

definition ln_above_one :: "i256 \<Rightarrow> i256 res" where
  "ln_above_one a =
     (let (a, sum) = ln_coarse lem_x0 lem_a0 (a, 0);
          (a, sum) = ln_coarse lem_x1 lem_a1 (a, sum);
          (a, sum) = fold ln_step lem_table (a * 100, sum * 100)
      in rbind (s_div ((a - one_20) * one_20) (a + one_20)) (\<lambda>z.
         let z_squared = s_quot (z * z) one_20;
             (num, series_sum) = fold (atanh_step one_20 z_squared) [3, 5, 7, 9, 11] (z, z);
             series_sum = series_sum * 2
         in Ok (s_quot (sum + series_sum) 100)))"

partial_function (option) lem_ln :: "i256 \<Rightarrow> i256 res option" where
  "lem_ln a =
     (if sint a < sint one_18
      then (case s_div (one_18 * one_18) a of
              Inl e \<Rightarrow> Some (Inl e)
            | Inr b \<Rightarrow> Option.bind (lem_ln b) (\<lambda>r. Some (rbind r (\<lambda>v. Ok (- v)))))
      else Some (ln_above_one a))"

definition lem_ln_36 :: "i256 \<Rightarrow> i256 res" where
  "lem_ln_36 x =
     (let x = x * one_18
      in rbind (s_div ((x - one_36) * one_36) (x + one_36)) (\<lambda>z.
         let z_squared = s_quot (z * z) one_36;
             (num, series_sum) =
               fold (\<lambda>n. atanh_step one_36 z_squared (2 * n + 1)) [1, 2, 3, 4, 5, 6, 7] (z, z)
         in Ok (series_sum * 2)))"

subsection \<open>Powers\<close>

definition pow_log :: "i256 \<Rightarrow> i256 \<Rightarrow> i256 res option" where
  "pow_log x y =
     (if sint ln_36_lower_bound < sint x \<and> sint x < sint ln_36_upper_bound
      then Some (rbind (lem_ln_36 x) (\<lambda>ln_36_x.
             Ok (s_quot ln_36_x one_18 * y + s_quot (s_rem ln_36_x one_18 * y) one_18)))
      else map_option (\<lambda>r. rbind r (\<lambda>l. Ok (l * y))) (lem_ln x))"

definition s_abs :: "i256 \<Rightarrow> i256" where
  "s_abs x = (if sint x < 0 then - x else x)"

definition lem_pow :: "u256 \<Rightarrow> u256 \<Rightarrow> u256 res option" where
  "lem_pow x y =
     (if y = 0 then Some (Ok e18)
      else if x = 0 then Some (Ok 0)
      else if \<not> x < 2 ^ 255 then Some (panic (Assert_failed ''X_OUT_OF_BOUNDS''))
      else if \<not> y < mild_exponent_bound then Some (panic (Assert_failed ''Y_OUT_OF_BOUNDS''))
      else map_option (\<lambda>r.
        rbind r (\<lambda>logx_times_y.
        let logx_times_y = s_quot logx_times_y one_18
        in rbind (assert_that (sint min_natural_exponent \<le> sint logx_times_y \<and>
                               sint logx_times_y \<le> sint max_natural_exponent)
                    ''PRODUCT_OUT_OF_BOUNDS'') (\<lambda>_.
           rbind (lem_exp logx_times_y) (\<lambda>exp_result.
           if sint (s_abs exp_result) < 0 then panic Unwrap_err else Ok (s_abs exp_result)))))
        (pow_log x y))"

subsection \<open>Fixed-point operations\<close>

definition fp_scale :: "u256 \<Rightarrow> u8 \<Rightarrow> u256 res" where
  "fp_scale value decimals =
     (if sint decimals < 0 then panic Conversion_out_of_range
      else Ok (value * 10 ^ unat decimals))"

definition div_up :: "u256 \<Rightarrow> u256 \<Rightarrow> u256 res" where
  "div_up a b =
     (if a = 0 then Ok 0
      else let a_inflated = a * e18
           in rbind (udiv (a_inflated - 1) b) (\<lambda>q. Ok (q + 1)))"

definition div_down :: "u256 \<Rightarrow> u256 \<Rightarrow> u256 res" where
  "div_down a b =
     (if a = 0 then Ok 0
      else let a_inflated = a * e18 in udiv a_inflated b)"

definition mul_up :: "u256 \<Rightarrow> u256 \<Rightarrow> u256" where
  "mul_up a b =
     (let product = a * b in if product = 0 then 0 else (product - 1) div e18 + 1)"

definition mul_down :: "u256 \<Rightarrow> u256 \<Rightarrow> u256" where
  "mul_down a b = (let product = a * b in product div e18)"

definition fp_complement :: "u256 \<Rightarrow> u256" where
  "fp_complement x = (if x < e18 then e18 - x else 0)"

definition pow_up :: "u256 \<Rightarrow> u256 \<Rightarrow> u256 res option" where
  "pow_up x y =
     (let max_pow_relative_error = 10000; two = e18 * 2; four = e18 * 4
      in if y = e18 then Some (Ok x)
         else if y = two then Some (Ok (mul_up x x))
         else if y = four then (let square = mul_up x x in Some (Ok (mul_up square square)))
         else map_option (\<lambda>r. rbind r (\<lambda>raw.
                let max_error = mul_up raw max_pow_relative_error + 1
                in Ok (raw + max_error))) (lem_pow x y))"

subsection \<open>The swap\<close>

record balancer_pool =
  bp_token_index :: "address \<Rightarrow> nat option"
  bp_balances :: "u256 list"
  bp_weights :: "u256 list"
  bp_swap_fee :: u256
  bp_token0_decimals :: u8

definition list_index :: "'a list \<Rightarrow> nat \<Rightarrow> 'a res" where
  "list_index xs i = (if i < length xs then Ok (xs ! i) else panic Index_out_of_range)"

text \<open>The amount that enters the pricing formula.\<close>

definition balancer_amount :: "balancer_pool \<Rightarrow> u256 \<Rightarrow> u256 res" where
  "balancer_amount pool amount_in =
     (let scaling_factor = 18 - bp_token0_decimals pool
      in rbind (fp_scale amount_in scaling_factor) (\<lambda>scaled_amount_in.
         let scaled_amount_in_without_fees =
               scaled_amount_in - mul_up scaled_amount_in (bp_swap_fee pool)
         in fp_scale scaled_amount_in_without_fees scaling_factor))"

definition balancer_v2_out ::
  "balancer_pool \<Rightarrow> u256 \<Rightarrow> address \<Rightarrow> address \<Rightarrow> u256 res option"
where
  "balancer_v2_out pool amount_in token_in token_out =
     (case rbind (unwrap_opt (bp_token_index pool token_in)) (\<lambda>token_in_index.
           rbind (unwrap_opt (bp_token_index pool token_out)) (\<lambda>token_out_index.
           rbind (list_index (bp_balances pool) token_in_index) (\<lambda>balance_in.
           rbind (list_index (bp_balances pool) token_out_index) (\<lambda>balance_out.
           rbind (list_index (bp_weights pool) token_in_index) (\<lambda>weight_in.
           rbind (list_index (bp_weights pool) token_out_index) (\<lambda>weight_out.
           rbind (balancer_amount pool amount_in) (\<lambda>amount_in.
           let denominator = balance_in + amount_in
           in rbind (div_up balance_in denominator) (\<lambda>base.
              rbind (div_down weight_in weight_out) (\<lambda>exponent.
                Ok (balance_out, base, exponent)))))))))) of
        Inl e \<Rightarrow> Some (Inl e)
      | Inr (balance_out, base, exponent) \<Rightarrow>
          map_option (\<lambda>r. rbind r (\<lambda>power. Ok (mul_down balance_out (fp_complement power))))
            (pow_up base exponent))"

subsection \<open>Exact signed arithmetic\<close>

named_theorems sint_exact \<open>signed operations that agree with the integers\<close>

lemma s_quot_exact [sint_exact]:
  assumes "0 \<le> sint a" and "0 < sint b"
  shows "sint (s_quot a b) = sint a div sint b"
proof -
  have "sint a sdiv sint b = sint a div sint b"
    using assms by (simp add: signed_divide_int_def sgn_if)
  moreover have "0 \<le> sint a div sint b" using assms by (simp add: pos_imp_zdiv_nonneg_iff)
  moreover have "sint a div sint b \<le> sint a"
    using assms int_div_le_self [of "sint a" "sint b"] by (cases "sint a = 0") simp_all
  then have "sint a div sint b < 2 ^ 255" using sint_lt [of a] by simp
  ultimately show ?thesis by (simp add: s_quot_def sint_in_range)
qed

lemma s_mul_exact [sint_exact]:
  fixes a b :: i256
  assumes "0 \<le> sint a" and "0 \<le> sint b" and "sint a * sint b < 2 ^ 255"
  shows "sint (a * b) = sint a * sint b"
proof -
  have "0 \<le> sint a * sint b" using assms by simp
  then have "sint (word_of_int (sint a * sint b) :: i256) = sint a * sint b"
    using assms(3) by (intro sint_in_range) simp_all
  then show ?thesis by simp
qed

lemma s_add_exact [sint_exact]:
  fixes a b :: i256
  assumes "- (2 ^ 255) \<le> sint a + sint b" and "sint a + sint b < 2 ^ 255"
  shows "sint (a + b) = sint a + sint b"
  using sint_in_range [of "sint a + sint b", where ?'a = 256] assms by simp

lemma s_sub_exact [sint_exact]:
  fixes a b :: i256
  assumes "- (2 ^ 255) \<le> sint a - sint b" and "sint a - sint b < 2 ^ 255"
  shows "sint (a - b) = sint a - sint b"
  using sint_in_range [of "sint a - sint b", where ?'a = 256] assms by simp

subsection \<open>The exponential without wrap-around\<close>

text \<open>The same computation on the integers.\<close>

definition exp_step_int :: "int \<times> int \<Rightarrow> int \<times> int \<Rightarrow> int \<times> int" where
  "exp_step_int xa s =
     (if fst xa \<le> fst s then (fst s - fst xa, snd s * snd xa div 10 ^ 20) else s)"

definition taylor_step_int :: "int \<Rightarrow> int \<Rightarrow> int \<times> int \<Rightarrow> int \<times> int" where
  "taylor_step_int x n s =
     (let t = fst s * x div 10 ^ 20 div n in (t, snd s + t))"

lemma step_simps:
  "exp_step (xn, an) (x, p) =
     (if sint xn \<le> sint x then (x - xn, s_quot (p * an) one_20) else (x, p))"
  "exp_step_int (i, j) (k, l) = (if i \<le> k then (k - i, l * j div 10 ^ 20) else (k, l))"
  "taylor_step x n (t, u) =
     (s_quot (s_quot (t * x) one_20) n, u + s_quot (s_quot (t * x) one_20) n)"
  "taylor_step_int i m (k, l) = (k * i div 10 ^ 20 div m, l + k * i div 10 ^ 20 div m)"
  by (simp_all add: exp_step_def exp_step_int_def taylor_step_def taylor_step_int_def Let_def)

definition table_int :: "(i256 \<times> i256) list \<Rightarrow> (int \<times> int) list" where
  "table_int t = map (\<lambda>(x, a). (sint x, sint a)) t"

definition taylor_spec :: "int \<Rightarrow> int" where
  "taylor_spec x = snd (fold (taylor_step_int x) [2..12] (x, 10 ^ 20 + x))"

definition exp_spec :: "int \<Rightarrow> int" where
  "exp_spec x =
     (let (x, first_an) =
            (if sint lem_x0 \<le> x then (x - sint lem_x0, sint lem_a0)
             else if sint lem_x1 \<le> x then (x - sint lem_x1, sint lem_a1)
             else (x, 1));
          (x, product) = fold exp_step_int (table_int (take 8 lem_table)) (x * 100, 10 ^ 20)
      in product * taylor_spec x div 10 ^ 20 * first_an div 100)"

text \<open>
  A ladder takes an argument below \<open>X\<close> and a product of at most \<open>B\<close> to an argument below
  \<open>X'\<close> and a product of at most \<open>B'\<close>, and no multiplication on the way leaves 255 bits.
\<close>

fun ladder :: "(int \<times> int) list \<Rightarrow> int \<Rightarrow> int \<Rightarrow> int \<Rightarrow> int \<Rightarrow> bool" where
  "ladder [] X B X' B' = (X \<le> X' \<and> B \<le> B')"
| "ladder (xa # t) X B X' B' =
     (0 < fst xa \<and> X \<le> 2 * fst xa \<and> 10 ^ 20 \<le> snd xa \<and> B * snd xa < 2 ^ 255 \<and>
      ladder t (fst xa) (B * snd xa div 10 ^ 20) X' B')"

lemma exp_ladder:
  assumes "ladder (table_int t) X B X' B'"
    and "0 \<le> sint x" and "sint x < X" and "10 ^ 20 \<le> sint p" and "sint p \<le> B"
    and "fold exp_step t (x, p) = (y, q)"
  shows "(sint y, sint q) = fold exp_step_int (table_int t) (sint x, sint p) \<and>
         0 \<le> sint y \<and> sint y < X' \<and> 10 ^ 20 \<le> sint q \<and> sint q \<le> B'"
  using assms
proof (induction t arbitrary: x p X B)
  case Nil
  then show ?case by (simp add: table_int_def)
next
  case (Cons xa t)
  obtain xn an where xa: "xa = (xn, an)" by force
  with Cons.prems have l: "0 < sint xn" "X \<le> 2 * sint xn" "10 ^ 20 \<le> sint an"
    "B * sint an < 2 ^ 255" "ladder (table_int t) (sint xn) (B * sint an div 10 ^ 20) X' B'"
    by (simp_all add: table_int_def)
  have grow: "b \<le> b * sint an div 10 ^ 20" if "0 \<le> b" for b
  proof -
    have "b * 10 ^ 20 div 10 ^ 20 \<le> b * sint an div 10 ^ 20"
      using that l(3) by (intro zdiv_mono1 mult_left_mono) simp_all
    then show ?thesis by simp
  qed
  show ?case
  proof (cases "sint xn \<le> sint x")
    case True
    have pa: "sint p * sint an \<le> B * sint an"
      using Cons.prems(5) l(3) by (intro mult_right_mono) simp_all
    have "sint (p * an) = sint p * sint an"
      using Cons.prems(4) l(3) le_less_trans [OF pa l(4)] by (intro s_mul_exact) simp_all
    then have q: "sint (s_quot (p * an) one_20) = sint p * sint an div 10 ^ 20"
      using Cons.prems(4) l(3) by (subst s_quot_exact) simp_all
    have d: "sint (x - xn) = sint x - sint xn"
      by (rule s_sub_exact) (use True Cons.prems(2) l(1) sint_lt [of x] in simp_all)
    have st: "fold exp_step t (x - xn, s_quot (p * an) one_20) = (y, q)"
      using Cons.prems(6) xa True by (simp add: step_simps)
    have "10 ^ 20 \<le> sint p * sint an div 10 ^ 20"
      using grow [of "sint p"] Cons.prems(4) by simp
    moreover have "sint p * sint an div 10 ^ 20 \<le> B * sint an div 10 ^ 20"
      using pa by (intro zdiv_mono1) simp_all
    ultimately show ?thesis
      using Cons.IH [OF l(5) _ _ _ _ st] d q True Cons.prems(3) l(2) xa
      by (simp add: table_int_def step_simps)
  next
    case False
    have "B \<le> B * sint an div 10 ^ 20" using grow [of B] Cons.prems(4,5) by simp
    then show ?thesis
      using Cons.IH [OF l(5) Cons.prems(2) _ Cons.prems(4)] False Cons.prems(5,6) xa
      by (simp add: table_int_def step_simps)
  qed
qed

lemma exp_skip:
  assumes "\<forall>xa \<in> set t. sint x < sint (fst xa)"
  shows "fold exp_step t (x, p) = (x, p)"
    and "fold exp_step_int (table_int t) (sint x, r) = (sint x, r)"
  using assms by (induction t) (auto simp: exp_step_def exp_step_int_def table_int_def)

text \<open>The Taylor terms shrink by a factor of eight, which bounds their sum.\<close>

lemma taylor_fold:
  assumes "0 \<le> sint x" and "sint x < 25 * 10 ^ 18" and "\<forall>n \<in> set ns. 2 \<le> sint n"
    and "0 \<le> sint t" and "sint t < 25 * 10 ^ 18" and "0 \<le> sint s" and "7 * sint s + sint t \<le> 9 * 10 ^ 20"
    and "fold (taylor_step x) ns (t, s) = (t', s')"
  shows "(sint t', sint s') = fold (taylor_step_int (sint x)) (map sint ns) (sint t, sint s) \<and>
         sint s \<le> sint s' \<and> 7 * sint s' \<le> 9 * 10 ^ 20"
  using assms(3-)
proof (induction ns arbitrary: t s)
  case Nil
  then show ?case by simp
next
  case (Cons n ns)
  let ?m = "sint t * sint x div 10 ^ 20"
  have "sint t * sint x \<le> sint t * (25 * 10 ^ 18)"
    using assms(2) Cons.prems(2) by (intro mult_left_mono) simp_all
  then have tx: "0 \<le> sint t * sint x" "sint t * sint x \<le> sint t * (25 * 10 ^ 18)"
    using assms(1) Cons.prems(2) by simp_all
  have "sint (t * x) = sint t * sint x"
    by (rule s_mul_exact) (use tx Cons.prems(2,3) assms(1) in simp_all)
  then have m: "sint (s_quot (t * x) one_20) = ?m"
    using tx by (subst s_quot_exact) simp_all
  have mb: "0 \<le> ?m" "4 * ?m \<le> sint t" using tx by (simp_all add: pos_imp_zdiv_nonneg_iff)
  have n2: "2 \<le> sint n" using Cons.prems(1) by simp
  have q: "sint (s_quot (s_quot (t * x) one_20) n) = ?m div sint n"
    using m mb n2 by (subst s_quot_exact) simp_all
  have "?m div sint n \<le> ?m div 2" using mb(1) n2 by (intro zdiv_mono2) simp_all
  then have e: "0 \<le> ?m div sint n" "8 * (?m div sint n) \<le> sint t"
    using mb n2 by (simp_all add: pos_imp_zdiv_nonneg_iff)
  let ?t = "s_quot (s_quot (t * x) one_20) n"
  have s: "sint (s + ?t) = sint s + ?m div sint n"
    by (subst s_add_exact) (use q e Cons.prems(2-5) in simp_all)
  have f: "fold (taylor_step x) ns (?t, s + ?t) = (t', s')"
    using Cons.prems(6) by (simp add: step_simps)
  show ?case
    using Cons.IH [OF _ _ _ _ _ f] Cons.prems(1-5) q s e
    by (simp add: step_simps)
qed

lemma taylor_sum:
  assumes "0 \<le> sint r" and "sint r < 25 * 10 ^ 18"
  shows "sint (taylor_series r) = taylor_spec (sint r)"
    and "10 ^ 20 \<le> sint (taylor_series r)"
    and "sint (taylor_series r) \<le> 128571428571428571428"
proof -
  let ?ns = "[2, 3, 4, 5, 6, 7, 8, 9, 10, 11, 12] :: i256 list"
  obtain t' s' where f: "fold (taylor_step r) ?ns (r, one_20 + r) = (t', s')" by force
  have o: "sint (one_20 + r) = 10 ^ 20 + sint r"
    by (subst s_add_exact) (use assms in simp_all)
  have n: "map sint ?ns = [2..12]" by code_simp
  have e: "(sint t', sint s') = fold (taylor_step_int (sint r)) (map sint ?ns) (sint r, sint (one_20 + r)) \<and>
      sint (one_20 + r) \<le> sint s' \<and> 7 * sint s' \<le> 9 * 10 ^ 20"
    by (rule taylor_fold [OF assms _ assms _ _ f]) (use assms o in simp_all)
  have t: "taylor_series r = s'" by (simp only: taylor_series_def f) simp
  show "sint (taylor_series r) = taylor_spec (sint r)"
    using e unfolding t taylor_spec_def n o by (metis snd_conv)
  show "10 ^ 20 \<le> sint (taylor_series r)" using e assms(1) unfolding t o by linarith
  show "sint (taylor_series r) \<le> 128571428571428571428" using e unfolding t by simp
qed

lemma exp_tail:
  assumes r: "0 \<le> sint r" "sint r < 25 * 10 ^ 18" and p: "10 ^ 20 \<le> sint p" "sint p \<le> B"
    and u: "u = taylor_series r"
    and fit: "B * 128571428571428571428 < 2 ^ 255" "1 \<le> sint f"
      "B * 128571428571428571428 div 10 ^ 20 * sint f < 2 ^ 255"
  shows "sint (s_quot (s_quot (p * u) one_20 * f) 100) =
           sint p * taylor_spec (sint r) div 10 ^ 20 * sint f div 100 \<and>
         10 ^ 18 \<le> sint (s_quot (s_quot (p * u) one_20 * f) 100)"
proof -
  note t = taylor_sum [OF r, folded u]
  have "sint p * sint u \<le> B * 128571428571428571428"
    by (rule mult_mono) (use p t in simp_all)
  moreover have "10 ^ 20 * 10 ^ 20 \<le> sint p * sint u"
    by (rule mult_mono) (use p t(2) in simp_all)
  ultimately have pu: "sint p * sint u \<le> B * 128571428571428571428" "10 ^ 20 * 10 ^ 20 \<le> sint p * sint u" .
  have m: "sint (p * u) = sint p * sint u"
    using p t le_less_trans [OF pu(1) fit(1)] by (intro s_mul_exact) simp_all
  then have q: "sint (s_quot (p * u) one_20) = sint p * sint u div 10 ^ 20"
    using pu(2) by (subst s_quot_exact) simp_all
  have qb: "sint p * sint u div 10 ^ 20 \<le> B * 128571428571428571428 div 10 ^ 20"
    using pu(1) by (rule zdiv_mono1) simp
  have "10 ^ 20 * 10 ^ 20 div 10 ^ 20 \<le> sint p * sint u div 10 ^ 20"
    using pu(2) by (rule zdiv_mono1) simp
  then have ql: "10 ^ 20 \<le> sint p * sint u div 10 ^ 20" by simp
  have qf: "sint p * sint u div 10 ^ 20 * sint f \<le> B * 128571428571428571428 div 10 ^ 20 * sint f"
    using qb fit(2) by (intro mult_right_mono) simp_all
  have mf: "sint (s_quot (p * u) one_20 * f) = sint p * sint u div 10 ^ 20 * sint f"
    using ql fit(2) q le_less_trans [OF qf fit(3)] by (subst s_mul_exact) simp_all
  have "10 ^ 20 * 1 \<le> sint p * sint u div 10 ^ 20 * sint f"
    using ql fit(2) by (intro mult_mono) simp_all
  then have g: "10 ^ 20 \<le> sint p * sint u div 10 ^ 20 * sint f" by simp
  have z: "sint (s_quot (s_quot (p * u) one_20 * f) 100) = sint p * sint u div 10 ^ 20 * sint f div 100"
    using mf g by (subst s_quot_exact) simp_all
  have "10 ^ 20 div 100 \<le> sint p * sint u div 10 ^ 20 * sint f div 100"
    using g by (rule zdiv_mono1) simp
  with z t show ?thesis by simp
qed

lemma ladder_all: "ladder (table_int (take 8 lem_table)) (6400 * 10 ^ 18) (10 ^ 20) (25 * 10 ^ 18)
    485593898670303750249326089141478710917884464781"
  by (simp add: lem_table_def table_int_def)

lemma ladder_top: "ladder (table_int (drop 5 (take 8 lem_table))) (200 * 10 ^ 18) (10 ^ 20) (25 * 10 ^ 18)
    575460267600573043684"
  by (simp add: lem_table_def table_int_def)

lemma exp_ladder_low:
  assumes "0 \<le> sint x" and "sint x < 200 * 10 ^ 18"
    and "fold exp_step (take 8 lem_table) (x, one_20) = (y, q)"
  shows "(sint y, sint q) = fold exp_step_int (table_int (take 8 lem_table)) (sint x, 10 ^ 20) \<and>
         0 \<le> sint y \<and> sint y < 25 * 10 ^ 18 \<and> 10 ^ 20 \<le> sint q \<and> sint q \<le> 575460267600573043684"
proof -
  let ?a = "take 5 (take 8 lem_table)" and ?b = "drop 5 (take 8 lem_table)"
  have ab: "take 8 lem_table = ?a @ ?b" by (simp only: append_take_drop_id)
  have low: "\<forall>xa \<in> set ?a. sint x < sint (fst xa)"
    using assms(2) by (simp add: lem_table_def)
  have w: "fold exp_step (take 8 lem_table) (x, one_20) = fold exp_step ?b (x, one_20)"
    by (subst ab) (simp only: fold_append comp_apply exp_skip(1) [OF low])
  have i: "fold exp_step_int (table_int (take 8 lem_table)) (sint x, 10 ^ 20) =
      fold exp_step_int (table_int ?b) (sint x, 10 ^ 20)"
    by (subst ab)
       (simp only: table_int_def map_append fold_append comp_apply
          exp_skip(2) [OF low, unfolded table_int_def])
  show ?thesis
    using exp_ladder [OF ladder_top assms(1,2) _ _ assms(3) [unfolded w]] unfolding i by simp
qed

text \<open>The largest argument takes exactly one step.\<close>

lemma exp_ladder_end:
  "fold exp_step (take 8 lem_table) (200000000000000000000, one_20) = (0, 738905609893065022723)"
proof -
  have "s_quot (one_20 * 738905609893065022723) one_20 = 738905609893065022723"
    by code_simp
  then show ?thesis by (simp add: lem_table_def step_simps)
qed

lemma exp_ladder_end_int:
  "fold exp_step_int (table_int (take 8 lem_table)) (200000000000000000000, 10 ^ 20) =
     (0, 738905609893065022723)"
  by (simp add: lem_table_def table_int_def step_simps)

lemma exp_ladder_top:
  assumes "0 \<le> sint x" and "sint x \<le> 200 * 10 ^ 18"
    and "fold exp_step (take 8 lem_table) (x, one_20) = (y, q)"
  shows "(sint y, sint q) = fold exp_step_int (table_int (take 8 lem_table)) (sint x, 10 ^ 20) \<and>
         0 \<le> sint y \<and> sint y < 25 * 10 ^ 18 \<and> 10 ^ 20 \<le> sint q \<and> sint q \<le> 738905609893065022723"
proof (cases "sint x = sint (200000000000000000000 :: i256)")
  case True
  then have x: "x = 200000000000000000000" by (rule signed_word_eqI)
  have n: "sint (200000000000000000000 :: i256) = 200000000000000000000"
    "sint (738905609893065022723 :: i256) = 738905609893065022723" by simp_all
  from assms(3) have "y = 0" "q = 738905609893065022723"
    unfolding x exp_ladder_end by simp_all
  then show ?thesis by (simp add: x n exp_ladder_end_int [simplified])
next
  case False
  then have "sint x < 200 * 10 ^ 18" using assms(2) by simp
  from exp_ladder_low [OF assms(1) this assms(3)] show ?thesis by simp
qed

lemma exp_positive_exact:
  assumes "0 \<le> sint x" and "sint x \<le> 130 * 10 ^ 18"
  shows "sint (exp_positive x) = exp_spec (sint x) \<and> 10 ^ 18 \<le> sint (exp_positive x)"
proof -
  define w where "w = (if sint lem_x0 \<le> sint x then x - lem_x0
                       else if sint lem_x1 \<le> sint x then x - lem_x1 else x)"
  define f where "f = (if sint lem_x0 \<le> sint x then lem_a0
                       else if sint lem_x1 \<le> sint x then lem_a1 else 1)"
  have c: "sint lem_x0 = 128 * 10 ^ 18" "sint lem_x1 = 64 * 10 ^ 18"
    by (simp_all add: lem_x0_def lem_x1_def)
  have w: "sint w = (if 128 * 10 ^ 18 \<le> sint x then sint x - 128 * 10 ^ 18
                     else if 64 * 10 ^ 18 \<le> sint x then sint x - 64 * 10 ^ 18 else sint x)"
    using assms c by (auto simp: w_def s_sub_exact)
  have wb: "0 \<le> sint w" "sint w < 64 * 10 ^ 18" "128 * 10 ^ 18 \<le> sint x \<Longrightarrow> sint w \<le> 2 * 10 ^ 18"
    using assms by (simp_all add: w)
  have y: "sint (w * 100) = sint w * 100"
    by (subst s_mul_exact) (use wb in simp_all)
  obtain r p where rp: "fold exp_step (take 8 lem_table) (w * 100, one_20) = (r, p)" by force
  have word: "exp_positive x = s_quot (s_quot (p * taylor_series r) one_20 * f) 100"
    using rp by (simp add: exp_positive_def w_def f_def Let_def split: if_splits)
  have int: "exp_spec (sint x) =
      (let (x, product) = fold exp_step_int (table_int (take 8 lem_table)) (sint w * 100, 10 ^ 20)
       in product * taylor_spec x div 10 ^ 20 * sint f div 100)"
    by (simp add: exp_spec_def w f_def c Let_def)
  have "(sint r, sint p) = fold exp_step_int (table_int (take 8 lem_table)) (sint w * 100, 10 ^ 20) \<and>
      sint (s_quot (s_quot (p * taylor_series r) one_20 * f) 100) =
        sint p * taylor_spec (sint r) div 10 ^ 20 * sint f div 100 \<and>
      10 ^ 18 \<le> sint (s_quot (s_quot (p * taylor_series r) one_20 * f) 100)"
  proof (cases "128 * 10 ^ 18 \<le> sint x")
    case True
    then have f: "sint f = 38877084059945950922200000000000000000000000000000000000"
      by (simp add: f_def c lem_a0_def)
    have e: "(sint r, sint p) = fold exp_step_int (table_int (take 8 lem_table)) (sint (w * 100), 10 ^ 20) \<and>
         0 \<le> sint r \<and> sint r < 25 * 10 ^ 18 \<and> 10 ^ 20 \<le> sint p \<and> sint p \<le> 738905609893065022723"
      by (rule exp_ladder_top [OF _ _ rp]) (use y wb True in simp_all)
    then have "0 \<le> sint r" "sint r < 25 * 10 ^ 18" "10 ^ 20 \<le> sint p" "sint p \<le> 738905609893065022723"
      by blast+
    from exp_tail [OF this refl, of f] e y show ?thesis by (simp add: f)
  next
    case False
    then have f: "1 \<le> sint f" "sint f \<le> 6235149080811616882910000000"
      by (simp_all add: f_def c lem_a1_def)
    let ?B = "485593898670303750249326089141478710917884464781"
    have e: "(sint r, sint p) = fold exp_step_int (table_int (take 8 lem_table)) (sint (w * 100), sint one_20) \<and>
         0 \<le> sint r \<and> sint r < 25 * 10 ^ 18 \<and> 10 ^ 20 \<le> sint p \<and> sint p \<le> ?B"
      by (rule exp_ladder [OF ladder_all _ _ _ _ rp]) (use y wb in simp_all)
    then have b: "0 \<le> sint r" "sint r < 25 * 10 ^ 18" "10 ^ 20 \<le> sint p" "sint p \<le> ?B"
      by blast+
    have "?B * 128571428571428571428 div 10 ^ 20 * sint f \<le>
        ?B * 128571428571428571428 div 10 ^ 20 * 6235149080811616882910000000"
      using f by (intro mult_left_mono) simp_all
    also have "\<dots> < 2 ^ 255" by simp
    finally have "?B * 128571428571428571428 div 10 ^ 20 * sint f < 2 ^ 255" .
    from exp_tail [OF b refl _ f(1) this] e y show ?thesis by simp
  qed
  then show ?thesis unfolding word int by (metis (mono_tags, lifting) case_prod_conv)
qed

lemma lem_exp_cases:
  "case lem_exp x of
     Inl e \<Rightarrow> e = Panic (Assert_failed ''INVALID_EXPONENT'') \<and>
              (sint x < - 41 * 10 ^ 18 \<or> 130 * 10 ^ 18 < sint x)
   | Inr r \<Rightarrow> - 41 * 10 ^ 18 \<le> sint x \<and> sint x \<le> 130 * 10 ^ 18 \<and>
              (if 0 \<le> sint x then sint r = exp_spec (sint x) \<and> 10 ^ 18 \<le> sint r
               else sint r = 10 ^ 36 div exp_spec (- sint x) \<and> 0 \<le> sint r \<and> sint r \<le> 10 ^ 18)"
proof -
  have b: "sint min_natural_exponent = - 41 * 10 ^ 18" "sint max_natural_exponent = 130 * 10 ^ 18"
    by (simp_all add: min_natural_exponent_def max_natural_exponent_def)
  have pos: "lem_exp y = Ok (exp_positive y)" if "0 \<le> sint y" "sint y \<le> 130 * 10 ^ 18" for y
    using that by (subst lem_exp.simps) (simp add: b)
  show ?thesis
  proof (cases "0 \<le> sint x")
    case True
    then show ?thesis
      using pos [of x] exp_positive_exact [of x]
      by (cases "sint x \<le> 130 * 10 ^ 18") (auto simp: lem_exp.simps [of x] b)
  next
    case neg: False
    show ?thesis
    proof (cases "- 41 * 10 ^ 18 \<le> sint x")
      case True
      then have n: "sint (- x) = - sint x" by (intro sint_neg) simp
      let ?e = "exp_positive (- x)"
      have e: "sint ?e = exp_spec (- sint x)" "10 ^ 18 \<le> sint ?e"
        using exp_positive_exact [of "- x"] n neg True by simp_all
      have "lem_exp (- x) = Ok ?e" using pos [of "- x"] n neg True by simp
      then have l: "lem_exp x = s_div (one_18 * one_18) ?e"
        using neg True by (simp add: lem_exp.simps [of x] b)
      have "?e \<noteq> 0" using e(2) by auto
      moreover have q: "sint (s_quot (one_18 * one_18) ?e) = 10 ^ 36 div sint ?e"
        using e(2) by (subst s_quot_exact) simp_all
      moreover have "10 ^ 36 div sint ?e \<le> 10 ^ 36 div 10 ^ 18"
        using e(2) by (intro zdiv_mono2) simp_all
      moreover have "0 \<le> 10 ^ 36 div sint ?e"
        using e(2) by (simp add: pos_imp_zdiv_nonneg_iff)
      ultimately show ?thesis using neg True l e(1) by (simp add: s_div_def)
    next
      case False
      then show ?thesis using neg by (simp add: lem_exp.simps [of x] b)
    qed
  qed
qed

text \<open>
  C15: \<^verbatim>\<open>exp\<close> panics exactly outside its range. Inside it no operation wraps around: the word
  computation is the integer one, \<open>exp_spec\<close>, for a nonnegative argument, and its
  reciprocal for a negative one; the result is at least one, respectively at most one.
\<close>

theorem lem_exp_exact:
  "case lem_exp x of
     Inl e \<Rightarrow> e = Panic (Assert_failed ''INVALID_EXPONENT'') \<and>
              (sint x < - 41 * 10 ^ 18 \<or> 130 * 10 ^ 18 < sint x)
   | Inr r \<Rightarrow> - 41 * 10 ^ 18 \<le> sint x \<and> sint x \<le> 130 * 10 ^ 18 \<and>
              (if 0 \<le> sint x then sint r = exp_spec (sint x) \<and> 10 ^ 18 \<le> sint r
               else sint r = 10 ^ 36 div exp_spec (- sint x) \<and> 0 \<le> sint r \<and> sint r \<le> 10 ^ 18)"
  using lem_exp_cases [of x] by simp

text \<open>\<open>e^0\<close> is one.\<close>

lemma lem_exp_zero: "lem_exp 0 = Ok one_18"
  by (subst lem_exp.simps) code_simp

subsection \<open>The logarithms are total\<close>

lemma ln_fold_bounds:
  assumes "\<forall>xa \<in> set t. 10 ^ 20 \<le> sint (snd xa)"
    and "0 \<le> sint a" and "sint a < 10 ^ 48" and "fold ln_step t (a, s) = (b, u)"
  shows "0 \<le> sint b \<and> sint b < 10 ^ 48"
  using assms
proof (induction t arbitrary: a s)
  case Nil
  then show ?case by simp
next
  case (Cons xa t)
  obtain xn an where xa: "xa = (xn, an)" by force
  with Cons.prems have an: "10 ^ 20 \<le> sint an" by simp
  have m: "sint (a * one_20) = sint a * 10 ^ 20"
    by (subst s_mul_exact) (use Cons.prems in simp_all)
  have q: "sint (s_quot (a * one_20) an) = sint a * 10 ^ 20 div sint an"
    using m an Cons.prems(2) by (subst s_quot_exact) simp_all
  have "sint a * 10 ^ 20 div sint an \<le> sint a * 10 ^ 20 div 10 ^ 20"
    using an Cons.prems(2) by (intro zdiv_mono2) simp_all
  then have "0 \<le> sint (s_quot (a * one_20) an)" "sint (s_quot (a * one_20) an) < 10 ^ 48"
    using q an Cons.prems(2,3) by (simp_all add: pos_imp_zdiv_nonneg_iff)
  with Cons show ?case by (auto simp: xa ln_step_def Let_def split: if_splits)
qed

lemma pos_plus_nonzero:
  assumes "0 \<le> sint a" and "0 < sint b" and "sint a + sint b < 2 ^ 255"
  shows "a + b \<noteq> (0 :: i256)"
proof
  assume "a + b = 0"
  then have "sint (a + b) = 0" by simp
  moreover have "sint (a + b) = sint a + sint b"
    by (rule s_add_exact) (use assms in simp_all)
  ultimately show False using assms by simp
qed

lemma div_less_iff_int:
  fixes a b c :: int
  assumes "0 < b"
  shows "a div b < c \<longleftrightarrow> a < c * b"
proof
  assume "a < c * b"
  show "a div b < c"
  proof (rule ccontr)
    assume "\<not> a div b < c"
    then have "c * b \<le> a div b * b" using assms by (intro mult_right_mono) simp_all
    also have "\<dots> \<le> a" using assms by (simp add: minus_mod_eq_div_mult [symmetric])
    finally show False using \<open>a < c * b\<close> by simp
  qed
next
  assume "a div b < c"
  show "a < c * b"
  proof (rule ccontr)
    assume "\<not> a < c * b"
    then have "c * b div b \<le> a div b" using assms by (intro zdiv_mono1) simp_all
    with \<open>a div b < c\<close> assms show False by simp
  qed
qed

lemma ln_coarse_bounds:
  assumes "0 \<le> sint a" and "sint a < B * sint an" and "sint (an * one_18) = sint an * 10 ^ 18"
    and "0 < sint an" and "sint an * 10 ^ 18 \<le> C" and "B \<le> C" and "ln_coarse xn an (a, s) = (b, u)"
  shows "0 \<le> sint b \<and> sint b < C"
proof (cases "sint (an * one_18) \<le> sint a")
  case True
  have "sint (s_quot a an) = sint a div sint an"
    by (rule s_quot_exact [OF assms(1,4)])
  with True assms show ?thesis
    by (auto simp: ln_coarse_def pos_imp_zdiv_nonneg_iff div_less_iff_int
        intro: less_le_trans mult_right_mono)
next
  case False
  with assms show ?thesis by (auto simp: ln_coarse_def)
qed

lemma ln_above_one_total:
  assumes "0 \<le> sint a"
  shows "\<exists>v. ln_above_one a = Ok v"
proof -
  obtain a1 s1 where a1: "ln_coarse lem_x0 lem_a0 (a, 0) = (a1, s1)" by force
  obtain a2 s2 where a2: "ln_coarse lem_x1 lem_a1 (a1, s1) = (a2, s2)" by force
  obtain b u where bu: "fold ln_step lem_table (a2 * 100, s2 * 100) = (b, u)" by force
  have "sint a < 2 ^ 255" using sint_lt [of a] by simp
  then have b1: "0 \<le> sint a1 \<and> sint a1 < 4 * 10 ^ 73"
    by (intro ln_coarse_bounds [OF assms _ _ _ _ _ a1, of "2 * 10 ^ 21"]) (simp_all add: lem_a0_def)
  then have b2: "0 \<le> sint a2 \<and> sint a2 < 7 * 10 ^ 45"
    by (intro ln_coarse_bounds [OF _ _ _ _ _ _ a2, of "7 * 10 ^ 45"]) (simp_all add: lem_a1_def)
  have m: "sint (a2 * 100) = sint a2 * 100"
    by (subst s_mul_exact) (use b2 in simp_all)
  have "0 \<le> sint b \<and> sint b < 10 ^ 48"
    by (rule ln_fold_bounds [OF _ _ _ bu]) (use m b2 in \<open>simp_all add: lem_table_def\<close>)
  then have "b + one_20 \<noteq> 0" by (intro pos_plus_nonzero) simp_all
  then show ?thesis
    using a1 a2 bu by (simp add: ln_above_one_def s_div_def Let_def case_prod_unfold)
qed

lemma lem_ln_total:
  assumes "0 < sint a"
  shows "\<exists>v. lem_ln a = Some (Ok v)"
proof (cases "sint a < sint one_18")
  case False
  with assms ln_above_one_total [of a] show ?thesis
    by (subst lem_ln.simps) simp
next
  case True
  have "a \<noteq> 0" using assms by auto
  then have d: "s_div (one_18 * one_18) a = Ok (s_quot (one_18 * one_18) a)"
    by (simp add: s_div_def)
  let ?b = "s_quot (one_18 * one_18) a"
  have q: "sint ?b = 10 ^ 36 div sint a"
    using assms by (subst s_quot_exact) simp_all
  have "10 ^ 36 div 10 ^ 18 \<le> 10 ^ 36 div sint a"
    using assms True by (intro zdiv_mono2) simp_all
  then have "\<not> sint ?b < sint one_18" using q by simp
  then have "lem_ln ?b = Some (ln_above_one ?b)" by (subst lem_ln.simps) simp
  moreover obtain v where "ln_above_one ?b = Ok v"
    using ln_above_one_total [of ?b] q assms by (auto simp: pos_imp_zdiv_nonneg_iff)
  ultimately show ?thesis using True d by (subst lem_ln.simps) simp
qed

lemma lem_ln_36_total:
  assumes "0 < sint x" and "sint x < 2 * 10 ^ 18"
  shows "\<exists>v. lem_ln_36 x = Ok v"
proof -
  have m: "sint (x * one_18) = sint x * 10 ^ 18"
    by (subst s_mul_exact) (use assms in simp_all)
  have "x * one_18 + one_36 \<noteq> 0"
    by (rule pos_plus_nonzero) (use m assms in simp_all)
  then show ?thesis by (simp add: lem_ln_36_def s_div_def Let_def case_prod_unfold)
qed

lemma pow_log_total:
  assumes "0 < sint x"
  shows "\<exists>v. pow_log x y = Some (Ok v)"
proof (cases "sint ln_36_lower_bound < sint x \<and> sint x < sint ln_36_upper_bound")
  case True
  then have "sint x < 2 * 10 ^ 18" by (simp add: ln_36_upper_bound_def)
  from lem_ln_36_total [OF assms this] True show ?thesis by (auto simp: pow_log_def)
next
  case False
  with lem_ln_total [OF assms] show ?thesis by (auto simp: pow_log_def)
qed

text \<open>
  C20: \<^verbatim>\<open>pow\<close> always returns: the recursion of \<^verbatim>\<open>_ln\<close> ends because \<^verbatim>\<open>pow\<close> only passes positive
  numbers, no division by zero occurs, \<open>exp\<close> is only called inside its range and the final
  conversion never fails. So its only panics are its own three assertions, each under its
  own condition.
\<close>

theorem lem_pow_total:
  "case lem_pow x y of
     None \<Rightarrow> False
   | Some (Inl e) \<Rightarrow> y \<noteq> 0 \<and> x \<noteq> 0 \<and>
       (if 2 ^ 255 \<le> x then e = Panic (Assert_failed ''X_OUT_OF_BOUNDS'')
        else if mild_exponent_bound \<le> y then e = Panic (Assert_failed ''Y_OUT_OF_BOUNDS'')
        else e = Panic (Assert_failed ''PRODUCT_OUT_OF_BOUNDS''))
   | Some (Inr v) \<Rightarrow> (if y = 0 then v = e18 else if x = 0 then v = 0 else unat v < 2 ^ 255)"
proof (cases "y = 0 \<or> x = 0 \<or> 2 ^ 255 \<le> x \<or> mild_exponent_bound \<le> y")
  case True
  then show ?thesis by (auto simp: lem_pow_def not_less)
next
  case False
  then have "unat x < 2 ^ 255" by (simp add: word_le_nat_alt)
  then have "0 \<le> sint x" by (simp add: sint_nonneg_iff_unat)
  moreover have "sint x \<noteq> 0" using False signed_word_eqI [of x 0] by auto
  ultimately have "0 < sint x" by simp
  then obtain l where l: "pow_log x y = Some (Ok l)" using pow_log_total by blast
  let ?q = "s_quot l one_18"
  have b: "sint min_natural_exponent = - 41 * 10 ^ 18" "sint max_natural_exponent = 130 * 10 ^ 18"
    by (simp_all add: min_natural_exponent_def max_natural_exponent_def)
  show ?thesis
  proof (cases "- 41 * 10 ^ 18 \<le> sint ?q \<and> sint ?q \<le> 130 * 10 ^ 18")
    case in_range: True
    with lem_exp_cases [of ?q] obtain r where r: "lem_exp ?q = Ok r" "0 \<le> sint r"
      by (fastforce split: sum.splits if_splits)
    then have "unat r < 2 ^ 255" using unat_nonneg_signed [of r] by simp
    with in_range r l b False show ?thesis
      by (simp add: lem_pow_def assert_that_def s_abs_def not_le)
  next
    case out: False
    with l b False show ?thesis
      by (auto simp: lem_pow_def assert_that_def not_le)
  qed
qed

subsection \<open>Rounding\<close>

lemma ceiling_le_iff:
  "0 < b \<Longrightarrow> 0 < a \<Longrightarrow> (a - 1) div b + 1 \<le> n \<longleftrightarrow> a \<le> n * b" for a b n :: nat
proof -
  assume "0 < b" "0 < a"
  then have "(a - 1) div b < n \<longleftrightarrow> a - 1 < n * b" by (simp only: div_less_iff_less_mult)
  with \<open>0 < a\<close> show ?thesis by linarith
qed

lemma div_up_spec:
  assumes "unat a * 10 ^ 18 < 2 ^ 256" and "b \<noteq> 0"
  shows "\<exists>q. div_up a b = Ok q \<and> (\<forall>n. unat a * 10 ^ 18 \<le> n * unat b \<longleftrightarrow> unat q \<le> n)"
proof (cases "a = 0")
  case True
  then have "div_up a b = Ok 0" by (simp add: div_up_def)
  with True show ?thesis by (auto intro!: exI [of _ 0])
next
  case False
  have m: "unat (a * e18) = unat a * 10 ^ 18"
    using assms(1) by (subst unat_mul_exact) simp_all
  have pos: "0 < unat a" "0 < unat b" using False assms(2) by (simp_all add: unat_gt_0)
  then have nz: "a * e18 \<noteq> 0" using m by (metis mult_eq_0_iff nat_less_le power_eq_0_iff unsigned_0 zero_neq_numeral)
  then have d: "unat ((a * e18 - 1) div b) = (unat a * 10 ^ 18 - 1) div unat b"
    by (simp only: unat_div_exact unat_minus_one [OF nz] m)
  have "(unat a * 10 ^ 18 - 1) div unat b \<le> unat a * 10 ^ 18 - 1" by (rule div_le_dividend)
  also have "\<dots> < 2 ^ 256 - 1" using assms(1) pos by simp
  finally have "unat ((a * e18 - 1) div b + 1) = (unat a * 10 ^ 18 - 1) div unat b + 1"
    using d by (subst unat_add_exact) simp_all
  then show ?thesis
    using False assms(2) pos ceiling_le_iff [of "unat b" "unat a * 10 ^ 18"]
    by (simp add: div_up_def)
qed

lemma mul_up_spec:
  assumes "unat a * unat b < 2 ^ 256"
  shows "unat a * unat b \<le> n * 10 ^ 18 \<longleftrightarrow> unat (mul_up a b) \<le> n"
proof -
  have m: "unat (a * b) = unat a * unat b" by (rule unat_mul_exact) (use assms in simp)
  show ?thesis
  proof (cases "a * b = 0")
    case True
    then show ?thesis using m by (auto simp: mul_up_def)
  next
    case False
    then have pos: "0 < unat a * unat b" using m by (metis unat_gt_0)
    have d: "unat ((a * b - 1) div e18) = (unat a * unat b - 1) div 10 ^ 18"
      by (simp only: unat_div_exact unat_minus_one [OF False] m unat_e18)
    have "(unat a * unat b - 1) div 10 ^ 18 \<le> unat a * unat b - 1" by (rule div_le_dividend)
    also have "\<dots> < 2 ^ 256 - 1" using assms pos by linarith
    finally have "unat ((a * b - 1) div e18 + 1) = (unat a * unat b - 1) div 10 ^ 18 + 1"
      using d by (subst unat_add_exact) simp_all
    then show ?thesis
      using False pos ceiling_le_iff [of "10 ^ 18" "unat a * unat b" n] by (simp add: mul_up_def)
  qed
qed

text \<open>
  Below overflow, \<^verbatim>\<open>div_up\<close> and \<^verbatim>\<open>mul_up\<close> are the exact ceilings: the least result that is
  not below the rational quotient or product.
\<close>

theorem fixed_point_ceilings:
  assumes "unat a * 10 ^ 18 < 2 ^ 256" and "b \<noteq> 0" and "unat a * unat b < 2 ^ 256"
  shows "(\<exists>q. div_up a b = Ok q \<and> (\<forall>n. unat a * 10 ^ 18 \<le> n * unat b \<longleftrightarrow> unat q \<le> n)) \<and>
         (\<forall>n. unat a * unat b \<le> n * 10 ^ 18 \<longleftrightarrow> unat (mul_up a b) \<le> n)"
  using div_up_spec [OF assms(1,2)] mul_up_spec [OF assms(3)] by blast

theorem fixed_point_ceilings_witness:
  "div_up 1 3 = Ok 333333333333333334 \<and> unat (mul_up 1 3) \<le> 1"
proof -
  have "div_up 1 3 = Ok 333333333333333334" by (simp add: div_up_def udiv_def)
  moreover have "unat (1 :: u256) * 10 ^ 18 < 2 ^ 256" "(3 :: u256) \<noteq> 0"
    "unat (1 :: u256) * unat (3 :: u256) < 2 ^ 256"
    by simp_all
  note fixed_point_ceilings [OF this]
  then have "unat (1 :: u256) * unat (3 :: u256) \<le> 1 * 10 ^ 18 \<longleftrightarrow> unat (mul_up 1 3) \<le> 1" by blast
  then have "unat (mul_up 1 3) \<le> 1" by simp
  ultimately show ?thesis by blast
qed

subsection \<open>Pools of equal weights\<close>

text \<open>
  For two tokens of equal weight the exponent is one, and the output follows from one
  rounded-up ratio. It never exceeds the constant-product amount on the pool's balances
  and the scaled input, so rounding always favours the pool.
\<close>

theorem balancer_equal_weights:
  assumes "bp_token_index pool token_in = Some i" and "bp_token_index pool token_out = Some j"
    and "i < length (bp_balances pool)" and "j < length (bp_balances pool)"
    and "i < length (bp_weights pool)" and "j < length (bp_weights pool)"
    and "bp_weights pool ! i = w" and "bp_weights pool ! j = w" and "0 < unat w"
    and "unat w * 10 ^ 18 < 2 ^ 256"
    and "bi = bp_balances pool ! i" and "bo = bp_balances pool ! j"
    and "unat bi * 10 ^ 18 < 2 ^ 256" and "unat bo * 10 ^ 18 < 2 ^ 256"
    and "balancer_amount pool x = Ok x'" and "0 < unat bi + unat x'" and "unat bi + unat x' < 2 ^ 256"
  shows "\<exists>out. balancer_v2_out pool x token_in token_out = Some (Ok out) \<and>
           unat out * (unat bi + unat x') \<le> unat bo * unat x'"
proof -
  let ?D = "unat bi + unat x'"
  have D: "unat (bi + x') = ?D" by (rule unat_add_exact) (use assms(17) in simp)
  then have "bi + x' \<noteq> 0" using assms(16) by auto
  from div_up_spec [OF assms(13) this] obtain p where
    p: "div_up bi (bi + x') = Ok p" and least: "\<And>n. unat bi * 10 ^ 18 \<le> n * ?D \<longleftrightarrow> unat p \<le> n"
    using D by auto
  from least [of "10 ^ 18"] have p1: "unat p \<le> 10 ^ 18" by (simp add: algebra_simps)
  from least [of "unat p"] have p2: "unat bi * 10 ^ 18 \<le> unat p * ?D" by simp
  have "unat (w * e18) = unat w * 10 ^ 18" using assms(10) by (subst unat_mul_exact) simp_all
  then have "unat (w * e18 div w) = 10 ^ 18"
    using assms(9) by (simp only: unat_div_exact) simp
  then have "w * e18 div w = e18" by (metis unat_e18 word_unat_eq_iff)
  then have e: "div_down w w = Ok e18"
    using assms(9) by (auto simp: div_down_def)
  have c: "unat (fp_complement p) = 10 ^ 18 - unat p"
    using p1 by (auto simp: fp_complement_def word_less_nat_alt unat_sub_exact word_le_nat_alt)
  have bp: "unat bo * (10 ^ 18 - unat p) \<le> unat bo * 10 ^ 18" by (intro mult_left_mono) simp_all
  have m: "unat (bo * fp_complement p) = unat bo * (10 ^ 18 - unat p)"
    using le_less_trans [OF bp assms(14)] c by (subst unat_mul_exact) simp_all
  let ?out = "mul_down bo (fp_complement p)"
  have out: "unat ?out = unat bo * (10 ^ 18 - unat p) div 10 ^ 18"
    by (simp only: mul_down_def Let_def unat_div_exact m unat_e18)
  have "unat ?out * 10 ^ 18 \<le> unat bo * (10 ^ 18 - unat p)"
    unfolding out by (rule div_times_less_eq_dividend)
  then have "unat ?out * 10 ^ 18 * ?D \<le> unat bo * (10 ^ 18 - unat p) * ?D"
    by (rule mult_right_mono) simp
  also have "\<dots> = unat bo * (10 ^ 18 * ?D - unat p * ?D)"
    by (simp only: mult.assoc diff_mult_distrib)
  also have "\<dots> \<le> unat bo * (10 ^ 18 * ?D - unat bi * 10 ^ 18)"
    using p2 by (intro mult_left_mono diff_le_mono2) simp_all
  also have "\<dots> = 10 ^ 18 * (unat bo * unat x')" by (simp add: algebra_simps)
  finally have "10 ^ 18 * (unat ?out * ?D) \<le> 10 ^ 18 * (unat bo * unat x')"
    by (simp only: ac_simps)
  then have "unat ?out * ?D \<le> unat bo * unat x'" by simp
  moreover have "balancer_v2_out pool x token_in token_out = Some (Ok ?out)"
    using assms p e by (simp add: balancer_v2_out_def list_index_def pow_up_def Let_def)
  ultimately show ?thesis by blast
qed

definition ex_balancer :: "u8 \<Rightarrow> balancer_pool" where
  "ex_balancer d =
     \<lparr>bp_token_index = [10 \<mapsto> 0, 20 \<mapsto> 1],
      bp_balances = [5000000000000000000, 8000000000000000000],
      bp_weights = [500000000000000000, 500000000000000000],
      bp_swap_fee = 3000000000000000, bp_token0_decimals = d\<rparr>"

lemma ex_balancer_amount: "balancer_amount (ex_balancer 18) 1000000 = Ok 997000"
  by code_simp

theorem balancer_equal_weights_witness:
  "\<exists>out. balancer_v2_out (ex_balancer 18) 1000000 10 20 = Some (Ok out) \<and>
     unat out * 5000000000000997000 \<le> 8000000000000000000 * 997000"
  using balancer_equal_weights [OF _ _ _ _ _ _ _ _ _ _ refl refl _ _ ex_balancer_amount,
      of 10 0 20 1 500000000000000000]
  by (simp add: ex_balancer_def)

lemma unat_pow_exact:
  "unat x ^ n < 2 ^ LENGTH('a) \<Longrightarrow> unat (x ^ n) = unat x ^ n" for x :: "'a::len word"
proof (induction n)
  case (Suc n)
  show ?case
  proof (cases "x = 0")
    case False
    then have "unat x ^ n \<le> unat x ^ Suc n" by (intro power_increasing) (simp_all add: unat_gt_0 Suc_leI)
    with Suc show ?thesis by (simp add: unat_mul_exact)
  qed simp
qed simp

text \<open>
  The amount is scaled twice, and upwards both times: where the tokens have fewer than 18
  decimals, the amount that enters the formula is the input times \<open>10^(36 - 2 d)\<close> although
  the balances are used as they are. A token of more than 18 decimals panics.
\<close>

theorem balancer_amount_scaling:
  assumes "bp_swap_fee pool = 0" and "d = unat (bp_token0_decimals pool)" and "d < 128"
    and "unat x * 10 ^ (36 - 2 * d) < 2 ^ 256"
  shows "if d \<le> 18 then \<exists>x'. balancer_amount pool x = Ok x' \<and> unat x' = unat x * 10 ^ (36 - 2 * d)
         else balancer_amount pool x = panic Conversion_out_of_range"
proof (cases "d \<le> 18")
  case True
  let ?k = "18 - bp_token0_decimals pool"
  have le: "bp_token0_decimals pool \<le> 18" using True assms(2) by (simp add: word_le_nat_alt)
  have k: "unat ?k = 18 - d" using unat_sub_exact [OF le] assms(2) by simp
  have s: "\<not> sint ?k < 0" using k by (simp add: not_less sint_nonneg_iff_unat)
  have "(10 :: nat) ^ (18 - d) < 2 ^ 256"
    using power_increasing [of "18 - d" 18 "10 :: nat"] by simp
  then have t: "unat ((10 :: u256) ^ (18 - d)) = 10 ^ (18 - d)"
    by (subst unat_pow_exact) simp_all
  have e: "10 ^ (36 - 2 * d) = (10 :: nat) ^ (18 - d) * 10 ^ (18 - d)"
    using True by (simp add: power_add [symmetric])
  have "unat x * 10 ^ (18 - d) * 1 \<le> unat x * 10 ^ (18 - d) * 10 ^ (18 - d)"
    by (intro mult_left_mono) simp_all
  also have "\<dots> < 2 ^ 256" using assms(4) e by (simp add: mult.assoc)
  finally have m1: "unat (x * 10 ^ (18 - d)) = unat x * 10 ^ (18 - d)"
    using t by (subst unat_mul_exact) simp_all
  have m2: "unat (x * 10 ^ (18 - d) * 10 ^ (18 - d)) = unat x * 10 ^ (36 - 2 * d)"
    using assms(4) m1 t e by (subst unat_mul_exact) (simp_all add: mult.assoc)
  show ?thesis
    using True s k m2 assms(1)
    by (simp add: balancer_amount_def fp_scale_def mul_up_def Let_def)
next
  case False
  let ?k = "18 - bp_token0_decimals pool"
  have lt: "\<not> bp_token0_decimals pool \<le> 18" using False assms(2) by (simp add: word_le_nat_alt)
  have "unat ?k = 256 + 18 - d"
    using lt assms(2,3) False by (simp add: unat_sub_if')
  then have "sint ?k < 0"
    using assms(3) False sint_nonneg_iff_unat [of ?k] by (simp add: not_le [symmetric])
  with False show ?thesis by (simp add: balancer_amount_def fp_scale_def Let_def)
qed

theorem balancer_amount_scaling_witness:
  "\<exists>x'. balancer_amount (ex_balancer 6\<lparr>bp_swap_fee := 0\<rparr>) 7 = Ok x' \<and> unat x' = 7 * 10 ^ 24"
  using balancer_amount_scaling [of "ex_balancer 6\<lparr>bp_swap_fee := 0\<rparr>" 6 7]
  by (simp add: ex_balancer_def)

end
