(* ===== verification/Calculator.thy ===== *)
theory Calculator
  imports Cache Aerodrome Balancer
begin

text \<open>
  The calculator (\<^verbatim>\<open>src/calculation/calculator.rs\<close>, \<^verbatim>\<open>curve.rs\<close>, \<^verbatim>\<open>maverick.rs\<close>): the
  dispatch on the pool type and the cached walk along a path.

  What the calculator takes from elsewhere is the record \<open>calc_env\<close>: the math library, the
  hash, the getters the database lacks, \<open>PoolManager\<close>, the EVM and \<open>Cache::set\<close>. The EVM
  runs on the database and gives only its result back: \<open>transact\<close> does not commit, and
  what it reads into the database's cache changes no later answer
  (\<open>EvmRuns\<close> threads the database through and proves this). \<open>None\<close> of an output is a computation that does
  not end.
\<close>

subsection \<open>Calls to the EVM\<close>

text \<open>The calls of the bot; \<open>Abi_bytes\<close> is the ABI encoding of a call's bytes.\<close>

datatype evm_call =
    Get_dy u256 u256 u256
  | Calculate_swap address u128 bool bool i32
  | Quote_arbitrage swap_params
  | Approve address u256
  | Abi_bytes evm_call

datatype exec_result =
    Success "u8 list"
  | Revert "u8 list"
  | Halt

record calc_env =
  cn_math :: v3_math
  cn_keccak :: keccak
  cn_aero :: "state_db \<Rightarrow> aero_info"
  cn_balancer :: "address \<Rightarrow> balancer_pool"
  cn_transact :: "state_db \<Rightarrow> address \<Rightarrow> address \<Rightarrow> evm_call \<Rightarrow> exec_result res"
  cn_decode1 :: "u8 list \<Rightarrow> u256 option"
  cn_decode3 :: "u8 list \<Rightarrow> (u256 \<times> u256 \<times> u256) option"
  cn_cache_set :: "cache \<Rightarrow> u256 \<Rightarrow> address \<Rightarrow> u256 \<Rightarrow> cache"

definition curve_out ::
  "calc_env \<Rightarrow> state_db \<Rightarrow> u256 \<Rightarrow> u256 \<Rightarrow> u256 \<Rightarrow> address \<Rightarrow> u256 res"
where
  "curve_out E db index_in index_out amount_in pool =
     rbind (unwrap_res (cn_transact E db 1 pool (Get_dy index_in index_out amount_in))) (\<lambda>result.
       case result of
         Success value \<Rightarrow> (case cn_decode1 E value of Some a \<Rightarrow> Ok a | None \<Rightarrow> Ok 0)
       | _ \<Rightarrow> Ok 0)"

definition maverick_quoter :: address where
  "maverick_quoter = 0xb40AfdB85a07f37aE217E7D6462e609900dD8D7A"

definition maverick_v2_out ::
  "calc_env \<Rightarrow> state_db \<Rightarrow> u256 \<Rightarrow> address \<Rightarrow> bool \<Rightarrow> i32 \<Rightarrow> u256 res"
where
  "maverick_v2_out E db amount_in pool zero_for_one tick_limit =
     rbind (uint_to amount_in) (\<lambda>amount.
     rbind (unwrap_res (cn_transact E db 1 maverick_quoter
              (Calculate_swap pool amount zero_for_one False tick_limit))) (\<lambda>result.
       case result of
         Success value \<Rightarrow>
           (case cn_decode3 E value of Some out \<Rightarrow> Ok (fst (snd out)) | None \<Rightarrow> Ok 0)
       | _ \<Rightarrow> Ok 0))"

subsection \<open>Dispatch\<close>

definition compute_amount_out ::
  "calc_env \<Rightarrow> state_db \<Rightarrow> u256 \<Rightarrow> address \<Rightarrow> address \<Rightarrow> pool_type \<Rightarrow> u32 \<Rightarrow> u256 res option"
where
  "compute_amount_out E db input_amount pool_address token_in pool_type fee =
     (if pool_type \<in> {UniswapV2, SushiSwapV2, SwapBasedV2}
      then Some (uniswap_v2_out db input_amount pool_address token_in 9970)
      else if pool_type \<in> {PancakeSwapV2, BaseSwapV2, DackieSwapV2}
      then Some (uniswap_v2_out db input_amount pool_address token_in 9975)
      else if pool_type = AlienBaseV2
      then Some (uniswap_v2_out db input_amount pool_address token_in 9984)
      else if pool_type \<in> {UniswapV3, SushiSwapV3, BaseSwapV3, Slipstream, PancakeSwapV3,
                           AlienBaseV3, SwapBasedV3, DackieSwapV3}
      then map_option (\<lambda>r. or_default r 0)
             (uniswap_v3_out (cn_math E) (cn_keccak E) db input_amount pool_address token_in fee)
      else if pool_type = Aerodrome
      then Some (aerodrome_out (cn_aero E db) db input_amount token_in pool_address)
      else if pool_type \<in> {MaverickV1, MaverickV2}
      then Some (maverick_v2_out E db input_amount pool_address True 0)
      else if pool_type = BalancerV2
      then balancer_v2_out (cn_balancer E pool_address) input_amount token_in 0
      else Some (curve_out E db 0 1 input_amount pool_address))"

definition compute_pool_output ::
  "calc_env \<Rightarrow> state_db \<Rightarrow> address \<Rightarrow> address \<Rightarrow> pool_type \<Rightarrow> u32 \<Rightarrow> u256 \<Rightarrow> u256 res option"
where
  "compute_pool_output E db pool_addr token_in protocol fee input =
     compute_amount_out E db input pool_addr token_in protocol fee"

subsection \<open>Paths\<close>

text \<open>The calculation of one step.\<close>

definition step_output :: "calc_env \<Rightarrow> state_db \<Rightarrow> swap_step \<Rightarrow> u256 \<Rightarrow> u256 res option" where
  "step_output E db s amount =
     compute_amount_out E db amount (st_pool s) (st_token_in s) (st_protocol s) (st_fee s)"

fun calc_steps ::
  "calc_env \<Rightarrow> state_db \<Rightarrow> swap_step list \<Rightarrow> u256 \<Rightarrow> cache \<Rightarrow> (u256 res \<times> cache) option"
where
  "calc_steps E db [] amount c = Some (Ok amount, c)"
| "calc_steps E db (s # ss) amount c =
     (case cache_get c amount (st_pool s) of
        Some cached_amount \<Rightarrow>
          if cached_amount = 0 then Some (Ok 0, c) else calc_steps E db ss cached_amount c
      | None \<Rightarrow>
          (case step_output E db s amount of
             None \<Rightarrow> None
           | Some (Inl e) \<Rightarrow> Some (Inl e, c)
           | Some (Inr output_amount) \<Rightarrow>
               (let c = cn_cache_set E c amount (st_pool s) output_amount
                in if output_amount = 0 then Some (Ok 0, c)
                   else calc_steps E db ss output_amount c)))"

definition calculate_output ::
  "calc_env \<Rightarrow> state_db \<Rightarrow> swap_path \<Rightarrow> cache \<Rightarrow> (u256 res \<times> cache) option"
where
  "calculate_output E db path c = calc_steps E db (sp_steps path) AMOUNT c"

fun debug_steps ::
  "calc_env \<Rightarrow> state_db \<Rightarrow> swap_step list \<Rightarrow> u256 \<Rightarrow> u256 list \<Rightarrow> u256 list res option"
where
  "debug_steps E db [] amount path_calc = Some (Ok path_calc)"
| "debug_steps E db (s # ss) amount path_calc =
     (case step_output E db s amount of
        None \<Rightarrow> None
      | Some (Inl e) \<Rightarrow> Some (Inl e)
      | Some (Inr output_amount) \<Rightarrow>
          debug_steps E db ss output_amount (path_calc @ [output_amount]))"

definition debug_calculation ::
  "calc_env \<Rightarrow> state_db \<Rightarrow> swap_path \<Rightarrow> u256 list res option"
where
  "debug_calculation E db path = debug_steps E db (sp_steps path) AMOUNT [AMOUNT]"

text \<open>The constructor's cache.\<close>

definition calculator_cache :: cache where
  "calculator_cache = cache_new 500"

subsection \<open>The cache is a memo table\<close>

text \<open>What is asked of the missing \<^verbatim>\<open>Cache::set\<close>: it stores one entry.\<close>

definition cache_set_law :: "(cache \<Rightarrow> u256 \<Rightarrow> address \<Rightarrow> u256 \<Rightarrow> cache) \<Rightarrow> bool" where
  "cache_set_law st \<longleftrightarrow>
     (\<forall>c x p v x' p'. cache_get (st c x p v) x' p' =
        (if x' = x \<and> p' = p then Some v else cache_get c x' p'))"

text \<open>The walk without a cache.\<close>

fun plain_steps :: "calc_env \<Rightarrow> state_db \<Rightarrow> swap_step list \<Rightarrow> u256 \<Rightarrow> u256 res option" where
  "plain_steps E db [] amount = Some (Ok amount)"
| "plain_steps E db (s # ss) amount =
     (case step_output E db s amount of
        None \<Rightarrow> None
      | Some (Inl e) \<Rightarrow> Some (Inl e)
      | Some (Inr v) \<Rightarrow> if v = 0 then Some (Ok 0) else plain_steps E db ss v)"

text \<open>
  A way of using each pool fixes its direction, protocol and fee; \<open>use_output\<close> is the
  output of that use, when there is one. A cache is valid for the uses when every entry is
  the output of the use of its pool.
\<close>

definition use_output ::
  "calc_env \<Rightarrow> state_db \<Rightarrow> (address \<Rightarrow> address \<times> pool_type \<times> u32) \<Rightarrow> address \<Rightarrow> u256 \<Rightarrow> u256 option"
where
  "use_output E db use p x =
     (let (t, protocol, fee) = use p
      in case compute_amount_out E db x p t protocol fee of
           Some (Inr v) \<Rightarrow> Some v
         | _ \<Rightarrow> None)"

definition uses :: "(address \<Rightarrow> address \<times> pool_type \<times> u32) \<Rightarrow> swap_step list \<Rightarrow> bool" where
  "uses use ss \<longleftrightarrow>
     list_all (\<lambda>s. use (st_pool s) = (st_token_in s, st_protocol s, st_fee s)) ss"

lemma use_output_step:
  assumes "use (st_pool s) = (st_token_in s, st_protocol s, st_fee s)"
  shows "use_output E db use (st_pool s) x = Some v \<longleftrightarrow> step_output E db s x = Some (Ok v)"
  using assms
  by (auto simp: use_output_def step_output_def Let_def split: option.splits sum.splits)

lemma coherent_set:
  assumes "cache_set_law st" and "cm.coherent f c" and "f p x = Some v"
  shows "cm.coherent f (st c x p v)"
  using assms by (auto simp: cache_set_law_def cm.coherent_def split: if_splits)

lemma calc_steps_plain:
  assumes "cache_set_law (cn_cache_set E)" and "uses use ss"
    and "cm.coherent (use_output E db use) c"
  shows "map_option fst (calc_steps E db ss x c) = plain_steps E db ss x \<and>
         (\<forall>r c'. calc_steps E db ss x c = Some (r, c') \<longrightarrow> cm.coherent (use_output E db use) c')"
  using assms(2,3)
proof (induction ss arbitrary: x c)
  case Nil
  then show ?case by simp
next
  case (Cons s ss)
  then have u: "use (st_pool s) = (st_token_in s, st_protocol s, st_fee s)" "uses use ss"
    by (simp_all add: uses_def)
  have so: "use_output E db use (st_pool s) x = Some v \<longleftrightarrow> step_output E db s x = Some (Ok v)" for v
    by (rule use_output_step) (rule u(1))
  show ?case
  proof (cases "cache_get c x (st_pool s)")
    case (Some v)
    with cm.coherentD [OF Cons.prems(2)] so have "step_output E db s x = Some (Ok v)" by blast
    with Some Cons.IH [OF u(2) Cons.prems(2)] Cons.prems(2) show ?thesis by simp
  next
    case None
    show ?thesis
    proof (cases "step_output E db s x")
      case None
      with \<open>cache_get c x (st_pool s) = None\<close> show ?thesis by simp
    next
      case (Some r)
      show ?thesis
      proof (cases r)
        case (Inl e)
        with Some None Cons.prems(2) show ?thesis by simp
      next
        case (Inr v)
        with Some so have "use_output E db use (st_pool s) x = Some v" by simp
        from coherent_set [OF assms(1) Cons.prems(2) this]
        have c': "cm.coherent (use_output E db use) (cn_cache_set E c x (st_pool s) v)" .
        with Some Inr None Cons.IH [OF u(2) c'] show ?thesis by (auto simp: Let_def)
      qed
    qed
  qed
qed

text \<open>
  C12: On paths that use every pool in one fixed way, the cache is transparent: with valid
  entries \<^verbatim>\<open>calculate_output\<close> returns exactly what the walk without a cache returns, failures
  included, and leaves a valid cache behind.
\<close>

theorem calculate_output_transparent:
  assumes "cache_set_law (cn_cache_set E)" and "uses use (sp_steps path)"
    and "cm.coherent (use_output E db use) c"
  shows "map_option fst (calculate_output E db path c) = plain_steps E db (sp_steps path) AMOUNT \<and>
         (\<forall>r c'. calculate_output E db path c = Some (r, c') \<longrightarrow>
            cm.coherent (use_output E db use) c')"
  unfolding calculate_output_def by (rule calc_steps_plain [OF assms])

text \<open>A calculator with a straightforward \<open>set\<close>, over the pool of 1000000 and 2000000.\<close>

definition ex_set :: "cache \<Rightarrow> u256 \<Rightarrow> address \<Rightarrow> u256 \<Rightarrow> cache" where
  "ex_set c x p v =
     c\<lparr>ca_entries := (ca_entries c)(\<lparr>ck_pool = p, ck_amount = x\<rparr> \<mapsto> \<lparr>ce_output = v\<rparr>)\<rparr>"

lemma ex_set_law: "cache_set_law ex_set"
  by (auto simp: cache_set_law_def ex_set_def cache_get_def)

definition ex_env :: calc_env where
  "ex_env =
     \<lparr>cn_math = ex_math, cn_keccak = ex_keccak, cn_aero = (\<lambda>db. ex_aero),
      cn_balancer = (\<lambda>a. ex_balancer 18), cn_transact = (\<lambda>db caller target call. Ok Halt),
      cn_decode1 = (\<lambda>bs. None), cn_decode3 = (\<lambda>bs. None), cn_cache_set = ex_set\<rparr>"

definition ex_step :: "address \<Rightarrow> address \<Rightarrow> swap_step" where
  "ex_step t_in t_out =
     \<lparr>st_pool = 77, st_token_in = t_in, st_token_out = t_out, st_protocol = UniswapV2, st_fee = 0\<rparr>"

definition ex_path :: "swap_step list \<Rightarrow> swap_path" where
  "ex_path ss = \<lparr>sp_steps = ss, sp_hash = 0\<rparr>"

lemma ex_step_output:
  "step_output ex_env ex_v2_db (ex_step 10 20) AMOUNT = Some (Ok 1999999)"
  "step_output ex_env ex_v2_db (ex_step 20 10) AMOUNT = Some (Ok 999999)"
  by (simp_all add: step_output_def compute_amount_out_def ex_step_def uniswap_v2_out_def
      ex_v2_db_reads AMOUNT_def udiv_def Let_def)

theorem calculate_output_transparent_witness:
  "map_option fst (calculate_output ex_env ex_v2_db (ex_path [ex_step 10 20]) calculator_cache) =
     Some (Ok 1999999)"
proof -
  have "cm.coherent (use_output ex_env ex_v2_db (\<lambda>p. (10, UniswapV2, 0))) calculator_cache"
    unfolding calculator_cache_def by (rule cm.coherent_fresh)
  moreover have "uses (\<lambda>p. (10, UniswapV2, 0)) (sp_steps (ex_path [ex_step 10 20]))"
    by (simp add: uses_def ex_path_def ex_step_def)
  moreover have "cache_set_law (cn_cache_set ex_env)"
    using ex_set_law by (simp add: ex_env_def)
  ultimately show ?thesis
    using calculate_output_transparent [of ex_env "\<lambda>p. (10, UniswapV2, 0)"
        "ex_path [ex_step 10 20]" ex_v2_db calculator_cache]
    by (simp add: ex_path_def ex_step_output)
qed

text \<open>A walk never overwrites an entry: it stores only where the lookup has failed.\<close>

lemma calc_steps_keeps_hits:
  assumes "cache_set_law (cn_cache_set E)" and "cache_get c y p = Some v"
    and "calc_steps E db ss x c = Some (r, c')"
  shows "cache_get c' y p = Some v"
  using assms(2,3)
proof (induction ss arbitrary: x c)
  case Nil
  then show ?case by simp
next
  case (Cons s ss)
  show ?case
  proof (cases "cache_get c x (st_pool s)")
    case (Some w)
    with Cons show ?thesis by (auto split: if_splits)
  next
    case None
    with Cons.prems(1) have "\<not> (y = x \<and> p = st_pool s)" by auto
    with assms(1) Cons.prems(1) have "cache_get (cn_cache_set E c x (st_pool s) w) y p = Some v" for w
      by (auto simp: cache_set_law_def)
    with None Cons show ?thesis by (auto simp: Let_def split: option.splits sum.splits if_splits)
  qed
qed

lemma calc_steps_caches_first:
  assumes "cache_set_law (cn_cache_set E)" and "cache_get c x (st_pool s) = None"
    and "step_output E db s x = Some (Ok v)" and "calc_steps E db (s # ss) x c = Some (r, c')"
  shows "cache_get c' x (st_pool s) = Some v"
proof -
  let ?c = "cn_cache_set E c x (st_pool s) v"
  from assms(1) have hit: "cache_get ?c x (st_pool s) = Some v" by (simp add: cache_set_law_def)
  show ?thesis
  proof (cases "v = 0")
    case True
    with assms(2-4) hit show ?thesis by (simp add: Let_def)
  next
    case False
    with assms(2-4) have "calc_steps E db ss v ?c = Some (r, c')" by (simp add: Let_def)
    with calc_steps_keeps_hits [OF assms(1) hit] show ?thesis .
  qed
qed

text \<open>The constant product pays less against the smaller reserve.\<close>

lemma v2_spec_reserves_mono:
  assumes "rin \<le> rout" and "0 < rin"
  shows "v2_spec x f rout rin \<le> v2_spec x f rin rout"
proof -
  have "x * f * rin div (rout * 10000 + x * f) \<le> x * f * rout div (rout * 10000 + x * f)"
    using assms(1) by (intro div_le_mono mult_left_mono) simp_all
  also have "\<dots> \<le> x * f * rout div (rin * 10000 + x * f)"
    using assms by (intro div_le_mono2) simp_all
  finally show ?thesis by (simp add: v2_spec_def)
qed

lemma v2_step_output:
  assumes "(st_protocol s, f) \<in> {(UniswapV2, 9970), (SushiSwapV2, 9970), (SwapBasedV2, 9970),
       (PancakeSwapV2, 9975), (BaseSwapV2, 9975), (DackieSwapV2, 9975), (AlienBaseV2, 9984)}"
    and "zero_to_one db (st_pool s) (st_token_in s) = Some z"
    and "get_reserves db (st_pool s) = Ok (ra, rb)" and "unat x < 2 ^ 128"
    and "rin = (if z then ra else rb)" "rout = (if z then rb else ra)" "rin \<noteq> 0"
  shows "\<exists>out. step_output E db s x = Some (Ok out)
     \<and> unat out = v2_spec (unat x) f (unat rin) (unat rout)"
proof -
  let ?v = "v2_spec (unat x) f (unat rin) (unat rout)"
  from assms(1) have quote: "step_output E db s x =
      Some (uniswap_v2_out db x (st_pool s) (st_token_in s) (of_nat f))" and f: "f \<le> 10000"
    by (auto simp: step_output_def compute_amount_out_def)
  from f have uf: "unat (of_nat f :: u256) = f" by (simp add: unsigned_of_nat take_bit_nat_eq_self)
  from assms(7) have "unat rin \<noteq> 0" by (simp add: unsigned_eq_0_iff)
  then have "uniswap_v2_out db x (st_pool s) (st_token_in s) (of_nat f) = Ok (of_nat ?v)"
    using uniswap_v2_out_spec [OF assms(2-4) _ assms(5,6), of "of_nat f"] f uf by simp
  moreover have "?v < 2 ^ 256"
    using v2_spec_le [of "unat x" f "unat rin" "unat rout"] unat_less_width [of rout] by simp
  ultimately show ?thesis by (simp add: quote unsigned_of_nat take_bit_nat_eq_self)
qed

text \<open>
  C24: The key of the cache is the pool and the amount, not the direction. When a walk has
  calculated the sale of an amount to a pool of the constant-product kind, every later walk that
  sells the same amount of the other token to the pool, in the loop of \<^verbatim>\<open>calculate_output\<close> on the
  same database, goes on with the output of the first direction; the calculation of its own
  direction would have given the formula with the reserves exchanged, which is never more when the
  first walk was paid from the larger reserve. A walk in between changes nothing: its steps \<open>ss'\<close> and its
  amount are arbitrary. The amount is below \<open>2^128\<close>, the pool is not empty.
\<close>

theorem cache_crosses_directions:
  assumes "cache_set_law (cn_cache_set E)" and "cache_get c x p = None"
    and "st_pool s = p" "st_pool t = p" "st_protocol t = st_protocol s"
    and "(st_protocol s, f) \<in> {(UniswapV2, 9970), (SushiSwapV2, 9970), (SwapBasedV2, 9970),
       (PancakeSwapV2, 9975), (BaseSwapV2, 9975), (DackieSwapV2, 9975), (AlienBaseV2, 9984)}"
    and "zero_to_one db p (st_token_in s) = Some z" "zero_to_one db p (st_token_in t) = Some (\<not> z)"
    and "get_reserves db p = Ok (r0, r1)" "r0 \<noteq> 0" "r1 \<noteq> 0" "unat x < 2 ^ 128"
    and "rin = (if z then r0 else r1)" "rout = (if z then r1 else r0)"
    and "calc_steps E db (s # ss) x c = Some (r, c1)" "calc_steps E db ss' y c1 = Some (r', c2)"
  shows "\<exists>out own. unat out = v2_spec (unat x) f (unat rin) (unat rout)
     \<and> calc_steps E db (t # rest) x c2 = (if out = 0 then Some (Ok 0, c2) else calc_steps E db rest out c2)
     \<and> step_output E db t x = Some (Ok own)
     \<and> unat own = v2_spec (unat x) f (unat rout) (unat rin)
     \<and> (rin \<le> rout \<longrightarrow> own \<le> out)"
proof -
  have nz: "rin \<noteq> 0" "rout \<noteq> 0" using assms(10,11,13,14) by auto
  obtain out where out: "step_output E db s x = Some (Ok out)"
    "unat out = v2_spec (unat x) f (unat rin) (unat rout)"
    using v2_step_output [where s = s, OF assms(6) _ _ assms(12,13,14) nz(1)] assms(3,7,9) by auto
  have sides: "rout = (if \<not> z then r0 else r1)" "rin = (if \<not> z then r1 else r0)"
    using assms(13,14) by simp_all
  have "(st_protocol t, f) \<in> {(UniswapV2, 9970), (SushiSwapV2, 9970), (SwapBasedV2, 9970),
       (PancakeSwapV2, 9975), (BaseSwapV2, 9975), (DackieSwapV2, 9975), (AlienBaseV2, 9984)}"
    unfolding assms(5) by (rule assms(6))
  moreover have "zero_to_one db (st_pool t) (st_token_in t) = Some (\<not> z)"
    "get_reserves db (st_pool t) = Ok (r0, r1)" using assms(4,8,9) by simp_all
  ultimately obtain own where own: "step_output E db t x = Some (Ok own)"
    "unat own = v2_spec (unat x) f (unat rout) (unat rin)"
    using v2_step_output [OF _ _ _ assms(12) sides nz(2)] by blast
  have "cache_get c1 x p = Some out"
    using calc_steps_caches_first [OF assms(1) _ out(1) assms(15)] assms(2,3) by simp
  then have "cache_get c2 x p = Some out" using calc_steps_keeps_hits [OF assms(1) _ assms(16)] by simp
  moreover have "rin \<le> rout \<longrightarrow> own \<le> out"
    using v2_spec_reserves_mono [of "unat rin" "unat rout"] nz(1) out(2) own(2)
    by (simp add: word_le_nat_alt unat_gt_0)
  ultimately show ?thesis using out(2) own assms(4) by (intro exI [of _ out] exI [of _ own]) simp
qed

text \<open>The pool of 1000000 and 2000000: the second walk goes on with 1999999 instead of 999999.\<close>

theorem cache_crosses_directions_witness:
  "\<exists>c. calculate_output ex_env ex_v2_db (ex_path [ex_step 10 20]) calculator_cache
          = Some (Ok 1999999, c) \<and>
       calculate_output ex_env ex_v2_db (ex_path [ex_step 20 10]) c = Some (Ok 1999999, c) \<and>
       plain_steps ex_env ex_v2_db [ex_step 20 10] AMOUNT = Some (Ok 999999)"
proof -
  let ?c = "ex_set calculator_cache AMOUNT 77 1999999"
  have e: "cn_cache_set ex_env = ex_set" "st_pool (ex_step a b) = 77"
    "st_protocol (ex_step a b) = UniswapV2" "st_token_in (ex_step a b) = a" for a b
    by (simp_all add: ex_env_def ex_step_def)
  have f: "cache_get calculator_cache AMOUNT 77 = None"
    by (simp add: calculator_cache_def cache_new_def cache_get_def)
  have walk: "calc_steps ex_env ex_v2_db [ex_step 10 20] AMOUNT calculator_cache =
      Some (Ok 1999999, ?c)" by (simp add: e f ex_step_output)
  have law: "cache_set_law (cn_cache_set ex_env)" using ex_set_law by (simp add: e)
  have v: "v2_spec (unat AMOUNT) 9970 (unat (1000000 :: u256)) (unat (2000000 :: u256)) = 1999999" 
    by (simp add: v2_spec_def AMOUNT_def)
  from cache_crosses_directions [where s = "ex_step 10 20" and t = "ex_step 20 10" and f = 9970
      and z = True and ss' = "[]" and y = 0 and rest = "[]", OF law f e(2) e(2) _ _ _ _ ex_v2_db_reads(3)
      _ _ _ refl refl walk]
  obtain out where out: "unat out = 1999999"
    "calc_steps ex_env ex_v2_db [ex_step 20 10] AMOUNT ?c =
       (if out = 0 then Some (Ok 0, ?c) else Some (Ok out, ?c))"
    using v by (auto simp: e ex_v2_db_reads AMOUNT_def)
  from out(1) have "out = 1999999" by (simp add: word_unat_eq_iff)
  with out(2) have "calc_steps ex_env ex_v2_db [ex_step 20 10] AMOUNT ?c = Some (Ok 1999999, ?c)"
    by simp
  with walk show ?thesis
    by (intro exI [of _ ?c]) (simp add: calculate_output_def ex_path_def ex_step_output)
qed

subsection \<open>The calculation without the cache\<close>

lemma debug_steps_plain:
  assumes "debug_steps E db ss x (ys @ [x]) = Some (Ok xs)" and "0 \<notin> set (drop (length ys + 1) xs)"
  shows "plain_steps E db ss x = Some (Ok (last xs)) \<and> length xs = length ys + 1 + length ss \<and>
         take (length ys + 1) xs = ys @ [x]"
  using assms
proof (induction ss arbitrary: x ys)
  case Nil
  then show ?case by auto
next
  case (Cons s ss)
  then obtain v where v: "step_output E db s x = Some (Ok v)"
    and d: "debug_steps E db ss v ((ys @ [x]) @ [v]) = Some (Ok xs)"
    by (auto split: option.splits sum.splits)
  have z: "0 \<notin> set (drop (length (ys @ [x]) + 1) xs)"
    using Cons.prems(2) set_drop_subset_set_drop [of "length ys + 1" "length ys + 2" xs] by auto
  note ih = Cons.IH [OF d z]
  from ih have "xs ! (length ys + 1) = v" "length ys + 1 < length xs"
    by (metis (no_types, lifting) length_append_singleton lessI nth_append_length nth_take
        add.commute plus_1_eq_Suc) (use ih in simp)
  then have "v \<in> set (drop (length ys + 1) xs)"
    by (metis Cons_nth_drop_Suc list.set_intros(1))
  with Cons.prems(2) have "v \<noteq> 0" by metis
  moreover have "take (length ys + 1) xs = ys @ [x]"
    using ih by (metis butlast_snoc butlast_take diff_add_inverse2 length_append_singleton
        add.commute le_add1 plus_1_eq_Suc)
  ultimately show ?case using v ih by simp
qed

text \<open>
  \<^verbatim>\<open>debug_calculation\<close> lists the input and the output of every step; as long as no step gives
  0, its last entry is what the uncached calculation returns.
\<close>

theorem debug_calculation_last:
  assumes "debug_calculation E db path = Some (Ok xs)" and "0 \<notin> set (tl xs)"
  shows "plain_steps E db (sp_steps path) AMOUNT = Some (Ok (last xs)) \<and>
         length xs = length (sp_steps path) + 1 \<and> hd xs = AMOUNT"
proof -
  from debug_steps_plain [of E db "sp_steps path" AMOUNT "[]" xs] assms
  have r: "plain_steps E db (sp_steps path) AMOUNT = Some (Ok (last xs))"
    "length xs = length (sp_steps path) + 1" "take 1 xs = [AMOUNT]"
    by (simp_all add: debug_calculation_def drop_Suc)
  from r(3) have "hd xs = AMOUNT" by (cases xs) simp_all
  with r show ?thesis by simp
qed

theorem debug_calculation_last_witness:
  "debug_calculation ex_env ex_v2_db (ex_path [ex_step 10 20]) = Some (Ok [AMOUNT, 1999999]) \<and>
   plain_steps ex_env ex_v2_db [ex_step 10 20] AMOUNT = Some (Ok 1999999)"
proof -
  have "debug_calculation ex_env ex_v2_db (ex_path [ex_step 10 20]) = Some (Ok [AMOUNT, 1999999])"
    by (simp add: debug_calculation_def ex_path_def ex_step_output)
  with debug_calculation_last [OF this] show ?thesis by (simp add: ex_path_def)
qed

subsection \<open>What an output depends on\<close>

text \<open>Two databases agree on a pool when every read that a calculation makes of its slots gives
  the same; the slots 0, 4 and 14 are read from the cache only.\<close>

definition reads_agree :: "state_db \<Rightarrow> state_db \<Rightarrow> address \<Rightarrow> bool" where
  "reads_agree db db' p \<longleftrightarrow>
     (\<forall>k. storage_ref db' p k = storage_ref db p k) \<and>
     (\<forall>k \<in> {0, 4, 14}. cached_value db' p k = cached_value db p k) \<and>
     db_pool_info db' p = db_pool_info db p"

named_theorems agree \<open>calculations that agree on agreeing databases\<close>

lemma agree_getters [agree]:
  assumes "reads_agree db db' p"
  shows "zero_to_one db' p t = zero_to_one db p t" "get_reserves db' p = get_reserves db p"
    "get_token0 db' p = get_token0 db p" "slot0 db' p = slot0 db p"
    "liquidity db' p = liquidity db p" "tick_spacing db' p = tick_spacing db p"
    "ticks_liquidity_net kc db' p i = ticks_liquidity_net kc db p i"
    "tick_bitmap kc db' p w = tick_bitmap kc db p w"
  using assms
  by (simp_all add: reads_agree_def zero_to_one_def get_reserves_def get_token0_def slot0_def
      liquidity_def tick_spacing_def ticks_liquidity_net_def tick_bitmap_def read_hashed_slot_def)

lemma agree_outputs:
  assumes "reads_agree db db' p"
  shows "uniswap_v2_out db' x p t f = uniswap_v2_out db x p t f"
    and "aerodrome_out I db' x t p = aerodrome_out I db x t p"
    and "uniswap_v3_out M kc db' x p t fee = uniswap_v3_out M kc db x p t fee"
proof -
  note a = agree [OF assms]
  show "uniswap_v2_out db' x p t f = uniswap_v2_out db x p t f"
    by (simp add: uniswap_v2_out_def a)
  show "aerodrome_out I db' x t p = aerodrome_out I db x t p"
    by (simp add: aerodrome_out_def a)
  have "v3_start db' x p t = v3_start db x p t" by (simp add: v3_start_def a)
  moreover have "v3_iteration M kc db' p z l sp fee = v3_iteration M kc db p z l sp fee" for z l sp
    by (intro ext) (simp add: v3_iteration_def load_window_def v3_advance_def a cong: if_cong)
  ultimately show "uniswap_v3_out M kc db' x p t fee = uniswap_v3_out M kc db x p t fee"
    by (simp add: uniswap_v3_out_def split: sum.split prod.split)
qed

text \<open>The pool types that are calculated without the EVM.\<close>

definition native :: "pool_type \<Rightarrow> bool" where
  "native t \<longleftrightarrow> t \<notin> {MaverickV1, MaverickV2, CurveTwoCrypto, CurveTriCrypto}"

lemma agree_compute:
  assumes "reads_agree db db' p" and "native ty" and "cn_aero E db' = cn_aero E db"
  shows "compute_amount_out E db' x p t ty fee = compute_amount_out E db x p t ty fee"
  using assms(2,3)
  by (cases ty) (simp_all add: compute_amount_out_def native_def agree_outputs [OF assms(1)])

lemma agree_use_output:
  assumes "reads_agree db db' p" and "native (fst (snd (use p)))" and "cn_aero E db' = cn_aero E db"
  shows "use_output E db' use p x = use_output E db use p x"
  using agree_compute [OF assms] by (simp add: use_output_def case_prod_unfold Let_def)

lemma update_all_slots_agree:
  assumes "update_all_slots db a ts = Ok db'" and "p \<noteq> a"
  shows "reads_agree db db' p"
proof -
  have "db_accounts db' p = db_accounts db p" "db_provider db' = db_provider db"
    "db_pool_info db' = db_pool_info db"
    using assms by (auto simp: update_all_slots_def update_slot_other update_slots_fields
        split: option.splits)
  then show ?thesis
    by (simp add: reads_agree_def storage_ref_def cached_slot_def cached_value_def
        cong: option.case_cong)
qed

lemma reads_agree_refl: "reads_agree db db p"
  by (simp add: reads_agree_def)

lemma reads_agree_trans: "reads_agree a b p \<Longrightarrow> reads_agree b c p \<Longrightarrow> reads_agree a c p"
  by (simp add: reads_agree_def)

end
