(* ===== verification/Estimator.thy ===== *)
theory Estimator
  imports Calculator
begin

text \<open>
  The estimator (\<^verbatim>\<open>src/estimator.rs\<close>): per pool and token a rate with 18 decimals, computed
  once per touched pool, from which paths are estimated before any exact calculation.

  The two hash maps of rates are functions to \<open>option\<close>; the address of WETH, an environment
  variable, is a parameter. \<open>market_state\<close> and \<open>calculator\<close> are the database and the
  \<open>calc_env\<close> that the operations take.
\<close>

subsection \<open>State\<close>

record estimator =
  es_rates :: "address \<Rightarrow> (address \<Rightarrow> u256 option) option"
  es_weth_based :: "address \<Rightarrow> bool option"
  es_aggregated :: "address \<Rightarrow> u256 option"
  es_decimals :: "address \<Rightarrow> u32 option"

definition estimator_new :: estimator where
  "estimator_new =
     \<lparr>es_rates = Map.empty, es_weth_based = Map.empty, es_aggregated = Map.empty,
      es_decimals = Map.empty\<rparr>"

text \<open>\<open>self.rates.entry(pool).or_default().insert(token, rate)\<close> and a lookup of both keys.\<close>

definition insert_rate :: "address \<Rightarrow> address \<Rightarrow> u256 \<Rightarrow> estimator \<Rightarrow> estimator" where
  "insert_rate pool token rate es =
     es\<lparr>es_rates := (es_rates es)(pool \<mapsto>
          ((case es_rates es pool of Some m \<Rightarrow> m | None \<Rightarrow> Map.empty)(token \<mapsto> rate)))\<rparr>"

definition rate_of :: "estimator \<Rightarrow> address \<Rightarrow> address \<Rightarrow> u256 option" where
  "rate_of es pool token = Option.bind (es_rates es pool) (\<lambda>m. m token)"

definition decimals_or_18 :: "estimator \<Rightarrow> address \<Rightarrow> u32" where
  "decimals_or_18 es token = (case es_decimals es token of Some d \<Rightarrow> d | None \<Rightarrow> 18)"

subsection \<open>Rates\<close>

definition scale_to_rate :: "u256 \<Rightarrow> u32 \<Rightarrow> u256 res" where
  "scale_to_rate amount token_decimals =
     (if token_decimals \<le> 18
      then Ok (amount * ucast ((10 :: u64) ^ unat (18 - token_decimals)))
      else udiv amount (ucast ((10 :: u64) ^ unat (token_decimals - 18))))"

definition checked_ratio :: "u256 \<Rightarrow> u256 \<Rightarrow> u256 \<Rightarrow> u256" where
  "checked_ratio a b c =
     (case Option.bind (checked_mul a b) (\<lambda>v. checked_div v c) of Some r \<Rightarrow> r | None \<Rightarrow> 0)"

definition calculate_rate :: "u256 \<Rightarrow> u256 \<Rightarrow> u32 \<Rightarrow> u32 \<Rightarrow> u256 res" where
  "calculate_rate input output input_decimals output_decimals =
     rbind (scale_to_rate input input_decimals) (\<lambda>scaled_input.
     rbind (scale_to_rate output output_decimals) (\<lambda>scaled_output.
       Ok (checked_ratio scaled_output e18 scaled_input)))"

subsection \<open>Estimates\<close>

fun estimate_steps :: "estimator \<Rightarrow> swap_step list \<Rightarrow> u256 \<Rightarrow> u256" where
  "estimate_steps es [] current_amount = current_amount"
| "estimate_steps es (s # ss) current_amount =
     (case es_rates es (st_pool s) of
        Some pool_rates \<Rightarrow>
          (case pool_rates (st_token_in s) of
             Some rate \<Rightarrow> estimate_steps es ss (checked_ratio current_amount rate e18)
           | None \<Rightarrow> 0)
      | None \<Rightarrow> 0)"

definition estimate_output_amount :: "estimator \<Rightarrow> swap_path \<Rightarrow> u256" where
  "estimate_output_amount es path = estimate_steps es (sp_steps path) AMOUNT"

text \<open>\<open>None\<close> is the early \<open>return false\<close>.\<close>

fun cumulative_rate :: "estimator \<Rightarrow> swap_step list \<Rightarrow> u256 \<Rightarrow> u256 option" where
  "cumulative_rate es [] acc = Some acc"
| "cumulative_rate es (s # ss) acc =
     (case es_rates es (st_pool s) of
        Some pool_rates \<Rightarrow>
          (case pool_rates (st_token_in s) of
             Some rate \<Rightarrow> cumulative_rate es ss (checked_ratio acc rate e18)
           | None \<Rightarrow> None)
      | None \<Rightarrow> None)"

definition is_profitable :: "estimator \<Rightarrow> swap_path \<Rightarrow> u256 \<Rightarrow> bool" where
  "is_profitable es path min_profit_ratio =
     (case cumulative_rate es (sp_steps path) e18 of
        Some rate \<Rightarrow> rate > e18 + min_profit_ratio
      | None \<Rightarrow> False)"

subsection \<open>Processing pools\<close>

text \<open>The estimator with the two tables \<^verbatim>\<open>process_pools\<close> fills on the way.\<close>

record eth_pass =
  ep_es :: estimator
  ep_alts :: "address set"
  ep_counts :: "address \<Rightarrow> u32 option"

definition process_eth_pool ::
  "calc_env \<Rightarrow> state_db \<Rightarrow> address \<Rightarrow> u256 \<Rightarrow> pool \<Rightarrow> eth_pass \<Rightarrow> eth_pass res option"
where
  "process_eth_pool E db weth_addr input p st =
     (let pool_address = pl_address p;
          token0 = pl_token0 p;
          token1 = pl_token1 p;
          es = (ep_es st)\<lparr>es_decimals := (es_decimals (ep_es st))
                  (token0 \<mapsto> ucast (pl_decimals0 p), token1 \<mapsto> ucast (pl_decimals1 p))\<rparr>;
          (weth, alt) = (if token0 = weth_addr then (token0, token1) else (token1, token0))
      in dbind (compute_pool_output E db pool_address weth (pl_type p) (pl_fee p) input)
           (\<lambda>alt_output.
         let weth_decimals = decimals_or_18 es weth;
             alt_decimals = decimals_or_18 es alt
         in dbind (compute_pool_output E db pool_address alt (pl_type p) (pl_fee p) alt_output)
              (\<lambda>other_output.
            dbind (Some (calculate_rate input alt_output weth_decimals alt_decimals))
              (\<lambda>zero_one_rate.
            dbind (Some (calculate_rate alt_output other_output alt_decimals weth_decimals))
              (\<lambda>one_zero_rate.
            let es = insert_rate pool_address token0 zero_one_rate es;
                es = insert_rate pool_address token1 one_zero_rate es;
                old = (case es_aggregated es alt of Some r \<Rightarrow> r | None \<Rightarrow> 0);
                added = (if weth = token0 then zero_one_rate else one_zero_rate);
                count = (case ep_counts st alt of Some c \<Rightarrow> c | None \<Rightarrow> 0)
            in Some (Ok \<lparr>ep_es = es\<lparr>es_aggregated := (es_aggregated es)(alt \<mapsto> old + added)\<rparr>,
                        ep_alts = insert alt (ep_alts st),
                        ep_counts = (ep_counts st)(alt \<mapsto> count + 1)\<rparr>))))))"

text \<open>The division of the sums by the counts; the entries are independent of each other, so
  the order in which the hash set yields them has no effect.\<close>

definition average_rates :: "eth_pass \<Rightarrow> estimator" where
  "average_rates st =
     (ep_es st)\<lparr>es_aggregated := (\<lambda>token.
        if token \<in> ep_alts st then
          (case ep_counts st token of
             Some count \<Rightarrow>
               map_option (\<lambda>rate. case checked_div rate (ucast count) of Some r \<Rightarrow> r | None \<Rightarrow> 0)
                 (es_aggregated (ep_es st) token)
           | None \<Rightarrow> es_aggregated (ep_es st) token)
        else es_aggregated (ep_es st) token)\<rparr>"

definition process_nonweth_pool ::
  "calc_env \<Rightarrow> state_db \<Rightarrow> pool \<Rightarrow> estimator \<Rightarrow> estimator res option"
where
  "process_nonweth_pool E db p es =
     (let pool_address = pl_address p;
          token0 = pl_token0 p;
          token1 = pl_token1 p
      in case es_aggregated es token0 of
           None \<Rightarrow> Some (Ok es)
         | Some input_rate \<Rightarrow>
             (let token0_decimals = decimals_or_18 es token0
              in dbind (compute_pool_output E db pool_address token0 (pl_type p) (pl_fee p) input_rate)
                   (\<lambda>output.
                 let token1_decimals = decimals_or_18 es token1
                 in dbind (compute_pool_output E db pool_address token1 (pl_type p) (pl_fee p) output)
                      (\<lambda>other_output.
                    dbind (Some (calculate_rate input_rate output token0_decimals token1_decimals))
                      (\<lambda>zero_one_rate.
                    dbind (Some (calculate_rate output other_output token1_decimals token0_decimals))
                      (\<lambda>one_zero_rate.
                      Some (Ok (insert_rate pool_address token1 one_zero_rate
                                 (insert_rate pool_address token0 zero_one_rate es)))))))))"

definition is_weth_pool :: "address \<Rightarrow> pool \<Rightarrow> bool" where
  "is_weth_pool weth p \<longleftrightarrow> pl_token0 p = weth \<or> pl_token1 p = weth"

text \<open>One pool of the first loop, and the loop.\<close>

definition process_weth_based ::
  "calc_env \<Rightarrow> state_db \<Rightarrow> address \<Rightarrow> pool \<Rightarrow> eth_pass \<Rightarrow> eth_pass res option"
where
  "process_weth_based E db weth p st =
     (let es = ep_es st
      in process_eth_pool E db weth AMOUNT p
           (st\<lparr>ep_es := es\<lparr>es_weth_based := (es_weth_based es)(pl_address p \<mapsto> True)\<rparr>\<rparr>))"

definition process_pools ::
  "calc_env \<Rightarrow> state_db \<Rightarrow> address \<Rightarrow> pool list \<Rightarrow> estimator \<Rightarrow> estimator res option"
where
  "process_pools E db weth pools es =
     dbind (dfold (process_weth_based E db weth) (filter (is_weth_pool weth) pools)
              \<lparr>ep_es = es, ep_alts = {}, ep_counts = Map.empty\<rparr>) (\<lambda>st.
       dfold (process_nonweth_pool E db) (filter (\<lambda>p. \<not> is_weth_pool weth p) pools)
         (average_rates st))"

text \<open>The addresses in the order in which the hash set yields them.\<close>

definition get_pools :: "state_db \<Rightarrow> address list \<Rightarrow> pool list res" where
  "get_pools db addrs = rfold (\<lambda>a ps. rbind (get_pool db a) (\<lambda>p. Ok (ps @ [p]))) addrs []"

definition update_rates ::
  "calc_env \<Rightarrow> state_db \<Rightarrow> address \<Rightarrow> address list \<Rightarrow> estimator \<Rightarrow> estimator res option"
where
  "update_rates E db weth pool_addrs es =
     dbind (Some (get_pools db pool_addrs)) (\<lambda>pools. process_pools E db weth pools es)"

subsection \<open>The arithmetic of rates\<close>

lemma unat_ten_power:
  assumes "k \<le> 18"
  shows "unat (ucast ((10 :: u64) ^ k) :: u256) = 10 ^ k"
proof -
  have "(10 :: nat) ^ k \<le> 10 ^ 18" using assms by (intro power_increasing) simp_all
  then have "unat ((10 :: u64) ^ k) = 10 ^ k" by (subst unat_pow_exact) simp_all
  then show ?thesis by (simp add: unat_ucast_up)
qed

lemma scale_to_rate_exact:
  assumes "d \<le> 18" and "unat x < 2 ^ 128"
  shows "\<exists>s. scale_to_rate x d = Ok s \<and> unat s = unat x * 10 ^ (18 - unat d) \<and>
           unat s < 2 ^ 128 * (10 ^ 18 + 1)"
proof -
  have k: "unat (18 - d) = 18 - unat d" using unat_sub_exact [OF assms(1)] by simp
  let ?m = "ucast ((10 :: u64) ^ unat (18 - d)) :: u256"
  have m: "unat ?m = 10 ^ (18 - unat d)" unfolding k by (rule unat_ten_power) simp
  have "(10 :: nat) ^ (18 - unat d) \<le> 10 ^ 18" by (intro power_increasing) simp_all
  then have b: "unat x * 10 ^ (18 - unat d) < 2 ^ 128 * (10 ^ 18 + 1)"
    using assms(2) by (intro mult_lt_bounds) simp_all
  then have "unat (x * ?m) = unat x * 10 ^ (18 - unat d)"
    using m by (subst unat_mul_exact) simp_all
  with b assms(1) show ?thesis by (simp add: scale_to_rate_def)
qed

lemma checked_ratio_exact:
  "unat a * unat b < 2 ^ 256 \<Longrightarrow> unat (checked_ratio a b c) = unat a * unat b div unat c"
  by (simp add: checked_ratio_def checked_mul_def checked_div_def unat_div_exact unat_mul_exact)

lemma checked_ratio_le: "unat (checked_ratio a b c) * unat c \<le> unat a * unat b"
proof (cases "unat a * unat b < 2 ^ 256")
  case True
  then show ?thesis by (simp add: checked_ratio_exact)
next
  case False
  then show ?thesis by (simp add: checked_ratio_def checked_mul_def)
qed

text \<open>
  For tokens of at most 18 decimals and amounts below \<open>2^128\<close>, \<^verbatim>\<open>calculate_rate\<close> is the
  quotient of the two amounts brought to 18 decimals, with 18 decimals, rounded down; no
  intermediate product overflows, and an input of 0 gives the rate 0.
\<close>

theorem calculate_rate_exact:
  assumes "di \<le> 18" and "do \<le> 18" and "unat i < 2 ^ 128" and "unat out < 2 ^ 128"
  shows "\<exists>r. calculate_rate i out di do = Ok r \<and>
           unat r = unat out * 10 ^ (18 - unat do) * 10 ^ 18 div (unat i * 10 ^ (18 - unat di))"
proof -
  obtain s where s: "scale_to_rate i di = Ok s" "unat s = unat i * 10 ^ (18 - unat di)"
    using scale_to_rate_exact [OF assms(1,3)] by auto
  obtain t where t: "scale_to_rate out do = Ok t" "unat t = unat out * 10 ^ (18 - unat do)"
    "unat t < 2 ^ 128 * (10 ^ 18 + 1)"
    using scale_to_rate_exact [OF assms(2,4)] by auto
  have "unat t * unat e18 < 2 ^ 256" using t(3) by simp
  from checked_ratio_exact [OF this, of s] s t(1,2) show ?thesis
    by (simp add: calculate_rate_def)
qed

theorem calculate_rate_exact_witness:
  "calculate_rate 1000000 500000000000000000 6 18 = Ok 500000000000000000"
proof -
  have u: "unat (6 :: u32) = 6" "unat (18 :: u32) = 18" by simp_all
  obtain r where r: "calculate_rate 1000000 500000000000000000 6 18 = Ok r"
    "unat r = unat (500000000000000000 :: u256) * 10 ^ (18 - unat (18 :: u32)) * 10 ^ 18 div
       (unat (1000000 :: u256) * 10 ^ (18 - unat (6 :: u32)))"
    using calculate_rate_exact [of 6 18 1000000 500000000000000000] by auto
  then have "unat r = unat (500000000000000000 :: u256)" by simp
  with r(1) show ?thesis by (simp only: word_unat_eq_iff [symmetric])
qed

subsection \<open>Estimates against the product of the rates\<close>

definition rates_along :: "estimator \<Rightarrow> swap_step list \<Rightarrow> nat list" where
  "rates_along es ss =
     map (\<lambda>s. case rate_of es (st_pool s) (st_token_in s) of Some r \<Rightarrow> unat r | None \<Rightarrow> 0) ss"

lemma estimate_steps_rate:
  "estimate_steps es (s # ss) x =
     (case rate_of es (st_pool s) (st_token_in s) of
        Some rate \<Rightarrow> estimate_steps es ss (checked_ratio x rate e18) | None \<Rightarrow> 0)"
  by (simp add: rate_of_def split: option.split)

lemma cumulative_rate_estimate:
  "cumulative_rate es ss x = Some r \<Longrightarrow> estimate_steps es ss x = r"
  by (induction ss arbitrary: x) (auto split: option.splits)

lemma estimate_steps_le:
  "unat (estimate_steps es ss x) * 10 ^ (18 * length ss) \<le> unat x * prod_list (rates_along es ss)"
proof (induction ss arbitrary: x)
  case Nil
  then show ?case by (simp add: rates_along_def)
next
  case (Cons s ss)
  show ?case
  proof (cases "rate_of es (st_pool s) (st_token_in s)")
    case None
    then show ?thesis by (simp add: estimate_steps_rate del: estimate_steps.simps)
  next
    case (Some r)
    let ?y = "checked_ratio x r e18" and ?p = "prod_list (rates_along es ss)"
    have e: "(10 :: nat) ^ (18 * length (s # ss)) = 10 ^ (18 * length ss) * 10 ^ 18"
      by (simp add: power_add)
    have "unat (estimate_steps es ss ?y) * 10 ^ (18 * length ss) * 10 ^ 18 \<le> unat ?y * ?p * 10 ^ 18"
      using Cons.IH [of ?y] by (rule mult_right_mono) simp
    also have "\<dots> = unat ?y * unat e18 * ?p" by (simp only: unat_e18 ac_simps)
    also have "\<dots> \<le> unat x * unat r * ?p"
      by (rule mult_right_mono [OF checked_ratio_le]) simp
    finally show ?thesis
      using Some unfolding e
      by (simp add: estimate_steps_rate rates_along_def ac_simps del: estimate_steps.simps)
  qed
qed

text \<open>
  C38: The estimate of a path never exceeds the exact product of its stored rates on \<open>AMOUNT\<close>,
  and is 0 when a rate is missing; a path reported as profitable really has a product of
  rates above one plus the demanded margin.
\<close>

theorem estimates_bounded_by_rates:
  "unat (estimate_output_amount es path) * 10 ^ (18 * length (sp_steps path))
     \<le> unat AMOUNT * prod_list (rates_along es (sp_steps path)) \<and>
   (is_profitable es path m \<and> unat m + 10 ^ 18 < 2 ^ 256 \<longrightarrow>
     (10 ^ 18 + unat m) * 10 ^ (18 * length (sp_steps path))
       < 10 ^ 18 * prod_list (rates_along es (sp_steps path)))"
proof (intro conjI impI)
  show "unat (estimate_output_amount es path) * 10 ^ (18 * length (sp_steps path))
     \<le> unat AMOUNT * prod_list (rates_along es (sp_steps path))"
    unfolding estimate_output_amount_def by (rule estimate_steps_le)
next
  assume *: "is_profitable es path m \<and> unat m + 10 ^ 18 < 2 ^ 256"
  then obtain r where r: "cumulative_rate es (sp_steps path) e18 = Some r" "e18 + m < r"
    by (auto simp: is_profitable_def split: option.splits)
  have "unat (e18 + m) = 10 ^ 18 + unat m" using * by (subst unat_add_exact) simp_all
  then have "10 ^ 18 + unat m < unat r" using r(2) by (simp add: word_less_nat_alt)
  then have "(10 ^ 18 + unat m) * 10 ^ (18 * length (sp_steps path))
      < unat r * 10 ^ (18 * length (sp_steps path))"
    by (rule mult_strict_right_mono) simp
  also have "\<dots> \<le> 10 ^ 18 * prod_list (rates_along es (sp_steps path))"
    using estimate_steps_le [of es "sp_steps path" e18] cumulative_rate_estimate [OF r(1)] by simp
  finally show "(10 ^ 18 + unat m) * 10 ^ (18 * length (sp_steps path))
       < 10 ^ 18 * prod_list (rates_along es (sp_steps path))" .
qed

definition ex_rates :: "u256 \<Rightarrow> estimator" where
  "ex_rates r = insert_rate 77 10 r estimator_new"

theorem estimates_bounded_by_rates_witness:
  "is_profitable (ex_rates 1100000000000000000) (ex_path [ex_step 10 20]) 5 \<and>
   (10 ^ 18 + 5) * 10 ^ 18 < (10 :: nat) ^ 18 * 1100000000000000000"
proof -
  have p: "is_profitable (ex_rates 1100000000000000000) (ex_path [ex_step 10 20]) 5"
    by (simp add: is_profitable_def ex_path_def ex_step_def ex_rates_def insert_rate_def
        estimator_new_def checked_ratio_def checked_mul_def checked_div_def)
  moreover have "unat (5 :: u256) + 10 ^ 18 < 2 ^ 256" by simp
  ultimately have "(10 ^ 18 + unat (5 :: u256)) * 10 ^ (18 * length (sp_steps (ex_path [ex_step 10 20])))
       < 10 ^ 18 * prod_list (rates_along (ex_rates 1100000000000000000) (sp_steps (ex_path [ex_step 10 20])))"
    using estimates_bounded_by_rates by blast
  with p show ?thesis
    by (simp add: rates_along_def ex_path_def ex_step_def ex_rates_def rate_of_def insert_rate_def
        estimator_new_def)
qed

subsection \<open>What processing stores\<close>

lemma rate_of_insert:
  "rate_of (insert_rate p t r es) a u = (if a = p \<and> u = t then Some r else rate_of es a u)"
  by (auto simp: rate_of_def insert_rate_def split: option.split)

lemma insert_rate_fields [simp]:
  "es_weth_based (insert_rate p t r es) = es_weth_based es"
  "es_aggregated (insert_rate p t r es) = es_aggregated es"
  "es_decimals (insert_rate p t r es) = es_decimals es"
  by (simp_all add: insert_rate_def)

lemma rate_of_cong: "es_rates es = es_rates es' \<Longrightarrow> rate_of es a t = rate_of es' a t"
  by (simp add: rate_of_def)

text \<open>The two quotes and rates of a pool that holds WETH, and where they go.\<close>

lemma process_eth_pool_cases:
  assumes "process_eth_pool E db weth x p st = Some (Ok st')"
  obtains w alt dw da out ret rw ra where
    "(w, alt) = (if pl_token0 p = weth then (pl_token0 p, pl_token1 p) else (pl_token1 p, pl_token0 p))"
    "compute_pool_output E db (pl_address p) w (pl_type p) (pl_fee p) x = Some (Ok out)"
    "compute_pool_output E db (pl_address p) alt (pl_type p) (pl_fee p) out = Some (Ok ret)"
    "calculate_rate x out dw da = Ok rw" "calculate_rate out ret da dw = Ok ra"
    "\<And>a t. rate_of (ep_es st') a t =
       (if a = pl_address p \<and> t = pl_token1 p then Some ra
        else if a = pl_address p \<and> t = pl_token0 p then Some rw else rate_of (ep_es st) a t)"
    "es_aggregated (ep_es st') = (es_aggregated (ep_es st))(alt \<mapsto>
       (case es_aggregated (ep_es st) alt of Some r \<Rightarrow> r | None \<Rightarrow> 0) +
       (if w = pl_token0 p then rw else ra))"
    "ep_alts st' = insert alt (ep_alts st)"
    "ep_counts st' = (ep_counts st)(alt \<mapsto> (case ep_counts st alt of Some c \<Rightarrow> c | None \<Rightarrow> 0) + 1)"
    "es_weth_based (ep_es st') = es_weth_based (ep_es st)"
proof -
  let ?es = "(ep_es st)\<lparr>es_decimals := (es_decimals (ep_es st))
      (pl_token0 p \<mapsto> ucast (pl_decimals0 p), pl_token1 p \<mapsto> ucast (pl_decimals1 p))\<rparr>"
  obtain w alt where wa:
    "(w, alt) = (if pl_token0 p = weth then (pl_token0 p, pl_token1 p) else (pl_token1 p, pl_token0 p))"
    by (metis surj_pair)
  from assms obtain out ret rw ra where
    o: "compute_pool_output E db (pl_address p) w (pl_type p) (pl_fee p) x = Some (Ok out)"
    "compute_pool_output E db (pl_address p) alt (pl_type p) (pl_fee p) out = Some (Ok ret)"
    "calculate_rate x out (decimals_or_18 ?es w) (decimals_or_18 ?es alt) = Ok rw"
    "calculate_rate out ret (decimals_or_18 ?es alt) (decimals_or_18 ?es w) = Ok ra"
    and st': "st' = \<lparr>ep_es = (insert_rate (pl_address p) (pl_token1 p) ra
          (insert_rate (pl_address p) (pl_token0 p) rw ?es))
        \<lparr>es_aggregated := (es_aggregated (ep_es st))(alt \<mapsto>
           (case es_aggregated (ep_es st) alt of Some r \<Rightarrow> r | None \<Rightarrow> 0) +
           (if w = pl_token0 p then rw else ra))\<rparr>,
      ep_alts = insert alt (ep_alts st),
      ep_counts = (ep_counts st)(alt \<mapsto> (case ep_counts st alt of Some c \<Rightarrow> c | None \<Rightarrow> 0) + 1)\<rparr>"
    unfolding process_eth_pool_def Let_def wa [symmetric] dbind_eq_Some_Inr prod.case
    by auto
  have r: "rate_of (ep_es st') a t =
       (if a = pl_address p \<and> t = pl_token1 p then Some ra
        else if a = pl_address p \<and> t = pl_token0 p then Some rw else rate_of (ep_es st) a t)" for a t
  proof -
    have "rate_of (ep_es st') a t = rate_of (insert_rate (pl_address p) (pl_token1 p) ra
          (insert_rate (pl_address p) (pl_token0 p) rw ?es)) a t"
      unfolding st' by (rule rate_of_cong) simp
    also have "\<dots> = (if a = pl_address p \<and> t = pl_token1 p then Some ra
        else if a = pl_address p \<and> t = pl_token0 p then Some rw else rate_of ?es a t)"
      by (simp add: rate_of_insert)
    also have "rate_of ?es a t = rate_of (ep_es st) a t" by (rule rate_of_cong) simp
    finally show ?thesis .
  qed
  show thesis by (rule that [OF wa o r]) (simp_all add: st')
qed

text \<open>
  A pool whose \<open>token0\<close> is WETH gets the right rates: under WETH the rate of selling the
  input to the pool, under the other token the rate of selling its output again.
\<close>

theorem weth_token0_rates:
  assumes "process_eth_pool E db weth x p st = Some (Ok st')"
    and "pl_token0 p = weth" and "pl_token1 p \<noteq> weth"
  shows "\<exists>out other r r'.
      compute_pool_output E db (pl_address p) weth (pl_type p) (pl_fee p) x = Some (Ok out) \<and>
      compute_pool_output E db (pl_address p) (pl_token1 p) (pl_type p) (pl_fee p) out = Some (Ok other) \<and>
      (\<exists>dw da. calculate_rate x out dw da = Ok r \<and> calculate_rate out other da dw = Ok r') \<and>
      rate_of (ep_es st') (pl_address p) weth = Some r \<and>
      rate_of (ep_es st') (pl_address p) (pl_token1 p) = Some r'"
  by (rule process_eth_pool_cases [OF assms(1)]) (use assms(2,3) in auto)

text \<open>
  C39: A pool whose \<open>token1\<close> is WETH gets them the wrong way round: the rate from WETH to the
  other token is stored under the other token and the reverse rate under WETH, so a path
  that enters the pool with WETH is estimated with the rate of the opposite direction.
\<close>

theorem weth_token1_rates_swapped:
  assumes "process_eth_pool E db weth x p st = Some (Ok st')"
    and "pl_token1 p = weth" and "pl_token0 p \<noteq> weth"
  shows "\<exists>out other r r'.
      compute_pool_output E db (pl_address p) weth (pl_type p) (pl_fee p) x = Some (Ok out) \<and>
      compute_pool_output E db (pl_address p) (pl_token0 p) (pl_type p) (pl_fee p) out = Some (Ok other) \<and>
      (\<exists>dw da. calculate_rate x out dw da = Ok r \<and> calculate_rate out other da dw = Ok r') \<and>
      rate_of (ep_es st') (pl_address p) (pl_token0 p) = Some r \<and>
      (\<forall>s. st_pool s = pl_address p \<and> st_token_in s = weth \<longrightarrow>
        (\<forall>h. estimate_output_amount (ep_es st') \<lparr>sp_steps = [s], sp_hash = h\<rparr> =
           checked_ratio AMOUNT r' e18))"
  by (rule process_eth_pool_cases [OF assms(1)])
     (use assms(2,3) in \<open>auto simp: estimate_output_amount_def estimate_steps_rate
        simp del: estimate_steps.simps(2)\<close>)

text \<open>
  C40: The aggregated rate of a token is a sum divided by the number of pools in this call, but
  the sum starts at the old average: updating a single pool adds its rate to what was
  there.
\<close>

theorem aggregated_rate_accumulates:
  assumes "process_pools E db weth [p] es = Some (Ok es')" and "is_weth_pool weth p"
    and "alt = (if pl_token0 p = weth then pl_token1 p else pl_token0 p)"
    and "es_aggregated es alt = Some old" and "pl_token0 p \<noteq> pl_token1 p"
  shows "\<exists>r. rate_of es' (pl_address p) weth = Some r \<and> es_aggregated es' alt = Some (old + r)"
proof -
  let ?st = "\<lparr>ep_es = es\<lparr>es_weth_based := (es_weth_based es)(pl_address p \<mapsto> True)\<rparr>,
              ep_alts = {}, ep_counts = Map.empty\<rparr>"
  from assms(1,2) obtain st' where
    p: "process_eth_pool E db weth AMOUNT p ?st = Some (Ok st')" and es': "es' = average_rates st'"
    by (auto simp: process_pools_def process_weth_based_def dbind_eq_Some_Inr Let_def)
  show ?thesis
  proof (rule process_eth_pool_cases [OF p], goal_cases)
    case (1 w al dw da out ret rw ra)
    then have a: "al = alt" "w = weth"
      using assms(2,3,5) by (auto simp: is_weth_pool_def split: if_splits)
    have "es_aggregated es' alt = Some (old + (if w = pl_token0 p then rw else ra))"
      using 1(7-9) assms(4) a
      by (simp add: es' average_rates_def checked_div_def)
    moreover have "rate_of es' (pl_address p) weth = rate_of (ep_es st') (pl_address p) weth"
      unfolding es' by (rule rate_of_cong) (simp add: average_rates_def)
    ultimately show ?thesis
      using 1(6) [of "pl_address p" weth] assms(2,5) a by (auto simp: is_weth_pool_def)
  qed
qed

subsection \<open>Every WETH pool gets its rates\<close>

lemma process_nonweth_pool_cases:
  assumes "process_nonweth_pool E db p es = Some (Ok es')"
  shows "es' = es \<or> (\<exists>r r'. es' = insert_rate (pl_address p) (pl_token1 p) r'
                         (insert_rate (pl_address p) (pl_token0 p) r es))"
  using assms by (auto simp: process_nonweth_pool_def Let_def dbind_eq_Some_Inr split: option.splits)

lemma process_nonweth_keeps:
  assumes "process_nonweth_pool E db p es = Some (Ok es')" and "rate_of es a t \<noteq> None"
  shows "rate_of es' a t \<noteq> None"
  using process_nonweth_pool_cases [OF assms(1)] assms(2) by (auto simp: rate_of_insert)

lemma process_eth_keeps:
  assumes "process_weth_based E db weth p st = Some (Ok st')" and "rate_of (ep_es st) a t \<noteq> None"
  shows "rate_of (ep_es st') a t \<noteq> None"
proof -
  let ?st = "st\<lparr>ep_es := (ep_es st)\<lparr>es_weth_based := (es_weth_based (ep_es st))(pl_address p \<mapsto> True)\<rparr>\<rparr>"
  have "rate_of (ep_es ?st) a t = rate_of (ep_es st) a t" by (rule rate_of_cong) simp
  with assms(2) have k: "rate_of (ep_es ?st) a t \<noteq> None" by simp
  from assms(1) have "process_eth_pool E db weth AMOUNT p ?st = Some (Ok st')"
    by (simp add: process_weth_based_def Let_def)
  then show ?thesis by (rule process_eth_pool_cases) (use k in simp)
qed

text \<open>
  When \<^verbatim>\<open>process_pools\<close> returns, every pool with WETH among the given ones has a rate for
  each of its two tokens, and no rate known before is lost: a path over such pools is never
  discarded for a missing rate.
\<close>

theorem process_pools_complete:
  assumes "process_pools E db weth pools es = Some (Ok es')"
  shows "(\<forall>p \<in> set pools. is_weth_pool weth p \<longrightarrow>
            rate_of es' (pl_address p) (pl_token0 p) \<noteq> None \<and>
            rate_of es' (pl_address p) (pl_token1 p) \<noteq> None) \<and>
         (\<forall>a t. rate_of es a t \<noteq> None \<longrightarrow> rate_of es' a t \<noteq> None)"
proof -
  let ?w = "filter (is_weth_pool weth) pools" and ?st = "\<lparr>ep_es = es, ep_alts = {}, ep_counts = Map.empty\<rparr>"
  from assms obtain st where
    first: "dfold (process_weth_based E db weth) ?w ?st = Some (Ok st)" and
    second: "dfold (process_nonweth_pool E db) (filter (\<lambda>p. \<not> is_weth_pool weth p) pools)
       (average_rates st) = Some (Ok es')"
    by (auto simp: process_pools_def dbind_eq_Some_Inr)
  have later: "rate_of es' a t \<noteq> None" if "rate_of (ep_es st) a t \<noteq> None" for a t
  proof -
    have "rate_of (average_rates st) a t = rate_of (ep_es st) a t"
      by (rule rate_of_cong) (simp add: average_rates_def)
    with that have "rate_of (average_rates st) a t \<noteq> None" by simp
    from dfold_invariant [OF second, of "\<lambda>s. rate_of s a t \<noteq> None", OF this]
    show ?thesis using process_nonweth_keeps by blast
  qed
  have kept: "rate_of (ep_es st) a t \<noteq> None" if "rate_of es a t \<noteq> None" for a t
    using dfold_invariant [OF first, of "\<lambda>s. rate_of (ep_es s) a t \<noteq> None"] that process_eth_keeps
    by simp
  have made: "rate_of (ep_es st) (pl_address p) (pl_token0 p) \<noteq> None \<and>
      rate_of (ep_es st) (pl_address p) (pl_token1 p) \<noteq> None"
    if p: "p \<in> set ?w" for p
  proof (rule dfold_establishes [OF first p])
    fix s t assume "process_weth_based E db weth p s = Some (Ok t)"
    then have "process_eth_pool E db weth AMOUNT p (s\<lparr>ep_es := (ep_es s)
        \<lparr>es_weth_based := (es_weth_based (ep_es s))(pl_address p \<mapsto> True)\<rparr>\<rparr>) = Some (Ok t)"
      by (simp add: process_weth_based_def Let_def)
    then show "rate_of (ep_es t) (pl_address p) (pl_token0 p) \<noteq> None \<and>
        rate_of (ep_es t) (pl_address p) (pl_token1 p) \<noteq> None"
      by (rule process_eth_pool_cases) simp
  next
    fix q s t
    assume "process_weth_based E db weth q s = Some (Ok t)"
      "rate_of (ep_es s) (pl_address p) (pl_token0 p) \<noteq> None \<and>
       rate_of (ep_es s) (pl_address p) (pl_token1 p) \<noteq> None"
    then show "rate_of (ep_es t) (pl_address p) (pl_token0 p) \<noteq> None \<and>
        rate_of (ep_es t) (pl_address p) (pl_token1 p) \<noteq> None"
      using process_eth_keeps by blast
  qed
  show ?thesis using later kept made by auto
qed

subsection \<open>Witnesses\<close>

text \<open>The pool of tokens 10 and 20, processed with either of them as WETH.\<close>

lemma ex_quotes:
  "compute_pool_output ex_env ex_v2_db 77 10 UniswapV2 0 AMOUNT = Some (Ok 1999999)"
  "compute_pool_output ex_env ex_v2_db 77 20 UniswapV2 0 1999999 = Some (Ok 499248)"
  "compute_pool_output ex_env ex_v2_db 77 20 UniswapV2 0 AMOUNT = Some (Ok 999999)"
  "compute_pool_output ex_env ex_v2_db 77 10 UniswapV2 0 999999 = Some (Ok 998497)"
  by (simp_all add: compute_pool_output_def compute_amount_out_def uniswap_v2_out_def
      ex_v2_db_reads AMOUNT_def udiv_def Let_def)

lemma ex_pool_fields:
  "pl_address ex_pool = 77" "pl_token0 ex_pool = 10" "pl_token1 ex_pool = 20"
  "pl_type ex_pool = UniswapV2" "pl_fee ex_pool = 0"
  by (simp_all add: ex_pool_def)

lemma ex_process_eth_pool:
  assumes "weth = 10 \<or> weth = 20"
  shows "\<exists>st'. process_eth_pool ex_env ex_v2_db weth AMOUNT ex_pool st = Some (Ok st')"
proof -
  have d: "\<exists>r. calculate_rate i out di do = Ok r" if "di \<le> 18" "do \<le> 18" for i out di do
    using that by (simp add: calculate_rate_def scale_to_rate_def)
  let ?es = "(ep_es st)\<lparr>es_decimals := (es_decimals (ep_es st))(10 \<mapsto> ucast (pl_decimals0 ex_pool),
      20 \<mapsto> ucast (pl_decimals1 ex_pool))\<rparr>"
  have k: "decimals_or_18 ?es 10 \<le> 18" "decimals_or_18 ?es 20 \<le> 18"
    by (simp_all add: decimals_or_18_def ex_pool_def)
  show ?thesis
  proof -
    obtain a b a' b' where
      "calculate_rate AMOUNT 1999999 (decimals_or_18 ?es 10) (decimals_or_18 ?es 20) = Ok a"
      "calculate_rate 1999999 499248 (decimals_or_18 ?es 20) (decimals_or_18 ?es 10) = Ok b"
      "calculate_rate AMOUNT 999999 (decimals_or_18 ?es 20) (decimals_or_18 ?es 10) = Ok a'"
      "calculate_rate 999999 998497 (decimals_or_18 ?es 10) (decimals_or_18 ?es 20) = Ok b'"
      using d [OF k] d [OF k(2,1)] by metis
    with assms show ?thesis
      by (elim disjE) (simp_all add: process_eth_pool_def ex_pool_fields ex_quotes Let_def)
  qed
qed

lemma ex_process_pools:
  "\<exists>es'. process_pools ex_env ex_v2_db 20 [ex_pool] es = Some (Ok es')"
  using ex_process_eth_pool [of 20]
  by (simp add: process_pools_def process_weth_based_def is_weth_pool_def ex_pool_fields
      dbind_eq_Some_Inr Let_def)

definition ex_pass :: eth_pass where
  "ex_pass = \<lparr>ep_es = estimator_new, ep_alts = {}, ep_counts = Map.empty\<rparr>"

theorem weth_token0_rates_witness:
  "\<exists>st' r r'. process_eth_pool ex_env ex_v2_db 10 AMOUNT ex_pool ex_pass = Some (Ok st') \<and>
     rate_of (ep_es st') 77 10 = Some r \<and> rate_of (ep_es st') 77 20 = Some r'"
proof -
  obtain st' where p: "process_eth_pool ex_env ex_v2_db 10 AMOUNT ex_pool ex_pass = Some (Ok st')"
    using ex_process_eth_pool [of 10] by blast
  from weth_token0_rates [OF p] p show ?thesis by (auto simp: ex_pool_fields)
qed

theorem weth_token1_rates_swapped_witness:
  "\<exists>st' r'. process_eth_pool ex_env ex_v2_db 20 AMOUNT ex_pool ex_pass = Some (Ok st') \<and>
     (\<exists>da dw. calculate_rate 999999 998497 da dw = Ok r') \<and>
     estimate_output_amount (ep_es st') (ex_path [ex_step 20 10]) = checked_ratio AMOUNT r' e18"
proof -
  obtain st' where p: "process_eth_pool ex_env ex_v2_db 20 AMOUNT ex_pool ex_pass = Some (Ok st')"
    using ex_process_eth_pool [of 20] by blast
  have s: "st_pool (ex_step 20 10) = 77" "st_token_in (ex_step 20 10) = 20"
    by (simp_all add: ex_step_def)
  have f: "pl_token1 ex_pool = 20" "pl_token0 ex_pool \<noteq> 20" by (simp_all add: ex_pool_fields)
  from weth_token1_rates_swapped [OF p f] obtain out other r r' dw da where
    o: "compute_pool_output ex_env ex_v2_db 77 20 UniswapV2 0 AMOUNT = Some (Ok out)"
      "compute_pool_output ex_env ex_v2_db 77 10 UniswapV2 0 out = Some (Ok other)"
      "calculate_rate out other da dw = Ok r'" and
    e: "\<And>s h. st_pool s = 77 \<and> st_token_in s = 20 \<Longrightarrow>
      estimate_output_amount (ep_es st') \<lparr>sp_steps = [s], sp_hash = h\<rparr> = checked_ratio AMOUNT r' e18"
    unfolding ex_pool_fields by blast
  from o(1) have "out = 999999" by (simp add: ex_quotes)
  with o(2) have "other = 998497" by (simp add: ex_quotes)
  with \<open>out = 999999\<close> o(3) have "calculate_rate 999999 998497 da dw = Ok r'" by simp
  moreover have "estimate_output_amount (ep_es st') (ex_path [ex_step 20 10]) = checked_ratio AMOUNT r' e18"
    unfolding ex_path_def by (rule e) (simp only: s simp_thms)
  ultimately show ?thesis using p by blast
qed

theorem aggregated_rate_accumulates_witness:
  "\<exists>es' r. process_pools ex_env ex_v2_db 20 [ex_pool] (estimator_new\<lparr>es_aggregated := [10 \<mapsto> 5]\<rparr>)
       = Some (Ok es') \<and> es_aggregated es' 10 = Some (5 + r)"
proof -
  obtain es' where p: "process_pools ex_env ex_v2_db 20 [ex_pool] (estimator_new\<lparr>es_aggregated := [10 \<mapsto> 5]\<rparr>)
       = Some (Ok es')"
    using ex_process_pools by blast
  have "is_weth_pool 20 ex_pool" "10 = (if pl_token0 ex_pool = 20 then pl_token1 ex_pool else pl_token0 ex_pool)"
    "es_aggregated (estimator_new\<lparr>es_aggregated := [10 \<mapsto> 5]\<rparr>) 10 = Some 5"
    "pl_token0 ex_pool \<noteq> pl_token1 ex_pool"
    by (simp_all add: ex_pool_fields is_weth_pool_def)
  from aggregated_rate_accumulates [OF p this] p show ?thesis by blast
qed

theorem process_pools_complete_witness:
  "\<exists>es'. process_pools ex_env ex_v2_db 20 [ex_pool] estimator_new = Some (Ok es') \<and>
     rate_of es' 77 10 \<noteq> None"
proof -
  obtain es' where p: "process_pools ex_env ex_v2_db 20 [ex_pool] estimator_new = Some (Ok es')"
    using ex_process_pools by blast
  have "is_weth_pool 20 ex_pool" by (simp add: ex_pool_fields is_weth_pool_def)
  with process_pools_complete [OF p] have "rate_of es' 77 10 \<noteq> None"
    unfolding ex_pool_fields [symmetric] by (metis list.set_intros(1))
  with p show ?thesis by blast
qed

end
