(* ===== verification/Searcher.thy ===== *)
theory Searcher
  imports Estimator
begin

text \<open>
  The searcher (\<^verbatim>\<open>src/searcher.rs\<close>): for every block it drops the cached outputs of the
  touched pools, refreshes their rates, estimates the paths through them and sends the best one
  when its exact output clears \<open>min_profit\<close>.

  \<open>Calculator::invalidate_cache\<close> is not in the repository: it is the parameter \<open>invalidate\<close>, of
  which \<open>invalidate_law\<close> is asked. A \<open>HashSet\<close> of paths is the list of its elements in
  the order in which it yields them: the parameter \<open>order\<close> picks it, under \<open>order_law\<close>.
  Sending on a closed channel is logged and otherwise ignored, so the model returns what is
  handed to the channel.
\<close>

subsection \<open>The searcher and its index\<close>

record searcher =
  se_cache :: cache
  se_estimator :: estimator
  se_path_index :: "address \<Rightarrow> nat list option"
  se_cycles :: "swap_path list"
  se_min_profit :: u256

text \<open>\<open>index.entry(step.pool_address).or_default().push(path_index)\<close>\<close>

definition push_index ::
  "nat \<Rightarrow> swap_step \<Rightarrow> (address \<Rightarrow> nat list option) \<Rightarrow> address \<Rightarrow> nat list option"
where
  "push_index i s index =
     index(st_pool s \<mapsto> (case index (st_pool s) of None \<Rightarrow> [] | Some is \<Rightarrow> is) @ [i])"

definition index_paths :: "swap_path list \<Rightarrow> address \<Rightarrow> nat list option" where
  "index_paths cycles =
     fold (\<lambda>(i, path). fold (push_index i) (sp_steps path)) (enumerate 0 cycles) Map.empty"

definition min_profit_of :: "u256 \<Rightarrow> u256" where
  "min_profit_of initial_amount =
     (let flash_loan_fee = (initial_amount * 9) div 10000;
          repayment_amount = initial_amount + flash_loan_fee;
          min_profit_percentage = (initial_amount * 1) div 100
      in repayment_amount + min_profit_percentage)"

definition searcher_new :: "swap_path list \<Rightarrow> estimator \<Rightarrow> searcher" where
  "searcher_new cycles es =
     \<lparr>se_cache = calculator_cache, se_estimator = es, se_path_index = index_paths cycles,
      se_cycles = cycles, se_min_profit = min_profit_of AMOUNT\<rparr>"

subsection \<open>One block\<close>

text \<open>\<open>&self.cycles[index]\<close> for every index of every touched pool.\<close>

definition touched_indices :: "searcher \<Rightarrow> address list \<Rightarrow> nat list" where
  "touched_indices s pools = concat (List.map_filter (se_path_index s) pools)"

definition path_refs :: "swap_path list \<Rightarrow> nat list \<Rightarrow> swap_path list res" where
  "path_refs cycles is =
     rfold (\<lambda>i ps. if i < length cycles then Ok (ps @ [cycles ! i]) else panic Index_out_of_range)
       is []"

type_synonym set_order = "swap_path list \<Rightarrow> swap_path list"

definition affected_paths :: "set_order \<Rightarrow> searcher \<Rightarrow> address list \<Rightarrow> swap_path list res" where
  "affected_paths order s pools =
     rbind (path_refs (se_cycles s) (touched_indices s pools)) (\<lambda>ps. Ok (order ps))"

definition estimated_profitable :: "estimator \<Rightarrow> u256 \<Rightarrow> swap_path list \<Rightarrow> (swap_path \<times> u256) list" where
  "estimated_profitable es min_profit paths =
     List.map_filter (\<lambda>path.
       let output_est = estimate_output_amount es path
       in if min_profit \<le> output_est \<and> output_est < 1000000000000000000
          then Some (path, output_est) else None) paths"

text \<open>\<open>max_by_key\<close>, which keeps the last of several maxima.\<close>

fun max_by_amount :: "'a \<times> u256 \<Rightarrow> ('a \<times> u256) list \<Rightarrow> 'a \<times> u256" where
  "max_by_amount b [] = b"
| "max_by_amount b (x # xs) = max_by_amount (if snd b \<le> snd x then x else b) xs"

text \<open>
  A block in two halves, since each takes its own read locks on the database: the first drops
  the cached outputs and refreshes the rates, the second finds the best path and sends it.
\<close>

definition search_rates ::
  "calc_env \<Rightarrow> (cache \<Rightarrow> address list \<Rightarrow> cache) \<Rightarrow> address \<Rightarrow> state_db \<Rightarrow> address list \<Rightarrow>
     searcher \<Rightarrow> searcher res option"
where
  "search_rates E invalidate weth db pools s =
     (let s = s\<lparr>se_cache := invalidate (se_cache s) pools\<rparr>
      in dbind (update_rates E db weth pools (se_estimator s)) (\<lambda>es.
           Some (Ok (s\<lparr>se_estimator := es\<rparr>))))"

definition search_best ::
  "calc_env \<Rightarrow> set_order \<Rightarrow> state_db \<Rightarrow> address list \<Rightarrow> u64 \<Rightarrow> searcher \<Rightarrow>
     (searcher \<times> event list) res option"
where
  "search_best E order db pools block_number s =
     dbind (Some (affected_paths order s pools)) (\<lambda>paths.
     case estimated_profitable (se_estimator s) (se_min_profit s) paths of
       [] \<Rightarrow> Some (Ok (s, []))
     | x # xs \<Rightarrow>
         (let best_path = max_by_amount x xs
          in case calculate_output E db (fst best_path) (se_cache s) of
               None \<Rightarrow> None
             | Some (Inl e, c) \<Rightarrow> Some (Inl e)
             | Some (Inr calculated_out, c) \<Rightarrow>
                 Some (Ok (s\<lparr>se_cache := c\<rparr>,
                   if se_min_profit s \<le> calculated_out
                   then [ArbPath (fst best_path) calculated_out block_number] else []))))"

definition search_block ::
  "calc_env \<Rightarrow> (cache \<Rightarrow> address list \<Rightarrow> cache) \<Rightarrow> set_order \<Rightarrow> address \<Rightarrow> state_db \<Rightarrow>
     address list \<Rightarrow> u64 \<Rightarrow> searcher \<Rightarrow> (searcher \<times> event list) res option"
where
  "search_block E invalidate order weth db pools block_number s =
     dbind (search_rates E invalidate weth db pools s)
       (search_best E order db pools block_number)"

text \<open>
  \<^verbatim>\<open>search_paths\<close> over the received events, each with the database it finds; the loop ends
  at the first event of another kind, or when the channel closes.
\<close>

fun search_paths ::
  "calc_env \<Rightarrow> (cache \<Rightarrow> address list \<Rightarrow> cache) \<Rightarrow> set_order \<Rightarrow> address \<Rightarrow>
     (event \<times> state_db) list \<Rightarrow> searcher \<Rightarrow> (searcher \<times> event list) res option"
where
  "search_paths E invalidate order weth [] s = Some (Ok (s, []))"
| "search_paths E invalidate order weth ((ev, db) # evs) s =
     (case ev of
        PoolsTouched pools block_number \<Rightarrow>
          dbind (search_block E invalidate order weth db pools block_number s) (\<lambda>(s, sent).
          dbind (search_paths E invalidate order weth evs s) (\<lambda>(s, sent'). Some (Ok (s, sent @ sent'))))
      | _ \<Rightarrow> Some (Ok (s, [])))"

subsection \<open>Laws of what is not in the repository\<close>

definition invalidate_law :: "(cache \<Rightarrow> address list \<Rightarrow> cache) \<Rightarrow> bool" where
  "invalidate_law invalidate \<longleftrightarrow>
     (\<forall>c ps x p. cache_get (invalidate c ps) x p = (if p \<in> set ps then None else cache_get c x p))"

definition order_law :: "set_order \<Rightarrow> bool" where
  "order_law order \<longleftrightarrow> (\<forall>ps. set (order ps) = set ps \<and> distinct (order ps))"

lemma invalidate_law_fold: "invalidate_law (\<lambda>c ps. fold (\<lambda>p c. cache_invalidate c p) ps c)"
  by (simp add: invalidate_law_def cm.look_drop_all)

lemma order_law_remdups: "order_law remdups"
  by (simp add: order_law_def)

subsection \<open>The index is exact\<close>

definition indices_of :: "(address \<Rightarrow> nat list option) \<Rightarrow> address \<Rightarrow> nat set" where
  "indices_of index p = (case index p of None \<Rightarrow> {} | Some is \<Rightarrow> set is)"

lemma indices_push:
  "indices_of (push_index i s index) p = (if p = st_pool s then {i} else {}) \<union> indices_of index p"
  by (auto simp: indices_of_def push_index_def split: option.splits)

lemma indices_steps:
  "indices_of (fold (push_index i) ss index) p =
     (if p \<in> st_pool ` set ss then {i} else {}) \<union> indices_of index p"
  by (induction ss arbitrary: index) (auto simp: indices_push)

lemma indices_fold:
  "indices_of (fold (\<lambda>(i, path). fold (push_index i) (sp_steps path)) ips index) p =
     {i. \<exists>path. (i, path) \<in> set ips \<and> p \<in> st_pool ` set (sp_steps path)} \<union> indices_of index p"
proof (induction ips arbitrary: index)
  case (Cons ip ips)
  obtain i path where ip: "ip = (i, path)" by (cases ip)
  have "{j. \<exists>q. (j, q) \<in> set (ip # ips) \<and> p \<in> st_pool ` set (sp_steps q)} =
      (if p \<in> st_pool ` set (sp_steps path) then {i} else {})
      \<union> {j. \<exists>q. (j, q) \<in> set ips \<and> p \<in> st_pool ` set (sp_steps q)}"
    by (auto simp: ip)
  then show ?case
    by (simp add: Cons.IH ip indices_steps Un_assoc Un_left_commute)
qed (simp add: indices_of_def)

definition touches :: "address list \<Rightarrow> swap_path \<Rightarrow> bool" where
  "touches pools path \<longleftrightarrow> (\<exists>s \<in> set (sp_steps path). st_pool s \<in> set pools)"

lemma indices_index_paths:
  "indices_of (index_paths cycles) p =
     {i. i < length cycles \<and> p \<in> st_pool ` set (sp_steps (cycles ! i))}"
  by (auto simp: index_paths_def indices_fold in_set_enumerate_eq indices_of_def [of Map.empty])

lemma touched_indices_set:
  "set (touched_indices s pools) = (\<Union>p \<in> set pools. indices_of (se_path_index s) p)"
  by (induction pools)
    (auto simp: touched_indices_def indices_of_def map_filter_simps split: option.splits)

lemma path_refs_Ok:
  "\<forall>i \<in> set is. i < length cycles \<Longrightarrow>
     rfold (\<lambda>i ps. if i < length cycles then Ok (ps @ [cycles ! i]) else panic Index_out_of_range)
       is ps = Ok (ps @ map ((!) cycles) is)"
  by (induction "is" arbitrary: ps) auto

definition searcher_ok :: "searcher \<Rightarrow> bool" where
  "searcher_ok s \<longleftrightarrow>
     se_path_index s = index_paths (se_cycles s) \<and> se_min_profit s = min_profit_of AMOUNT"

lemma affected_paths_Ok:
  assumes "searcher_ok s" and "order_law order"
  shows "\<exists>paths. affected_paths order s pools = Ok paths \<and> distinct paths
           \<and> set paths = {path \<in> set (se_cycles s). touches pools path}"
proof -
  let ?is = "touched_indices s pools"
  have idx: "set ?is = {i. i < length (se_cycles s) \<and> touches pools (se_cycles s ! i)}"
    using assms(1)
    by (auto simp: touched_indices_set searcher_ok_def indices_index_paths touches_def)
  then have "path_refs (se_cycles s) ?is = Ok (map ((!) (se_cycles s)) ?is)"
    using path_refs_Ok [of ?is "se_cycles s" "[]"] by (simp add: path_refs_def)
  moreover have "(!) (se_cycles s) ` set ?is = {path \<in> set (se_cycles s). touches pools path}"
    unfolding idx by (auto simp: in_set_conv_nth image_iff)
  ultimately show ?thesis using assms(2) by (simp add: affected_paths_def order_law_def)
qed

text \<open>
  The index the constructor builds is exact: it never sends \<^verbatim>\<open>search_paths\<close> out of the range
  of \<open>cycles\<close>, and the affected paths of a block are, each once, exactly the cycles with a
  step through one of its pools.
\<close>

theorem affected_paths_exact:
  assumes "order_law order"
  shows "\<exists>paths. affected_paths order (searcher_new cycles es) pools = Ok paths \<and> distinct paths
     \<and> set paths = {path \<in> set cycles. \<exists>s \<in> set (sp_steps path). st_pool s \<in> set pools}"
  using affected_paths_Ok [of "searcher_new cycles es" order pools] assms
  by (simp add: searcher_ok_def searcher_new_def touches_def)

subsection \<open>What is sent\<close>

lemma min_profit_value: "min_profit_of AMOUNT = 1010900000000000"
  by (simp add: min_profit_of_def AMOUNT_def Let_def)

text \<open>
  A relation between pools, inputs and outputs, and the walks it allows; \<open>fresh_quote\<close> is
  what the calculator answers now for one of the ways in which the cycles use the pool.
\<close>

fun quoted_walk :: "(address \<Rightarrow> u256 \<Rightarrow> u256 \<Rightarrow> bool) \<Rightarrow> swap_step list \<Rightarrow> u256 \<Rightarrow> u256 \<Rightarrow> bool" where
  "quoted_walk R [] x v \<longleftrightarrow> v = x"
| "quoted_walk R (s # ss) x v \<longleftrightarrow>
     (\<exists>y. R (st_pool s) x y \<and> (if y = 0 then v = 0 else quoted_walk R ss y v))"

definition path_uses :: "swap_path list \<Rightarrow> address \<Rightarrow> (address \<times> pool_type \<times> u32) set" where
  "path_uses cycles p =
     {(st_token_in s, st_protocol s, st_fee s) |s path.
        path \<in> set cycles \<and> s \<in> set (sp_steps path) \<and> st_pool s = p}"

definition fresh_quote :: "calc_env \<Rightarrow> state_db \<Rightarrow> swap_path list \<Rightarrow> address \<Rightarrow> u256 \<Rightarrow> u256 \<Rightarrow> bool" where
  "fresh_quote E db cycles p x v \<longleftrightarrow>
     (\<exists>(t, ty, fee) \<in> path_uses cycles p. compute_amount_out E db x p t ty fee = Some (Ok v))"

definition fresh_cache :: "calc_env \<Rightarrow> state_db \<Rightarrow> swap_path list \<Rightarrow> cache \<Rightarrow> bool" where
  "fresh_cache E db cycles c \<longleftrightarrow>
     (\<forall>x p v. cache_get c x p = Some v \<longrightarrow> fresh_quote E db cycles p x v)"

lemma fresh_cache_sound: "fresh_cache E db cycles c \<longleftrightarrow> cm.sound (fresh_quote E db cycles) c"
  by (simp add: fresh_cache_def cm.sound_def)

lemma sound_set:
  "cache_set_law st \<Longrightarrow> cm.sound R c \<Longrightarrow> R p x v \<Longrightarrow> cm.sound R (st c x p v)"
  by (auto simp: cache_set_law_def cm.sound_def split: if_splits)

lemma calc_steps_sound:
  assumes "cache_set_law (cn_cache_set E)"
    and R: "\<And>s x v. s \<in> set ss \<Longrightarrow> step_output E db s x = Some (Ok v) \<Longrightarrow> R (st_pool s) x v"
    and "cm.sound R c" and "calc_steps E db ss x c = Some (r, c')"
  shows "cm.sound R c' \<and> (\<forall>v. r = Ok v \<longrightarrow> quoted_walk R ss x v)"
  using assms(2-4)
proof (induction ss arbitrary: x c)
  case Nil
  then show ?case by auto
next
  case (Cons s ss)
  note IH = Cons.IH [OF Cons.prems(1)]
  show ?case
  proof (cases "cache_get c x (st_pool s)")
    case (Some v)
    with cm.soundD [OF Cons.prems(2)] have "R (st_pool s) x v" .
    with Some IH [OF _ _ Cons.prems(2)] Cons.prems(2,3) show ?thesis
      by (auto split: if_splits)
  next
    case None
    show ?thesis
    proof (cases "\<exists>v. step_output E db s x = Some (Ok v)")
      case True
      then obtain v where v: "step_output E db s x = Some (Ok v)" by blast
      then have Rv: "R (st_pool s) x v" by (rule Cons.prems(1) [rotated]) simp
      with sound_set [OF assms(1) Cons.prems(2)]
      have c: "cm.sound R (cn_cache_set E c x (st_pool s) v)" by blast
      with IH [OF _ _ c] v None Rv Cons.prems(3) show ?thesis
        by (auto simp: Let_def split: if_splits)
    next
      case False
      with None Cons.prems(2,3) show ?thesis by (auto split: option.splits sum.splits)
    qed
  qed
qed

lemma max_by_amount_max:
  "max_by_amount b xs \<in> set (b # xs) \<and> (\<forall>x \<in> set (b # xs). snd x \<le> snd (max_by_amount b xs))"
proof (induction xs arbitrary: b)
  case (Cons x xs)
  from Cons.IH [of "if snd b \<le> snd x then x else b"] show ?case by (auto split: if_splits)
qed simp

lemma estimated_profitable_set:
  "set (estimated_profitable es m paths) =
     {(path, estimate_output_amount es path) |path. path \<in> set paths
        \<and> m \<le> estimate_output_amount es path \<and> estimate_output_amount es path < 1000000000000000000}"
  by (auto simp: estimated_profitable_def List.map_filter_def Let_def split: if_splits)

definition candidates :: "estimator \<Rightarrow> u256 \<Rightarrow> swap_path list \<Rightarrow> address list \<Rightarrow> swap_path set" where
  "candidates es m cycles pools =
     {path \<in> set cycles. touches pools path \<and> m \<le> estimate_output_amount es path
        \<and> estimate_output_amount es path < 1000000000000000000}"

text \<open>The second half in one lemma: what stays, the cache, and what is sent.\<close>

lemma search_best_cases:
  assumes "searcher_ok s" and "order_law order" and "cache_set_law (cn_cache_set E)"
    and run: "search_best E order db pools n s = Some (Ok (s', sent))"
    and R: "\<And>st path x v. path \<in> set (se_cycles s) \<Longrightarrow> st \<in> set (sp_steps path) \<Longrightarrow>
              step_output E db st x = Some (Ok v) \<Longrightarrow> R (st_pool st) x v"
    and sound: "cm.sound R (se_cache s)"
  obtains
    (nothing) "se_cycles s' = se_cycles s" "searcher_ok s'" "cm.sound R (se_cache s')"
      "sent = []" "se_estimator s' = se_estimator s"
      "candidates (se_estimator s) (se_min_profit s) (se_cycles s) pools = {}"
  | (best) path out c where "se_cycles s' = se_cycles s" "searcher_ok s'" "cm.sound R (se_cache s')"
      "se_estimator s' = se_estimator s"
      "path \<in> candidates (se_estimator s) (se_min_profit s) (se_cycles s) pools"
      "\<forall>q \<in> candidates (se_estimator s) (se_min_profit s) (se_cycles s) pools.
         estimate_output_amount (se_estimator s) q \<le> estimate_output_amount (se_estimator s) path"
      "calculate_output E db path (se_cache s) = Some (Ok out, c)"
      "quoted_walk R (sp_steps path) AMOUNT out"
      "sent = (if se_min_profit s \<le> out then [ArbPath path out n] else [])"
proof -
  let ?es = "se_estimator s"
  from affected_paths_Ok [OF assms(1,2), of pools] obtain paths where
    paths: "affected_paths order s pools = Ok paths"
      "set paths = {path \<in> set (se_cycles s). touches pools path}" by blast
  let ?prof = "estimated_profitable ?es (se_min_profit s) paths"
  have prof: "set ?prof = (\<lambda>p. (p, estimate_output_amount ?es p)) `
      candidates ?es (se_min_profit s) (se_cycles s) pools"
    by (auto simp: estimated_profitable_set candidates_def paths(2))
  show thesis
  proof (cases ?prof)
    case Nil
    with run paths(1) have r: "s' = s" "sent = []" by (auto simp: search_best_def)
    from prof Nil have none: "candidates ?es (se_min_profit s) (se_cycles s) pools = {}" by simp
    show thesis
      by (rule nothing) (use r assms(1) sound none in simp_all)
  next
    case (Cons x xs)
    let ?b = "max_by_amount x xs"
    have b: "?b \<in> set ?prof" "\<forall>y \<in> set ?prof. snd y \<le> snd ?b"
      unfolding Cons using max_by_amount_max [of x xs] by blast+
    from run paths(1) Cons obtain out c where
      calc: "calculate_output E db (fst ?b) (se_cache s) = Some (Ok out, c)"
      and r: "s' = s\<lparr>se_cache := c\<rparr>"
        "sent = (if se_min_profit s \<le> out then [ArbPath (fst ?b) out n] else [])"
      by (auto simp: search_best_def Let_def split: option.splits sum.splits)
    from b prof have cand: "fst ?b \<in> candidates ?es (se_min_profit s) (se_cycles s) pools"
      "snd ?b = estimate_output_amount ?es (fst ?b)" by auto
    have max: "\<forall>q \<in> candidates ?es (se_min_profit s) (se_cycles s) pools.
        estimate_output_amount ?es q \<le> estimate_output_amount ?es (fst ?b)"
      using b(2) unfolding prof cand(2) by auto
    have walk: "cm.sound R c \<and> (\<forall>v. (Ok out :: u256 res) = Ok v \<longrightarrow>
        quoted_walk R (sp_steps (fst ?b)) AMOUNT v)"
    proof (rule calc_steps_sound [OF assms(3) _ sound])
      show "calc_steps E db (sp_steps (fst ?b)) AMOUNT (se_cache s) = Some (Ok out, c)"
        using calc by (simp add: calculate_output_def)
      fix st x v assume "st \<in> set (sp_steps (fst ?b))" "step_output E db st x = Some (Ok v)"
      with cand(1) show "R (st_pool st) x v" by (intro R) (auto simp: candidates_def)
    qed
    show thesis
      by (rule best [of "fst ?b" out c])
        (use walk r assms(1) cand(1) max calc in \<open>simp_all add: searcher_ok_def\<close>)
  qed
qed

lemma search_rates_Ok:
  "search_rates E invalidate weth db pools s = Some (Ok s') \<longleftrightarrow>
     (\<exists>es. update_rates E db weth pools (se_estimator s) = Some (Ok es)
       \<and> s' = s\<lparr>se_cache := invalidate (se_cache s) pools, se_estimator := es\<rparr>)"
  by (auto simp: search_rates_def dbind_eq_Some_Inr Let_def)

text \<open>Agreement of the databases carries fresh quotes over, for pools quoted without the EVM.\<close>

definition natively_quoted :: "swap_path list \<Rightarrow> bool" where
  "natively_quoted cycles \<longleftrightarrow> (\<forall>path \<in> set cycles. \<forall>s \<in> set (sp_steps path). native (st_protocol s))"

lemma fresh_quote_agree:
  assumes "natively_quoted cycles" and "reads_agree db db' p" and "cn_aero E db' = cn_aero E db"
    and "fresh_quote E db cycles p x v"
  shows "fresh_quote E db' cycles p x v"
proof -
  from assms(4) obtain t ty fee where u: "(t, ty, fee) \<in> path_uses cycles p"
    "compute_amount_out E db x p t ty fee = Some (Ok v)" by (auto simp: fresh_quote_def)
  from u(1) assms(1) have "native ty" by (auto simp: path_uses_def natively_quoted_def)
  from agree_compute [where t = t and x = x and fee = fee, OF assms(2) this assms(3)] u
  show ?thesis by (auto simp: fresh_quote_def)
qed

lemma invalidate_fresh:
  assumes "invalidate_law invalidate" and "natively_quoted cycles" and "fresh_cache E db cycles c"
    and "\<And>p. p \<notin> set pools \<Longrightarrow> reads_agree db db' p" and "cn_aero E db' = cn_aero E db"
  shows "cm.sound (fresh_quote E db' cycles) (invalidate c pools)"
proof (rule cm.sound_after_drop)
  show "cm.sound (fresh_quote E db cycles) c" using assms(3) by (simp add: fresh_cache_sound)
  show "cache_get (invalidate c pools) x p = (if p \<in> set pools then None else cache_get c x p)"
    for x p using assms(1) by (simp add: invalidate_law_def)
  show "fresh_quote E db' cycles p x v" if "p \<notin> set pools" "fresh_quote E db cycles p x v" for p x v
    using fresh_quote_agree [OF assms(2) assms(4) [OF that(1)] assms(5) that(2)] .
qed

lemma step_output_fresh:
  "path \<in> set cycles \<Longrightarrow> s \<in> set (sp_steps path) \<Longrightarrow> step_output E db s x = Some (Ok v) \<Longrightarrow>
     fresh_quote E db cycles (st_pool s) x v"
  by (force simp: fresh_quote_def path_uses_def step_output_def)

text \<open>
  C10: One block of the search. The database has changed at most at the touched pools since the
  cache was fresh. Then the cache is fresh again for the new database. Nothing is sent when no
  cycle through a touched pool has an estimate within [\<open>min_profit\<close>, 1e18); otherwise one
  with the greatest such estimate is calculated, its output is one that current quotes give,
  and it is sent exactly when that output is at least \<open>min_profit\<close>.
\<close>

theorem search_block_sends_best:
  assumes "cache_set_law (cn_cache_set E)" "invalidate_law invalidate" "order_law order"
    and "searcher_ok s" "natively_quoted (se_cycles s)" "fresh_cache E db (se_cycles s) (se_cache s)"
    and "\<forall>p. p \<notin> set pools \<longrightarrow> reads_agree db db' p" "cn_aero E db' = cn_aero E db"
    and run: "search_block E invalidate order weth db' pools n s = Some (Ok (s', sent))"
  shows "fresh_cache E db' (se_cycles s) (se_cache s') \<and> searcher_ok s' \<and> se_cycles s' = se_cycles s
     \<and> (let cands = candidates (se_estimator s') 1010900000000000 (se_cycles s) pools;
            est = estimate_output_amount (se_estimator s')
        in (cands = {} \<and> sent = []) \<or>
           (\<exists>path \<in> cands. \<exists>out c. (\<forall>q \<in> cands. est q \<le> est path)
              \<and> calculate_output E db' path (invalidate (se_cache s) pools) = Some (Ok out, c)
              \<and> quoted_walk (fresh_quote E db' (se_cycles s)) (sp_steps path) AMOUNT out
              \<and> sent = (if 1010900000000000 \<le> out then [ArbPath path out n] else [])))"
proof -
  have sound: "cm.sound (fresh_quote E db' (se_cycles s)) (invalidate (se_cache s) pools)"
    by (rule invalidate_fresh [OF assms(2,5,6)]) (use assms(7,8) in auto)
  from run obtain s1 where s1: "search_rates E invalidate weth db' pools s = Some (Ok s1)"
    and best: "search_best E order db' pools n s1 = Some (Ok (s', sent))"
    by (auto simp: search_block_def dbind_eq_Some_Inr)
  from s1 have f: "se_cycles s1 = se_cycles s" "se_min_profit s1 = 1010900000000000"
    "se_cache s1 = invalidate (se_cache s) pools" "searcher_ok s1"
    using assms(4) by (auto simp: search_rates_Ok searcher_ok_def min_profit_value)
  have R: "fresh_quote E db' (se_cycles s) (st_pool st) x v"
    if "path \<in> set (se_cycles s1)" "st \<in> set (sp_steps path)" "step_output E db' st x = Some (Ok v)"
    for st path x v using step_output_fresh that by (simp add: f)
  from f(4) assms(3,1) best R sound [folded f(3)] show ?thesis
  proof (rule search_best_cases)
    assume "se_cycles s' = se_cycles s1" "searcher_ok s'"
      "cm.sound (fresh_quote E db' (se_cycles s)) (se_cache s')" "sent = []"
      "se_estimator s' = se_estimator s1"
      "candidates (se_estimator s1) (se_min_profit s1) (se_cycles s1) pools = {}"
    then show ?thesis unfolding f fresh_cache_sound Let_def by simp
  next
    fix path out c
    assume "se_cycles s' = se_cycles s1" "searcher_ok s'"
      "cm.sound (fresh_quote E db' (se_cycles s)) (se_cache s')"
      and es: "se_estimator s' = se_estimator s1"
      and "path \<in> candidates (se_estimator s1) (se_min_profit s1) (se_cycles s1) pools"
      "\<forall>q \<in> candidates (se_estimator s1) (se_min_profit s1) (se_cycles s1) pools.
         estimate_output_amount (se_estimator s1) q \<le> estimate_output_amount (se_estimator s1) path"
      "calculate_output E db' path (se_cache s1) = Some (Ok out, c)"
      "quoted_walk (fresh_quote E db' (se_cycles s)) (sp_steps path) AMOUNT out"
      "sent = (if se_min_profit s1 \<le> out then [ArbPath path out n] else [])"
    then show ?thesis unfolding f es fresh_cache_sound Let_def by blast
  qed
qed

text \<open>A pool of 100 and 200 units, whose price makes selling token 10 look profitable.\<close>

definition ex_deep_pool :: pool where
  "ex_deep_pool = ex_pool\<lparr>pl_decimals1 := 18\<rparr>"

definition ex_deep_db :: state_db where
  "ex_deep_db = ex_with ex_deep_pool
     [(8, 200000000000000000000 * 2 ^ 112 + 100000000000000000000), (6, 10), (7, 20)]"

lemma ex_deep_fields:
  "pl_address ex_deep_pool = 77" "pl_token0 ex_deep_pool = 10" "pl_token1 ex_deep_pool = 20"
  "pl_type ex_deep_pool = UniswapV2" "pl_fee ex_deep_pool = 0"
  "pl_decimals0 ex_deep_pool = 18" "pl_decimals1 ex_deep_pool = 18"
  by (simp_all add: ex_deep_pool_def ex_pool_def)

lemma ex_deep_reads:
  "zero_to_one ex_deep_db 77 10 = Some True" "zero_to_one ex_deep_db 77 20 = Some False"
  "get_reserves ex_deep_db 77 = Ok (100000000000000000000, 200000000000000000000)"
  "get_pool ex_deep_db 77 = Ok ex_deep_pool"
  using ex_with_reads [of ex_deep_pool]
  by (simp_all add: ex_deep_db_def zero_to_one_def get_reserves_eq ex_deep_fields get_pool_def)

lemma ex_deep_quotes:
  "compute_amount_out ex_env ex_deep_db AMOUNT 77 10 UniswapV2 0 = Some (Ok 1993980120018203)"
  "compute_amount_out ex_env ex_deep_db 1993980120018203 77 20 UniswapV2 0 =
     Some (Ok 993989209585377)"
  by (simp_all add: compute_amount_out_def uniswap_v2_out_def
      ex_deep_reads AMOUNT_def udiv_def Let_def)

lemma ex_deep_rates:
  "calculate_rate AMOUNT 1993980120018203 18 18 = Ok 1993980120018203000"
  "\<exists>r. calculate_rate 1993980120018203 993989209585377 18 18 = Ok r"
  by (simp_all add: calculate_rate_def scale_to_rate_def checked_ratio_def checked_mul_def
      checked_div_def AMOUNT_def)

lemma ex_update_rates:
  "\<exists>es. update_rates ex_env ex_deep_db 10 [77] estimator_new = Some (Ok es)
     \<and> estimate_output_amount es (ex_path [ex_step 10 20]) = 1993980120018203"
proof -
  obtain r where r: "calculate_rate 1993980120018203 993989209585377 18 18 = Ok r"
    using ex_deep_rates(2) by blast
  have d: "ucast (18 :: u8) = (18 :: u32)" by simp
  have agg: "rate_of (es\<lparr>es_aggregated := g\<rparr>) a t = rate_of es a t" for es g a t
    by (rule rate_of_cong) simp
  have "\<exists>st. process_eth_pool ex_env ex_deep_db 10 AMOUNT ex_deep_pool st0 = Some (Ok st)
      \<and> rate_of (ep_es st) 77 10 = Some 1993980120018203000" for st0
    by (simp add: process_eth_pool_def ex_deep_fields compute_pool_output_def ex_deep_quotes
        ex_deep_rates(1) r decimals_or_18_def rate_of_insert agg Let_def d)
  then obtain st where "process_weth_based ex_env ex_deep_db 10 ex_deep_pool
        \<lparr>ep_es = estimator_new, ep_alts = {}, ep_counts = Map.empty\<rparr> = Some (Ok st)"
      "rate_of (ep_es st) 77 10 = Some 1993980120018203000"
    unfolding process_weth_based_def Let_def by blast
  then have run: "update_rates ex_env ex_deep_db 10 [77] estimator_new = Some (Ok (average_rates st))"
    and rate: "rate_of (average_rates st) 77 10 = Some 1993980120018203000"
    by (simp_all add: update_rates_def get_pools_def ex_deep_reads process_pools_def is_weth_pool_def
        ex_deep_fields average_rates_def agg)
  from rate have "estimate_output_amount (average_rates st) (ex_path [ex_step 10 20]) =
      checked_ratio AMOUNT 1993980120018203000 e18"
    by (auto simp: estimate_output_amount_def ex_path_def ex_step_def rate_of_def
        split: bind_splits option.splits)
  moreover have "checked_ratio AMOUNT 1993980120018203000 e18 = 1993980120018203"
    by (simp add: checked_ratio_def checked_mul_def checked_div_def AMOUNT_def)
  ultimately show ?thesis using run by auto
qed

theorem search_block_sends_best_witness:
  "\<exists>s'. search_block ex_env (\<lambda>c ps. fold (\<lambda>p c. cache_invalidate c p) ps c) remdups 10 ex_deep_db [77] 5
       (searcher_new [ex_path [ex_step 10 20]] estimator_new) =
     Some (Ok (s', [ArbPath (ex_path [ex_step 10 20]) 1993980120018203 5]))
   \<and> fresh_cache ex_env ex_deep_db [ex_path [ex_step 10 20]] (se_cache s')"
proof -
  let ?inv = "\<lambda>c ps. fold (\<lambda>p c. cache_invalidate c p) ps c"
  let ?p = "ex_path [ex_step 10 20]"
  let ?s = "searcher_new [?p] estimator_new"
  obtain es where es: "update_rates ex_env ex_deep_db 10 [77] estimator_new = Some (Ok es)"
    "estimate_output_amount es ?p = 1993980120018203" using ex_update_rates by blast
  have ok: "searcher_ok ?s" by (simp add: searcher_ok_def searcher_new_def)
  have fresh: "fresh_cache ex_env ex_deep_db (se_cycles ?s) (se_cache ?s)"
    unfolding fresh_cache_sound searcher_new_def calculator_cache_def by (simp add: cm.sound_fresh)
  have touched: "touches [77] ?p" by (simp add: touches_def ex_path_def ex_step_def)
  have aff: "affected_paths remdups (?s\<lparr>se_cache := c, se_estimator := e\<rparr>) [77] = Ok [?p]" for c e
    by (simp add: affected_paths_def touched_indices_def searcher_new_def index_paths_def
        push_index_def path_refs_def ex_path_def ex_step_def map_filter_simps)
  have prof: "estimated_profitable es (se_min_profit ?s) [?p] = [(?p, 1993980120018203)]"
    by (simp add: estimated_profitable_def map_filter_simps es(2) searcher_new_def
        min_profit_value Let_def)
  have empty: "cache_get (?inv (se_cache ?s) [77]) x k = None" for x k
    by (simp add: searcher_new_def calculator_cache_def cache_get_def cache_new_def
        cache_invalidate_def)
  have "step_output ex_env ex_deep_db (ex_step 10 20) AMOUNT = Some (Ok 1993980120018203)"
    by (simp add: step_output_def ex_step_def ex_deep_quotes)
  then have "\<exists>c'. calculate_output ex_env ex_deep_db ?p c = Some (Ok 1993980120018203, c')"
    if "\<And>x k. cache_get c x k = None" for c
    by (simp add: calculate_output_def ex_path_def that Let_def)
  then obtain c where calc: "calculate_output ex_env ex_deep_db ?p (?inv (se_cache ?s) [77]) =
      Some (Ok 1993980120018203, c)" using empty by blast
  have es': "se_estimator ?s = estimator_new" by (simp add: searcher_new_def)
  have "\<exists>s'. search_block ex_env ?inv remdups 10 ex_deep_db [77] 5 ?s =
      Some (Ok (s', [ArbPath ?p 1993980120018203 5]))"
    unfolding search_block_def search_rates_def search_best_def Let_def
    by (simp del: fold.simps add: es' es(1) aff prof calc)
      (simp add: searcher_new_def min_profit_value)
  then obtain s' where run: "search_block ex_env ?inv remdups 10 ex_deep_db [77] 5 ?s =
      Some (Ok (s', [ArbPath ?p 1993980120018203 5]))" by blast
  have native: "natively_quoted (se_cycles ?s)"
    by (simp add: natively_quoted_def searcher_new_def ex_path_def ex_step_def native_def)
  have set: "cache_set_law (cn_cache_set ex_env)" using ex_set_law by (simp add: ex_env_def)
  from search_block_sends_best [OF set invalidate_law_fold order_law_remdups ok native fresh _ refl run]
  have "fresh_cache ex_env ex_deep_db (se_cycles ?s) (se_cache s')"
    using reads_agree_refl by blast
  with run show ?thesis by (auto simp: searcher_new_def)
qed

text \<open>The searcher of \<^verbatim>\<open>affected_paths_exact\<close> over one path.\<close>

theorem affected_paths_exact_witness:
  "\<exists>paths. affected_paths remdups (searcher_new [ex_path [ex_step 10 20]] estimator_new) [77, 5] =
     Ok paths \<and> set paths = {ex_path [ex_step 10 20]}"
proof -
  have "{path \<in> set [ex_path [ex_step 10 20]]. \<exists>s \<in> set (sp_steps path). st_pool s \<in> set [77, 5]} =
      {ex_path [ex_step 10 20]}"
    by (auto simp: ex_path_def ex_step_def)
  with affected_paths_exact [OF order_law_remdups, of "[ex_path [ex_step 10 20]]" estimator_new "[77, 5]"]
  show ?thesis by metis
qed

end
