(* ===== verification/Quoter.thy ===== *)
theory Quoter
  imports Calculator
begin

text \<open>
  The quoter (\<^verbatim>\<open>src/quoter.rs\<close>): one call of the quoting contract on the current database,
  and the search for a larger input. The EVM is the parameter \<open>cn_transact\<close> of the calculator,
  the ABI decoding of a list of amounts the parameter \<open>dec\<close>. The lock and the builder have no
  effect on the result; what the EVM reads into the cache of the database is in \<open>EvmRuns\<close>.
\<close>

type_synonym amounts_decoder = "u8 list \<Rightarrow> u256 list option"

definition quote_caller :: address where
  "quote_caller = 0xd8da6bf26964af9d7eed9e03e53415d37aa96045"

definition quoter_address :: address where
  "quoter_address = 0x0000000000000000000000000000000000001000"

definition quote_path ::
  "calc_env \<Rightarrow> amounts_decoder \<Rightarrow> state_db \<Rightarrow> swap_params \<Rightarrow> u256 list res"
where
  "quote_path E dec db quote_params =
     rbind (unwrap_res (cn_transact E db quote_caller quoter_address (Quote_arbitrage quote_params)))
       (\<lambda>result. case result of
          Success value \<Rightarrow> (case dec value of Some amount \<Rightarrow> Ok amount | None \<Rightarrow> err Decode_failed)
        | Revert output \<Rightarrow> err Simulation_reverted
        | Halt \<Rightarrow> err Simulation_failed)"

text \<open>\<open>amounts.last().unwrap()\<close>\<close>

definition last_amount :: "u256 list \<Rightarrow> u256 res" where
  "last_amount amounts = (if amounts = [] then panic Unwrap_none else Ok (last amounts))"

text \<open>\<open>n\<close> more rounds of the loop; a failed or worse quote is the \<open>break\<close>.\<close>

fun optimize_loop ::
  "calc_env \<Rightarrow> amounts_decoder \<Rightarrow> state_db \<Rightarrow> swap_params \<Rightarrow> nat \<Rightarrow> u256 \<Rightarrow> u256 \<Rightarrow> u256 \<Rightarrow>
     (u256 \<times> u256) res"
where
  "optimize_loop E dec db params 0 curr_input best_input best_output = Ok (best_input, best_output)"
| "optimize_loop E dec db params (Suc n) curr_input best_input best_output =
     (let curr_input = curr_input + 200000000000000;
          params = params\<lparr>pr_amount_in := curr_input\<rparr>
      in case quote_path E dec db params of
           Inl (Panic p) \<Rightarrow> panic p
         | Inl (Error e) \<Rightarrow> Ok (best_input, best_output)
         | Inr amounts \<Rightarrow>
             rbind (last_amount amounts) (\<lambda>output.
               if curr_input < output \<and> best_output < output
               then optimize_loop E dec db params n curr_input curr_input output
               else Ok (best_input, best_output)))"

definition optimize_input ::
  "calc_env \<Rightarrow> amounts_decoder \<Rightarrow> state_db \<Rightarrow> swap_params \<Rightarrow> u256 \<Rightarrow> (u256 \<times> u256) res"
where
  "optimize_input E dec db params initial_out =
     optimize_loop E dec db params 50 AMOUNT AMOUNT initial_out"

subsection \<open>What the optimiser finds\<close>

text \<open>The input after \<open>k\<close> rounds and what the contract answers for an input.\<close>

definition round_input :: "nat \<Rightarrow> u256" where
  "round_input k = AMOUNT + of_nat k * 200000000000000"

definition quoted :: "calc_env \<Rightarrow> amounts_decoder \<Rightarrow> state_db \<Rightarrow> swap_params \<Rightarrow> u256 \<Rightarrow> u256 res" where
  "quoted E dec db params x =
     rbind (quote_path E dec db (params\<lparr>pr_amount_in := x\<rparr>)) last_amount"

lemma round_input_Suc: "round_input (Suc k) = round_input k + 200000000000000"
  by (simp add: round_input_def algebra_simps)

lemma unat_round_input:
  assumes "k \<le> 50"
  shows "unat (round_input k) = 10 ^ 15 + k * 2 * 10 ^ 14"
proof -
  have k: "unat (of_nat k :: u256) = k"
    using assms by (simp add: unat_of_nat)
  have m: "unat (of_nat k * 200000000000000 :: u256) = k * 200000000000000"
    using unat_mul_exact [of "of_nat k :: u256" 200000000000000] k assms by simp
  show ?thesis
    using unat_add_exact [of AMOUNT "of_nat k * 200000000000000"] m assms
    by (simp add: round_input_def)
qed

text \<open>An output that an earlier round found: above its input and above every earlier one.\<close>

definition improves_to ::
  "(u256 \<Rightarrow> u256 res) \<Rightarrow> u256 \<Rightarrow> nat \<Rightarrow> nat \<Rightarrow> u256 \<Rightarrow> bool"
where
  "improves_to q initial_out j k out \<longleftrightarrow>
     (\<exists>outs. length outs = Suc (k - j) \<and> j \<le> k \<and> outs ! 0 = initial_out \<and> last outs = out
        \<and> (\<forall>i. 0 < i \<and> i \<le> k - j \<longrightarrow> q (round_input (j + i)) = Ok (outs ! i)
             \<and> round_input (j + i) < outs ! i \<and> outs ! (i - 1) < outs ! i))"

lemma optimize_loop_finds:
  assumes "optimize_loop E dec db params n (round_input j) (round_input j) out = Ok (b, b_out)"
  shows "\<exists>k. j \<le> k \<and> k \<le> j + n \<and> b = round_input k
     \<and> improves_to (quoted E dec db params) out j k b_out
     \<and> (k < j + n \<longrightarrow> (\<forall>v. quoted E dec db params (round_input (Suc k)) = Ok v \<longrightarrow>
          \<not> (round_input (Suc k) < v \<and> b_out < v)))"
  using assms
proof (induction n arbitrary: j params out)
  case 0
  then show ?case by (auto simp: improves_to_def intro!: exI [of _ "[out]"])
next
  case (Suc n)
  let ?q = "quoted E dec db params" and ?x = "round_input (Suc j)"
  have stop: ?case if "b = round_input j" "b_out = out"
      "\<forall>v. ?q ?x = Ok v \<longrightarrow> \<not> (?x < v \<and> out < v)"
    using that by (auto simp: improves_to_def intro!: exI [of _ j] exI [of _ "[out]"])
  show ?case
  proof (cases "\<exists>v. ?q ?x = Ok v \<and> ?x < v \<and> out < v")
    case False
    with Suc.prems have "b = round_input j \<and> b_out = out"
      by (auto simp: quoted_def round_input_Suc [symmetric] Let_def rbind_eq_Inr
          split: sum.splits fault.splits if_splits)
    with False show ?thesis by (intro stop) auto
  next
    case True
    then obtain v where v: "?q ?x = Ok v" "?x < v" "out < v" by blast
    let ?p = "params\<lparr>pr_amount_in := ?x\<rparr>"
    from v Suc.prems have "optimize_loop E dec db ?p n ?x ?x v = Ok (b, b_out)"
      by (auto simp: quoted_def round_input_Suc [symmetric] Let_def rbind_eq_Inr
          split: sum.splits fault.splits)
    moreover have "quoted E dec db ?p = ?q" by (intro ext) (simp add: quoted_def)
    ultimately obtain k outs where k: "Suc j \<le> k" "k \<le> Suc j + n" "b = round_input k"
      "length outs = Suc (k - Suc j)" "outs ! 0 = v" "last outs = b_out"
      "\<And>i. 0 < i \<Longrightarrow> i \<le> k - Suc j \<Longrightarrow> ?q (round_input (Suc j + i)) = Ok (outs ! i)
             \<and> round_input (Suc j + i) < outs ! i \<and> outs ! (i - 1) < outs ! i"
      "k < Suc j + n \<longrightarrow> (\<forall>v. ?q (round_input (Suc k)) = Ok v \<longrightarrow>
          \<not> (round_input (Suc k) < v \<and> b_out < v))"
      using Suc.IH [of ?p "Suc j" v] by (auto simp: improves_to_def)
    have "?q (round_input (j + i)) = Ok ((out # outs) ! i)
        \<and> round_input (j + i) < (out # outs) ! i \<and> (out # outs) ! (i - 1) < (out # outs) ! i"
      if "0 < i" "i \<le> k - j" for i
      using that k(5) v k(7) [of "i - 1"]
      by (cases "i = 1") (auto simp: nth_Cons' )
    then have "improves_to ?q out j k b_out"
      unfolding improves_to_def using k(1,4,6)
      by (intro exI [of _ "out # outs"]) (auto simp: Suc_diff_le)
    with k show ?thesis by (intro exI [of _ k]) auto
  qed
qed

text \<open>
  C31: \<^verbatim>\<open>optimize_input\<close>, when it does not panic, stops after some \<open>k \<le> 50\<close> rounds: the input
  chosen is \<open>AMOUNT + k * 2e14\<close>, without wrap-around, the outputs of the rounds up to it are
  strictly increasing, start above \<open>initial_out\<close> and each exceed their input, and unless all
  rounds were used the next round does not improve.
\<close>

theorem optimize_input_prefix:
  assumes "optimize_input E dec db params initial_out = Ok (best_input, best_output)"
  shows "\<exists>k \<le> 50. unat best_input = 10 ^ 15 + k * 2 * 10 ^ 14
     \<and> improves_to (quoted E dec db params) initial_out 0 k best_output
     \<and> initial_out \<le> best_output
     \<and> (k < 50 \<longrightarrow> (\<forall>v. quoted E dec db params (round_input (Suc k)) = Ok v \<longrightarrow>
          \<not> (round_input (Suc k) < v \<and> best_output < v)))"
proof -
  from optimize_loop_finds [of E dec db params 50 0 initial_out] assms
  obtain k where k: "k \<le> 50" "best_input = round_input k"
    "improves_to (quoted E dec db params) initial_out 0 k best_output"
    "k < 50 \<longrightarrow> (\<forall>v. quoted E dec db params (round_input (Suc k)) = Ok v \<longrightarrow>
          \<not> (round_input (Suc k) < v \<and> best_output < v))"
    by (auto simp: optimize_input_def round_input_def)
  from k(3) obtain outs where o: "length outs = Suc k" "outs ! 0 = initial_out" "last outs = best_output"
    "\<And>i. 0 < i \<Longrightarrow> i \<le> k \<Longrightarrow> outs ! (i - 1) < outs ! i" by (auto simp: improves_to_def)
  have "initial_out \<le> outs ! i" if "i \<le> k" for i
    using that
  proof (induction i)
    case (Suc i)
    with o(4) [of "Suc i"] show ?case by simp
  qed (simp add: o(2))
  moreover have "last outs = outs ! k" using o(1) by (metis diff_Suc_1 last_conv_nth list.size(3) nat.distinct(1))
  ultimately have "initial_out \<le> best_output" using o(3) by simp
  with k unat_round_input [OF k(1)] show ?thesis by auto
qed

text \<open>A contract that answers one input only.\<close>

definition ex_flat_env :: calc_env where
  "ex_flat_env = ex_env\<lparr>cn_transact := (\<lambda>db caller target call.
     case call of
       Quote_arbitrage params \<Rightarrow>
         Ok (if pr_amount_in params = 1200000000000000 then Success [1] else Revert [])
     | _ \<Rightarrow> Ok Halt)\<rparr>"

definition ex_flat_dec :: amounts_decoder where
  "ex_flat_dec bs = Some [1200000000000001]"

lemma ex_flat_run:
  "optimize_input ex_flat_env ex_flat_dec db params 1100000000000000 =
     Ok (1200000000000000, 1200000000000001)"
proof -
  have q: "quote_path ex_flat_env ex_flat_dec db (p\<lparr>pr_amount_in := x\<rparr>) =
      (if x = 1200000000000000 then Ok [1200000000000001] else err Simulation_reverted)" for p x
    by (simp add: quote_path_def ex_flat_env_def ex_flat_dec_def)
  have "optimize_loop ex_flat_env ex_flat_dec db params (Suc (Suc n)) AMOUNT AMOUNT 1100000000000000 =
      Ok (1200000000000000, 1200000000000001)" for n
    by (simp add: q AMOUNT_def last_amount_def Let_def)
  from this [of 48] show ?thesis by (simp add: optimize_input_def)
qed

text \<open>
  The optimiser compares outputs, not profits: it moves to an input whose extra cost exceeds
  the extra output. With a contract that answers the inputs 1.2e15 and above with 1.2e15 + 1,
  it gives up a quoted profit of 1e14 for a profit of 1.
\<close>

theorem optimize_input_loses_profit:
  "optimize_input ex_flat_env ex_flat_dec db params 1100000000000000 =
     Ok (1200000000000000, 1200000000000001)
   \<and> (1200000000000001 - 1200000000000000 :: u256) < 1100000000000000 - AMOUNT"
  using ex_flat_run by (simp add: AMOUNT_def)

theorem optimize_input_prefix_witness:
  "\<exists>k \<le> 50. unat (1200000000000000 :: u256) = 10 ^ 15 + k * 2 * 10 ^ 14"
  using optimize_input_prefix [OF ex_flat_run] by blast

end
