(* ===== verification/Simulator.thy ===== *)
theory Simulator
  imports Quoter
begin

text \<open>
  The simulator (\<^verbatim>\<open>src/simulator.rs\<close>): every path of the searcher that is not blacklisted is
  quoted on the contract, its input optimised, and the result sent on. \<open>sim\<close> is the value of
  the environment variable; \<open>is_v3\<close> and the EVM are parameters. The state is the set
  \<open>blacklisted_paths\<close>.
\<close>

subsection \<open>One path\<close>

definition simulate_path ::
  "(pool_type \<Rightarrow> bool) \<Rightarrow> calc_env \<Rightarrow> amounts_decoder \<Rightarrow> bool \<Rightarrow> state_db \<Rightarrow>
     swap_path \<Rightarrow> u256 \<Rightarrow> u64 \<Rightarrow> u64 set \<Rightarrow> (u64 set \<times> event list) res option"
where
  "simulate_path is_v3 E dec sim db arb_path expected_out block_number blacklisted_paths =
     (let converted_path = to_quoter_params is_v3 arb_path
      in if sp_hash arb_path \<notin> blacklisted_paths then
           (case quote_path E dec db converted_path of
              Inl (Panic p) \<Rightarrow> Some (panic p)
            | Inl (Error quote_err) \<Rightarrow> Some (Ok (insert (sp_hash arb_path) blacklisted_paths, []))
            | Inr quote \<Rightarrow>
                dbind (Some (last_amount quote)) (\<lambda>last_quote.
                if sim then
                  (if last_quote = expected_out then Some (Ok (blacklisted_paths, []))
                   else dbind (debug_calculation E db arb_path)
                          (\<lambda>calc. Some (Ok (blacklisted_paths, []))))
                else if last_quote < 1000000000000000000 then
                  dbind (Some (optimize_input E dec db converted_path last_quote))
                    (\<lambda>optimized_amounts.
                     let profit = expected_out - AMOUNT;
                         converted_path = converted_path\<lparr>pr_amount_in := fst optimized_amounts\<rparr>
                     in Some (Ok (blacklisted_paths,
                                  [ValidPath converted_path profit block_number])))
                else Some (Ok (blacklisted_paths, []))))
         else Some (Ok (blacklisted_paths, [])))"

text \<open>The loop over the received events, each with the database it finds.\<close>

fun simulate_paths ::
  "(pool_type \<Rightarrow> bool) \<Rightarrow> calc_env \<Rightarrow> amounts_decoder \<Rightarrow> bool \<Rightarrow> (event \<times> state_db) list \<Rightarrow>
     u64 set \<Rightarrow> (u64 set \<times> event list) res option"
where
  "simulate_paths is_v3 E dec sim [] bl = Some (Ok (bl, []))"
| "simulate_paths is_v3 E dec sim ((ev, db) # evs) bl =
     (case ev of
        ArbPath arb_path expected_out block_number \<Rightarrow>
          dbind (simulate_path is_v3 E dec sim db arb_path expected_out block_number bl)
            (\<lambda>(bl, sent).
          dbind (simulate_paths is_v3 E dec sim evs bl) (\<lambda>(bl, sent'). Some (Ok (bl, sent @ sent'))))
      | _ \<Rightarrow> Some (Ok (bl, [])))"

subsection \<open>What is sent on\<close>

text \<open>When a message for a path is justified: its quote, its input and its profit.\<close>

definition valid_message ::
  "(pool_type \<Rightarrow> bool) \<Rightarrow> calc_env \<Rightarrow> amounts_decoder \<Rightarrow> state_db \<Rightarrow> swap_path \<Rightarrow> u256 \<Rightarrow> u64 \<Rightarrow>
     event \<Rightarrow> bool"
where
  "valid_message is_v3 E dec db path out n ev \<longleftrightarrow>
     (let params = to_quoter_params is_v3 path
      in \<exists>amounts input output. quote_path E dec db params = Ok amounts \<and> amounts \<noteq> []
           \<and> last amounts < 1000000000000000000
           \<and> optimize_input E dec db params (last amounts) = Ok (input, output)
           \<and> ev = ValidPath (params\<lparr>pr_amount_in := input\<rparr>) (out - AMOUNT) n)"

lemma last_amount_Inr: "last_amount xs = Ok v \<longleftrightarrow> xs \<noteq> [] \<and> v = last xs"
  by (auto simp: last_amount_def)

lemma simulate_path_cases:
  assumes "simulate_path is_v3 E dec sim db path out n bl = Some (Ok (bl', sent))"
  shows "sp_hash path \<in> bl \<and> bl' = bl \<and> sent = []
     \<or> sp_hash path \<notin> bl \<and> bl' = insert (sp_hash path) bl \<and> sent = []
         \<and> (\<exists>e. quote_path E dec db (to_quoter_params is_v3 path) = err e)
     \<or> sp_hash path \<notin> bl \<and> bl' = bl
         \<and> (\<exists>amounts. quote_path E dec db (to_quoter_params is_v3 path) = Ok amounts)
         \<and> (sent = [] \<or> \<not> sim \<and> (\<exists>ev. sent = [ev] \<and> valid_message is_v3 E dec db path out n ev))"
proof (cases "sp_hash path \<in> bl")
  case True
  with assms show ?thesis by (simp add: simulate_path_def)
next
  case False
  show ?thesis
  proof (cases "quote_path E dec db (to_quoter_params is_v3 path)")
    case (Inl f)
    with assms False show ?thesis
      by (cases f) (auto simp: simulate_path_def)
  next
    case (Inr amounts)
    with assms False show ?thesis
      by (auto simp: simulate_path_def valid_message_def Let_def dbind_eq_Some_Inr last_amount_Inr
          split: if_splits)
  qed
qed

text \<open>
  C30: A run of the simulator. The blacklist only grows, and every message sent on is justified by
  an earlier event: its path was not blacklisted, the quote of its parameters succeeded with
  less than 1e18, the input is the optimised one and the profit is the searcher's output less
  \<open>AMOUNT\<close>. In particular nothing is sent for a path that is blacklisted already, and nothing
  at all in simulation mode.
\<close>

theorem simulate_paths_sends:
  assumes "simulate_paths is_v3 E dec sim evs bl = Some (Ok (bl', sent))"
  shows "bl \<subseteq> bl'
     \<and> (\<forall>ev \<in> set sent. \<not> sim \<and> (\<exists>path out n db. (ArbPath path out n, db) \<in> set evs
          \<and> sp_hash path \<notin> bl \<and> valid_message is_v3 E dec db path out n ev))"
  using assms
proof (induction is_v3 E dec sim evs bl arbitrary: sent rule: simulate_paths.induct)
  case (1 is_v3 E dec sim bl)
  then show ?case by simp
next
  case (2 is_v3 E dec sim ev db evs bl)
  show ?case
  proof (cases ev)
    case (ArbPath path out n)
    with 2(2) obtain bl1 sent1 sent2 where run:
      "simulate_path is_v3 E dec sim db path out n bl = Some (Ok (bl1, sent1))"
      "simulate_paths is_v3 E dec sim evs bl1 = Some (Ok (bl', sent2))" "sent = sent1 @ sent2"
      by (auto simp: dbind_eq_Some_Inr)
    from 2(1) [OF ArbPath run(1) refl run(2)]
    have later: "bl1 \<subseteq> bl'" "\<forall>ev \<in> set sent2. \<not> sim \<and> (\<exists>path out n db.
        (ArbPath path out n, db) \<in> set evs \<and> sp_hash path \<notin> bl1
        \<and> valid_message is_v3 E dec db path out n ev)" by auto
    from simulate_path_cases [OF run(1)] have now: "bl \<subseteq> bl1"
      "\<forall>ev \<in> set sent1. \<not> sim \<and> sp_hash path \<notin> bl \<and> valid_message is_v3 E dec db path out n ev"
      by auto
    show ?thesis
    proof (intro conjI ballI)
      show "bl \<subseteq> bl'" using now(1) later(1) by blast
      fix e assume e: "e \<in> set sent"
      show "\<not> sim" using e run(3) now(2) later(2) by auto
      show "\<exists>path out n db'. (ArbPath path out n, db') \<in> set ((ev, db) # evs) \<and> sp_hash path \<notin> bl
          \<and> valid_message is_v3 E dec db' path out n e"
      proof (cases "e \<in> set sent1")
        case True
        with now(2) have "sp_hash path \<notin> bl" "valid_message is_v3 E dec db path out n e" by auto
        with ArbPath show ?thesis by (intro exI [of _ path] exI [of _ out] exI [of _ n] exI [of _ db]) simp
      next
        case False
        with e run(3) have "e \<in> set sent2" by simp
        with later(2) now(1) show ?thesis by (meson list.set_intros(2) subsetD)
      qed
    qed
  qed (use 2(2) in auto)
qed

text \<open>The contract of \<^verbatim>\<open>ex_dust_env\<close> pays one unit out of any input.\<close>

definition ex_dust_env :: calc_env where
  "ex_dust_env = ex_env\<lparr>cn_transact := (\<lambda>db caller target call. Ok (Success []))\<rparr>"

definition ex_dust_dec :: amounts_decoder where
  "ex_dust_dec bs = Some [AMOUNT, 1]"

lemma ex_dust_quote: "quote_path ex_dust_env ex_dust_dec db params = Ok [AMOUNT, 1]"
  by (simp add: quote_path_def ex_dust_env_def ex_dust_dec_def)

lemma ex_dust_optimize: "optimize_input ex_dust_env ex_dust_dec db params 1 = Ok (AMOUNT, 1)"
proof -
  have "optimize_loop ex_dust_env ex_dust_dec db params (Suc n) AMOUNT AMOUNT 1 = Ok (AMOUNT, 1)" for n
    by (simp add: ex_dust_quote last_amount_def Let_def)
  from this [of 49] show ?thesis by (simp add: optimize_input_def)
qed

lemma ex_dust_run:
  "simulate_paths is_v3 ex_dust_env ex_dust_dec False [(ArbPath path out n, db)] {} =
     Some (Ok ({}, [ValidPath (to_quoter_params is_v3 path) (out - AMOUNT) n]))"
proof -
  have "(to_quoter_params is_v3 path)\<lparr>pr_amount_in := AMOUNT\<rparr> = to_quoter_params is_v3 path"
    by (simp add: to_quoter_params_eq)
  then show ?thesis
    by (simp add: simulate_path_def ex_dust_quote last_amount_def ex_dust_optimize Let_def)
qed

text \<open>
  A successful quote is never compared with the input: a path whose simulated swap loses all
  but one unit is sent on, with the searcher's profit.
\<close>

theorem losing_quote_is_sent:
  "quote_path ex_dust_env ex_dust_dec db (to_quoter_params is_v3 path) = Ok [AMOUNT, 1] \<and> 1 < AMOUNT
   \<and> simulate_paths is_v3 ex_dust_env ex_dust_dec False [(ArbPath path out n, db)] {} =
       Some (Ok ({}, [ValidPath (to_quoter_params is_v3 path) (out - AMOUNT) n]))"
  using ex_dust_quote ex_dust_run by (simp add: AMOUNT_def)

theorem simulate_paths_sends_witness:
  "\<exists>path out n db. (ArbPath path out n, db) \<in> {(ArbPath (ex_path [ex_step 10 20]) 1010900000000000 5, ex_v2_db)}
     \<and> valid_message (\<lambda>_. False) ex_dust_env ex_dust_dec db path out n
         (ValidPath (to_quoter_params (\<lambda>_. False) (ex_path [ex_step 10 20])) (1010900000000000 - AMOUNT) 5)"
  using simulate_paths_sends [OF ex_dust_run [of "\<lambda>_. False" "ex_path [ex_step 10 20]"
      1010900000000000 5 ex_v2_db]] by auto

end
