(* ===== verification/MarketState.thy ===== *)
theory MarketState
  imports Quoter
begin

text \<open>
  The market state (\<^verbatim>\<open>src/market_state.rs\<close>, \<^verbatim>\<open>src/tracing.rs\<close>): populating the database,
  catching up with the chain and applying the traces of every new block.

  The node is the parameter \<open>client\<close>: the traces of a block, or \<open>None\<close> for a failed request.
  A \<open>BTreeMap\<close> is the list of its entries in key order. The order in which a hash set of
  addresses is read is the parameter \<open>iter\<close>. The locks serialise whole updates; a task is
  modelled by the function that the events it receives determine.
\<close>

subsection \<open>Traces\<close>

datatype geth_trace =
    Pre_state_diff "(address \<times> trace_state) list"
  | Other_trace

datatype trace_result =
    Trace_success geth_trace
  | Trace_error

type_synonym client = "u64 \<Rightarrow> trace_result list option"

definition push_post ::
  "trace_result \<Rightarrow> (address \<times> trace_state) list list \<Rightarrow> (address \<times> trace_state) list list"
where
  "push_post trace post =
     (case trace of
        Trace_success (Pre_state_diff diff_post) \<Rightarrow> post @ [diff_post]
      | Trace_success Other_trace \<Rightarrow> post
      | Trace_error \<Rightarrow> post)"

definition debug_trace_block :: "client \<Rightarrow> u64 \<Rightarrow> (address \<times> trace_state) list list res" where
  "debug_trace_block client n =
     (case client n of
        None \<Rightarrow> panic Unwrap_err
      | Some results \<Rightarrow> Ok (fold push_post results []))"

subsection \<open>Updating the database\<close>

definition apply_update ::
  "address \<times> trace_state \<Rightarrow> state_db \<times> address set \<Rightarrow> (state_db \<times> address set) res"
where
  "apply_update upd st =
     (let (address, account_state) = upd; (db, updated_pools) = st
      in if tracking_pool db address then
           rbind (unwrap_res (update_all_slots db address account_state)) (\<lambda>db.
             Ok (db, insert address updated_pools))
         else Ok (db, updated_pools))"

definition update_state :: "client \<Rightarrow> u64 \<Rightarrow> state_db \<Rightarrow> (state_db \<times> address set) res" where
  "update_state client block_num db =
     rbind (debug_trace_block client block_num) (\<lambda>updates.
       rfold apply_update (concat updates) (db, {}))"

text \<open>\<open>last + 1 ..= current\<close>\<close>

definition block_range :: "u64 \<Rightarrow> u64 \<Rightarrow> u64 list" where
  "block_range last_synced current = map of_nat [unat last_synced + 1..<unat current + 1]"

definition apply_blocks :: "client \<Rightarrow> u64 list \<Rightarrow> state_db \<Rightarrow> state_db res" where
  "apply_blocks client =
     rfold (\<lambda>block_num db. rbind (update_state client block_num db) (\<lambda>r. Ok (fst r)))"

text \<open>The catching-up loop. The list holds the heads that the node reports, one per request;
  \<open>None\<close> is a request that fails, and the loop has not ended when the list is used up.\<close>

fun catch_up ::
  "client \<Rightarrow> u64 option list \<Rightarrow> u64 \<Rightarrow> state_db \<Rightarrow> (state_db \<times> u64) res option"
where
  "catch_up client [] last_synced db = None"
| "catch_up client (None # heads) last_synced db = Some (panic Unwrap_err)"
| "catch_up client (Some current # heads) last_synced db =
     (if last_synced < current then
        dbind (Some (apply_blocks client (block_range last_synced current) db)) (\<lambda>db.
          catch_up client heads current db)
      else Some (Ok (db, last_synced)))"

text \<open>\<^verbatim>\<open>stream.rs\<close>: every header of the subscription becomes one event of the broadcast channel.\<close>

definition stream_new_blocks :: "header list \<Rightarrow> event list" where
  "stream_new_blocks blocks = map NewBlock blocks"

text \<open>What the broadcast channel yields; an error is a lag or a closed channel.\<close>

datatype received = Received event | Receive_error

type_synonym addr_iter = "address set \<Rightarrow> address list"

definition stream_block ::
  "client \<Rightarrow> addr_iter \<Rightarrow> header \<Rightarrow> u64 \<times> state_db \<Rightarrow> ((u64 \<times> state_db) \<times> event list) res"
where
  "stream_block client iter block_header st =
     (let (last_synced, db) = st; block_number = hd_number block_header
      in if block_number \<le> last_synced then Ok ((last_synced, db), [])
         else rbind (update_state client block_number db) (\<lambda>(db, updated_pools).
           Ok ((block_number, db), [PoolsTouched (iter updated_pools) block_number])))"

fun stream_blocks ::
  "client \<Rightarrow> addr_iter \<Rightarrow> received list \<Rightarrow> u64 \<times> state_db \<Rightarrow> ((u64 \<times> state_db) \<times> event list) res"
where
  "stream_blocks client iter [] st = Ok (st, [])"
| "stream_blocks client iter (r # rs) st =
     (case r of
        Received (NewBlock block_header) \<Rightarrow>
          rbind (stream_block client iter block_header st) (\<lambda>(st, sent).
          rbind (stream_blocks client iter rs st) (\<lambda>(st, sent'). Ok (st, sent @ sent')))
      | _ \<Rightarrow> Ok (st, []))"

text \<open>The whole task: the database, the last block, and what it sent.\<close>

definition state_updater ::
  "client \<Rightarrow> addr_iter \<Rightarrow> u64 option list \<Rightarrow> received list \<Rightarrow> u64 \<Rightarrow> state_db \<Rightarrow>
     ((u64 \<times> state_db) \<times> event list) res option"
where
  "state_updater client iter heads rs last_synced db =
     dbind (catch_up client heads last_synced db) (\<lambda>(db, last_synced).
       Some (stream_blocks client iter rs (last_synced, db)))"

subsection \<open>Initialisation\<close>

definition populate_pool :: "keccak \<Rightarrow> revm \<Rightarrow> pool \<Rightarrow> state_db \<Rightarrow> state_db res" where
  "populate_pool kc R p db =
     (if pl_is_v2 p then insert_v2 R db p
      else if pl_is_v3 p then unwrap_res (insert_v3 kc R db p)
      else Ok db)"

definition populate_db_with_pools :: "keccak \<Rightarrow> revm \<Rightarrow> pool list \<Rightarrow> state_db \<Rightarrow> state_db res" where
  "populate_db_with_pools kc R = rfold (populate_pool kc R)"

text \<open>A transaction that is committed: caller, target and call to the new database.\<close>

type_synonym committer = "state_db \<Rightarrow> address \<Rightarrow> address \<Rightarrow> evm_call \<Rightarrow> state_db res"

definition warm_up_pool ::
  "calc_env \<Rightarrow> revm \<Rightarrow> committer \<Rightarrow> u256 \<Rightarrow> pool \<Rightarrow> state_db \<Rightarrow> state_db res"
where
  "warm_up_pool E R commit_call balance_slot p db =
     (let ten_units = 10000000000000000000;
          (r, db) = insert_account_storage R db (pl_token0 p) balance_slot ten_units OnChain
      in rbind (unwrap_res r) (\<lambda>_.
         rbind (unwrap_res (commit_call db quote_caller (pl_token0 p)
                  (Approve quoter_address 1000000000000000000))) (\<lambda>db.
         let quote_path = \<lparr>pr_pools = [pl_address p], pr_versions = [if pl_is_v3 p then 1 else 0],
                           pr_amount_in = AMOUNT\<rparr>
         in rbind (unwrap_res (cn_transact E db quote_caller quoter_address
                     (Abi_bytes (Quote_arbitrage quote_path)))) (\<lambda>_. Ok db))))"

definition warm_up_database ::
  "calc_env \<Rightarrow> revm \<Rightarrow> committer \<Rightarrow> bytecode \<Rightarrow> (bytecode \<Rightarrow> b256) \<Rightarrow> pool list \<Rightarrow> state_db \<Rightarrow>
     state_db res"
where
  "warm_up_database E R commit_call quoter_bytecode keccak_bytes pools db =
     (let balance_slot = hashed_slot (cn_keccak E) 3 (ucast quote_caller);
          quoter_acc_info = \<lparr>ai_balance = 0, ai_nonce = 0,
            ai_code_hash = keccak_bytes quoter_bytecode, ai_code = Some quoter_bytecode\<rparr>;
          db = insert_account_info R db quoter_address quoter_acc_info Custom
      in rfold (warm_up_pool E R commit_call balance_slot) pools db)"

definition init_state ::
  "calc_env \<Rightarrow> revm \<Rightarrow> committer \<Rightarrow> bytecode \<Rightarrow> (bytecode \<Rightarrow> b256) \<Rightarrow> bool \<Rightarrow> provider \<Rightarrow>
     pool list \<Rightarrow> state_db res"
where
  "init_state E R commit_call quoter_bytecode keccak_bytes have_runtime prov pools =
     rbind (unwrap_opt (state_db_new R have_runtime prov)) (\<lambda>db.
     rbind (warm_up_database E R commit_call quoter_bytecode keccak_bytes pools db) (\<lambda>db.
       populate_db_with_pools (cn_keccak E) R pools db))"

subsection \<open>What a block changes\<close>

text \<open>The post-states a block reports, in order.\<close>

fun posts :: "trace_result list \<Rightarrow> (address \<times> trace_state) list" where
  "posts [] = []"
| "posts (Trace_success (Pre_state_diff m) # rs) = m @ posts rs"
| "posts (r # rs) = posts rs"

lemma push_post_posts: "concat (fold push_post rs ms) = concat ms @ posts rs"
  by (induction rs arbitrary: ms rule: posts.induct) (auto simp: push_post_def)

lemma update_state_eq:
  "update_state client n db =
     (case client n of
        None \<Rightarrow> panic Unwrap_err
      | Some rs \<Rightarrow> rfold apply_update (posts rs) (db, {}))"
  by (simp add: update_state_def debug_trace_block_def push_post_posts split: option.split)

lemma update_all_slots_Ok: "\<exists>db'. update_all_slots db a ts = Ok db'"
  by (simp add: update_all_slots_def split: option.split)

lemma update_all_slots_fields:
  assumes "update_all_slots db a ts = Ok db'"
  shows "db_pools db' = db_pools db" "db_pool_info db' = db_pool_info db"
    "db_provider db' = db_provider db" "has_account db' b = has_account db b"
  using assms
  by (auto simp: update_all_slots_def update_slots_fields update_slots_has_account
      split: option.splits)

text \<open>The slots reported for an address, and the last value of each.\<close>

definition reported :: "(address \<times> trace_state) list \<Rightarrow> address \<Rightarrow> (b256 \<times> b256) list" where
  "reported ps a =
     concat (map (\<lambda>(b, ts). if b = a then (case ts_storage ts of None \<Rightarrow> [] | Some kvs \<Rightarrow> kvs) else [])
       ps)"

lemma apply_updates:
  "\<exists>db' upd'. rfold apply_update ps (db, upd) = Ok (db', upd')
     \<and> upd' = upd \<union> (fst ` set ps \<inter> db_pools db)
     \<and> db_pools db' = db_pools db
     \<and> (\<forall>a. has_account db' a = has_account db a)
     \<and> (\<forall>a. a \<notin> fst ` set ps \<inter> db_pools db \<longrightarrow> reads_agree db db' a)
     \<and> (\<forall>a \<in> db_pools db. has_account db a \<longrightarrow> (\<forall>k. storage_ref db' a k =
          (case map_of (rev (reported ps a)) k of Some v \<Rightarrow> Ok v | None \<Rightarrow> storage_ref db a k)))"
proof (induction ps arbitrary: db upd)
  case Nil
  then show ?case using reads_agree_refl by (auto simp: reported_def)
next
  case (Cons p ps)
  obtain a ts where p: "p = (a, ts)" by (cases p)
  show ?case
  proof (cases "a \<in> db_pools db")
    case False
    from Cons.IH [of db upd] obtain db' upd' where ih: "rfold apply_update ps (db, upd) = Ok (db', upd')"
      "upd' = upd \<union> (fst ` set ps \<inter> db_pools db)" "db_pools db' = db_pools db"
      "\<forall>b. has_account db' b = has_account db b"
      "\<forall>b. b \<notin> fst ` set ps \<inter> db_pools db \<longrightarrow> reads_agree db db' b"
      "\<forall>b \<in> db_pools db. has_account db b \<longrightarrow> (\<forall>k. storage_ref db' b k =
          (case map_of (rev (reported ps b)) k of Some v \<Rightarrow> Ok v | None \<Rightarrow> storage_ref db b k))"
      by blast
    have rep: "reported (p # ps) b = reported ps b" if "b \<in> db_pools db" for b
      using that False by (auto simp: reported_def p)
    have "apply_update p (db, upd) = Ok (db, upd)"
      using False by (simp add: apply_update_def p tracking_pool_def)
    with ih False rep show ?thesis by (auto simp: p)
  next
    case True
    obtain db1 where db1: "update_all_slots db a ts = Ok db1" using update_all_slots_Ok by blast
    note f = update_all_slots_fields [OF db1]
    note r1 = update_all_slots_reads [OF db1]
    have step: "apply_update p (db, upd) = Ok (db1, insert a upd)"
      using True db1 by (simp add: apply_update_def p tracking_pool_def)
    from Cons.IH [of db1 "insert a upd"] obtain db' upd' where
      ih: "rfold apply_update ps (db1, insert a upd) = Ok (db', upd')"
      "upd' = insert a upd \<union> (fst ` set ps \<inter> db_pools db)" "db_pools db' = db_pools db"
      "\<forall>b. has_account db' b = has_account db b"
      "\<forall>b. b \<notin> fst ` set ps \<inter> db_pools db \<longrightarrow> reads_agree db1 db' b"
      "\<forall>b \<in> db_pools db. has_account db b \<longrightarrow> (\<forall>k. storage_ref db' b k =
          (case map_of (rev (reported ps b)) k of Some v \<Rightarrow> Ok v | None \<Rightarrow> storage_ref db1 b k))"
      unfolding f by blast
    have "reads_agree db db' b" if "b \<notin> fst ` set (p # ps) \<inter> db_pools db" for b
    proof -
      from that True have "b \<noteq> a" by (auto simp: p)
      from that have "b \<notin> fst ` set ps \<inter> db_pools db" by auto
      with ih(5) have "reads_agree db1 db' b" by blast
      with update_all_slots_agree [OF db1 \<open>b \<noteq> a\<close>] show ?thesis by (rule reads_agree_trans)
    qed
    moreover have "storage_ref db' b k =
        (case map_of (rev (reported (p # ps) b)) k of Some v \<Rightarrow> Ok v | None \<Rightarrow> storage_ref db b k)"
      if "b \<in> db_pools db" "has_account db b" for b k
    proof -
      have rep: "rev (reported (p # ps) b) = rev (reported ps b) @
          (if a = b then rev (case ts_storage ts of None \<Rightarrow> [] | Some kvs \<Rightarrow> kvs) else [])"
        by (simp add: reported_def p)
      from ih(6) that have s: "storage_ref db' b k =
          (case map_of (rev (reported ps b)) k of Some v \<Rightarrow> Ok v | None \<Rightarrow> storage_ref db1 b k)" by blast
      show ?thesis unfolding s rep r1 using that(2)
        by (auto simp: map_add_def traced_read_def split: option.splits)
    qed
    moreover have "upd' = upd \<union> (fst ` set (p # ps) \<inter> db_pools db)"
      using ih(2) True by (auto simp: p)
    ultimately show ?thesis using step ih(1,3,4) by (auto simp: p)
  qed
qed

text \<open>
  One block: \<^verbatim>\<open>update_state\<close> panics only when the trace request fails. Otherwise the
  returned set is the tracked pools that the block reports, every slot of a tracked pool reads
  as the last reported value and as before when none is reported, and nothing else changes: on
  every other address all reads agree.
\<close>

theorem update_state_reads:
  "case client n of
     None \<Rightarrow> update_state client n db = panic Unwrap_err
   | Some rs \<Rightarrow> \<exists>db'. update_state client n db = Ok (db', fst ` set (posts rs) \<inter> db_pools db)
       \<and> db_pools db' = db_pools db
       \<and> (\<forall>a. a \<notin> fst ` set (posts rs) \<inter> db_pools db \<longrightarrow> reads_agree db db' a)
       \<and> (\<forall>a \<in> db_pools db. has_account db a \<longrightarrow> (\<forall>k. storage_ref db' a k =
            (case map_of (rev (reported (posts rs) a)) k of Some v \<Rightarrow> Ok v
             | None \<Rightarrow> storage_ref db a k)))"
proof (cases "client n")
  case None
  then show ?thesis by (simp add: update_state_eq)
next
  case (Some rs)
  from apply_updates [of "posts rs" db "{}"] obtain db' where
    "rfold apply_update (posts rs) (db, {}) = Ok (db', fst ` set (posts rs) \<inter> db_pools db)"
    "db_pools db' = db_pools db"
    "\<forall>a. a \<notin> fst ` set (posts rs) \<inter> db_pools db \<longrightarrow> reads_agree db db' a"
    "\<forall>a \<in> db_pools db. has_account db a \<longrightarrow> (\<forall>k. storage_ref db' a k =
        (case map_of (rev (reported (posts rs) a)) k of Some v \<Rightarrow> Ok v | None \<Rightarrow> storage_ref db a k))"
    unfolding Un_empty_left by blast
  then show ?thesis unfolding update_state_eq Some option.case by blast
qed

subsection \<open>Catching up and streaming\<close>

lemma apply_blocks_append:
  "apply_blocks client (xs @ ys) db = rbind (apply_blocks client xs db) (apply_blocks client ys)"
  by (simp add: apply_blocks_def rfold_append)

lemma block_range_append:
  assumes "a \<le> b" "b \<le> c"
  shows "block_range a b @ block_range b c = block_range a c"
proof -
  from assms have "unat a + 1 \<le> unat b + 1" "unat b + 1 \<le> unat c + 1"
    by (simp_all add: word_le_nat_alt)
  then show ?thesis
    unfolding block_range_def map_append [symmetric] by (metis le_iff_add upt_add_eq_append)
qed

lemma block_range_self [simp]: "block_range a a = []"
  by (simp add: block_range_def)

lemma catch_up_blocks:
  "catch_up client heads l db = Some (Ok (db', l')) \<Longrightarrow>
     l \<le> l' \<and> apply_blocks client (block_range l l') db = Ok db' \<and> (\<exists>h \<le> l'. Some h \<in> set heads)"
proof (induction client heads l db rule: catch_up.induct)
  case (3 client current heads l db)
  show ?case
  proof (cases "l < current")
    case True
    with 3(2) obtain db1 where db1: "apply_blocks client (block_range l current) db = Ok db1"
      "catch_up client heads current db1 = Some (Ok (db', l'))"
      by (auto simp: dbind_eq_Some_Inr)
    from 3(1) [OF True _ db1(2)] db1(1) have ih: "current \<le> l'"
      "apply_blocks client (block_range current l') db1 = Ok db'" "\<exists>h \<le> l'. Some h \<in> set heads"
      by auto
    from True have "l \<le> current" by simp
    from block_range_append [OF this ih(1)] db1(1) ih(2)
    have "apply_blocks client (block_range l l') db = Ok db'"
      by (metis apply_blocks_append rbind_Inr)
    with ih \<open>l \<le> current\<close> show ?thesis by auto
  next
    case False
    with 3(2) have "db' = db" "l' = l" by auto
    moreover from False have "current \<le> l" by simp
    ultimately show ?thesis by (auto simp: apply_blocks_def)
  qed
qed auto

text \<open>The blocks that the stream processes: those above every block seen before, up to the
  first error or foreign event.\<close>

fun new_blocks :: "u64 \<Rightarrow> received list \<Rightarrow> u64 list" where
  "new_blocks l [] = []"
| "new_blocks l (r # rs) =
     (case r of
        Received (NewBlock h) \<Rightarrow>
          if hd_number h \<le> l then new_blocks l rs else hd_number h # new_blocks (hd_number h) rs
      | _ \<Rightarrow> [])"

definition sent_block :: "event \<Rightarrow> u64 option" where
  "sent_block ev = (case ev of PoolsTouched pools n \<Rightarrow> Some n | _ \<Rightarrow> None)"

lemma new_blocks_increasing: "sorted_wrt (<) (l # new_blocks l rs)"
proof (induction rs arbitrary: l)
  case (Cons r rs)
  show ?case
  proof (cases "\<exists>h. r = Received (NewBlock h) \<and> \<not> hd_number h \<le> l")
    case True
    then obtain h where h: "r = Received (NewBlock h)" "l < hd_number h" by auto
    with Cons.IH [of "hd_number h"] show ?thesis by auto
  next
    case False
    with Cons.IH [of l] show ?thesis by (auto split: received.splits event.splits)
  qed
qed simp

lemma stream_blocks_run:
  "stream_blocks client iter rs (l, db) = Ok ((l', db'), sent) \<Longrightarrow>
     apply_blocks client (new_blocks l rs) db = Ok db' \<and> l' = last (l # new_blocks l rs)
     \<and> map sent_block sent = map Some (new_blocks l rs)"
proof (induction rs arbitrary: l db sent)
  case Nil
  then show ?case by (simp add: apply_blocks_def)
next
  case (Cons r rs)
  show ?case
  proof (cases "\<exists>h. r = Received (NewBlock h)")
    case False
    with Cons.prems show ?thesis
      by (auto simp: apply_blocks_def split: received.splits event.splits)
  next
    case True
    then obtain h where r: "r = Received (NewBlock h)" by blast
    show ?thesis
    proof (cases "hd_number h \<le> l")
      case True
      with Cons.prems r have "stream_blocks client iter rs (l, db) = Ok ((l', db'), sent)"
        by (auto simp: stream_block_def rbind_eq_Inr)
      from Cons.IH [OF this] True r show ?thesis by simp
    next
      case False
      with Cons.prems r obtain db1 upd sent' where
        u: "update_state client (hd_number h) db = Ok (db1, upd)" and
        s: "stream_blocks client iter rs (hd_number h, db1) = Ok ((l', db'), sent')"
          "sent = PoolsTouched (iter upd) (hd_number h) # sent'"
        by (auto simp: stream_block_def rbind_eq_Inr Let_def)
      from Cons.IH [OF s(1)] u s(2) False r show ?thesis
        by (auto simp: apply_blocks_def sent_block_def)
    qed
  qed
qed

text \<open>
  C11: The updater task. When it has caught up and handled what it received, the database is the
  initial one with whole blocks applied, each at most once and in increasing order: first
  every block after \<open>last_synced\<close> up to a head \<open>m\<close> that the node reported as its last, then
  exactly the received blocks that are above all blocks before them. One message was sent for
  each of the latter, none for the former.
\<close>

theorem state_updater_blocks:
  assumes "state_updater client iter heads rs l db = Some (Ok ((l', db'), sent))"
  shows "\<exists>m. l \<le> m \<and> (\<exists>h \<le> m. Some h \<in> set heads)
     \<and> apply_blocks client (block_range l m @ new_blocks m rs) db = Ok db'
     \<and> l' = last (m # new_blocks m rs)
     \<and> sorted_wrt (<) (m # new_blocks m rs)
     \<and> map sent_block sent = map Some (new_blocks m rs)"
proof -
  from assms obtain db1 m where m: "catch_up client heads l db = Some (Ok (db1, m))"
    and s: "stream_blocks client iter rs (m, db1) = Ok ((l', db'), sent)"
    by (auto simp: state_updater_def dbind_eq_Some_Inr)
  note c = catch_up_blocks [OF m] and r = stream_blocks_run [OF s]
  from c r have "apply_blocks client (block_range l m @ new_blocks m rs) db = Ok db'"
    by (simp add: apply_blocks_append)
  with c r new_blocks_increasing [of m rs] show ?thesis by blast
qed

text \<open>Catching up cannot fail while every trace request succeeds.\<close>

lemma update_state_Ok: "client n \<noteq> None \<Longrightarrow> \<exists>r. update_state client n db = Ok r"
  using apply_updates [of "posts (the (client n))" db "{}"] by (auto simp: update_state_eq)

lemma apply_blocks_Ok: "\<forall>n. client n \<noteq> None \<Longrightarrow> \<exists>db'. apply_blocks client ns db = Ok db'"
proof (induction ns arbitrary: db)
  case (Cons n ns)
  obtain r where "update_state client n db = Ok r" using update_state_Ok Cons.prems by blast
  with Cons.IH [OF Cons.prems, of "fst r"] show ?case by (auto simp: apply_blocks_def)
qed (simp add: apply_blocks_def)

text \<open>
  C34: The catching-up loop ends as soon as the node reports a head that is not above the one
  before it: if all requests succeed, it returns for every list of reported heads that is not
  strictly increasing from \<open>last_synced\<close> on.
\<close>

theorem catch_up_returns:
  assumes "\<forall>n. client n \<noteq> None" and "\<not> sorted_wrt (<) (l # hs)"
  shows "\<exists>db' l'. catch_up client (map Some hs) l db = Some (Ok (db', l'))"
  using assms(2)
proof (induction hs arbitrary: l db)
  case (Cons h hs)
  show ?case
  proof (cases "l < h")
    case True
    obtain db1 where "apply_blocks client (block_range l h) db = Ok db1"
      using apply_blocks_Ok [OF assms(1)] by blast
    moreover have "\<not> sorted_wrt (<) (h # hs)"
    proof
      assume s: "sorted_wrt (<) (h # hs)"
      then have "\<forall>x \<in> set hs. l < x" using True by (auto intro: less_trans)
      with s True Cons.prems show False by auto
    qed
    ultimately show ?thesis using Cons.IH [of h db1] True by simp
  qed simp
qed simp

subsection \<open>Populating\<close>

lemma populate_pool_put_all:
  assumes "populate_pool kc R p db = Ok db'" and "pl_is_v2 p \<or> pl_is_v3 p"
  obtains kvs where "sr.put_all (pl_address p) kvs (add_pool R db p) = Inr db'"
proof (cases "pl_is_v2 p")
  case True
  with assms(1) that show thesis by (auto simp: populate_pool_def insert_v2_eq rbind_eq_Inr)
next
  case False
  with assms have i: "insert_v3 kc R db p = Ok db'" by (simp add: populate_pool_def)
  then obtain v3 where "pl_v3 p = Some v3" by (auto simp: insert_v3_def Let_def rbind_eq_Inr)
  with i insert_v3_slots that show thesis by metis
qed

lemma populate_pool_effect:
  assumes "populate_pool kc R p db = Ok db'"
  shows "(b \<noteq> pl_address p \<longrightarrow> storage_ref db' b k = storage_ref db b k
             \<and> db_pool_info db' b = db_pool_info db b \<and> (b \<in> db_pools db' \<longleftrightarrow> b \<in> db_pools db))
     \<and> (pl_is_v2 p \<or> pl_is_v3 p \<longrightarrow>
          db_pool_info db' (pl_address p) = Some p \<and> pl_address p \<in> db_pools db')"
proof (cases "pl_is_v2 p \<or> pl_is_v3 p")
  case True
  with assms obtain kvs where w: "sr.put_all (pl_address p) kvs (add_pool R db p) = Inr db'"
    by (rule populate_pool_put_all)
  from put_all_fields [OF w] sr.get_put_all [OF w, of b k] show ?thesis
    by (auto simp: add_pool_fields add_pool_read_other)
next
  case False
  with assms show ?thesis by (simp add: populate_pool_def)
qed

lemma populate_rest:
  assumes "populate_db_with_pools kc R ps db = Ok db'" and "b \<notin> pl_address ` set ps"
  shows "storage_ref db' b k = storage_ref db b k \<and> db_pool_info db' b = db_pool_info db b
     \<and> (b \<in> db_pools db' \<longleftrightarrow> b \<in> db_pools db)"
proof (rule rfold_invariant [OF assms(1) [unfolded populate_db_with_pools_def]])
  fix p d d' assume p: "p \<in> set ps" and d: "storage_ref d b k = storage_ref db b k
      \<and> db_pool_info d b = db_pool_info db b \<and> (b \<in> db_pools d \<longleftrightarrow> b \<in> db_pools db)"
    and step: "populate_pool kc R p d = Inr d'"
  from p assms(2) have "b \<noteq> pl_address p" by auto
  with populate_pool_effect [OF step, of b k] d
  show "storage_ref d' b k = storage_ref db b k \<and> db_pool_info d' b = db_pool_info db b
      \<and> (b \<in> db_pools d' \<longleftrightarrow> b \<in> db_pools db)" by simp
qed simp

lemma populate_v2_reserves:
  assumes "populate_pool kc R p db = Ok db'" and "pl_is_v2 p" and "pl_v2 p = Some v2"
  shows "storage_ref db' (pl_address p) 8 =
     Ok (pack_reserves 0 (v2_reserve0 v2) (v2_reserve1 v2))"
proof -
  from assms have "sr.put_all (pl_address p)
         [(8, pack_reserves 0 (v2_reserve0 v2) (v2_reserve1 v2)),
          (6, ucast (pl_token0 p)), (7, ucast (pl_token1 p))]
         (add_pool R db p) = Inr db'"
    by (simp add: populate_pool_def insert_v2_eq)
  from sr.get_put_all [OF this, of "pl_address p" 8] show ?thesis by simp
qed

lemma populate_v2_wf: "populate_pool kc R p db = Ok db' \<Longrightarrow> pl_is_v2 p \<Longrightarrow> pl_v2 p \<noteq> None"
  by (auto simp: populate_pool_def insert_v2_eq rbind_eq_Inr)

lemma populate_db_effect:
  assumes "populate_db_with_pools kc R ps db = Ok db'" and "distinct (map pl_address ps)"
  shows "(\<forall>p \<in> set ps. pl_is_v2 p \<or> pl_is_v3 p \<longrightarrow>
            tracking_pool db' (pl_address p) \<and> get_pool db' (pl_address p) = Ok p)
     \<and> (\<forall>p \<in> set ps. pl_is_v2 p \<longrightarrow> (\<exists>v2. pl_v2 p = Some v2 \<and>
            (unat (v2_reserve0 v2) < 2 ^ 112 \<longrightarrow> unat (v2_reserve1 v2) < 2 ^ 112 \<longrightarrow>
             get_reserves db' (pl_address p) = Ok (v2_reserve0 v2, v2_reserve1 v2))))
     \<and> (\<forall>b k. b \<notin> pl_address ` set ps \<longrightarrow> storage_ref db' b k = storage_ref db b k)"
proof -
  have pool: "(pl_is_v2 p \<or> pl_is_v3 p \<longrightarrow>
        tracking_pool db' (pl_address p) \<and> get_pool db' (pl_address p) = Ok p)
      \<and> (pl_is_v2 p \<longrightarrow> (\<exists>v2. pl_v2 p = Some v2 \<and> storage_ref db' (pl_address p) 8 =
            Ok (pack_reserves 0 (v2_reserve0 v2) (v2_reserve1 v2))))" if "p \<in> set ps" for p
  proof -
    from that obtain xs ys where ps: "ps = xs @ p # ys" by (meson split_list)
    with assms(2) have new: "pl_address p \<notin> pl_address ` set ys" by auto
    from assms(1) ps obtain db1 db2 where
      one: "populate_pool kc R p db1 = Ok db2" and
      later: "populate_db_with_pools kc R ys db2 = Ok db'"
      by (auto simp: populate_db_with_pools_def rfold_append rbind_eq_Inr)
    note rest = populate_rest [OF later new]
    show ?thesis
    proof (intro conjI impI)
      assume "pl_is_v2 p \<or> pl_is_v3 p"
      then show "tracking_pool db' (pl_address p)" "get_pool db' (pl_address p) = Ok p"
        using populate_pool_effect [OF one] rest by (simp_all add: tracking_pool_def get_pool_def)
    next
      assume v: "pl_is_v2 p"
      from populate_v2_wf [OF one v] obtain v2 where v2: "pl_v2 p = Some v2" by auto
      from populate_v2_reserves [OF one v v2] rest [of 8] v2
      show "\<exists>v2. pl_v2 p = Some v2 \<and> storage_ref db' (pl_address p) 8 =
            Ok (pack_reserves 0 (v2_reserve0 v2) (v2_reserve1 v2))" by simp
    qed
  qed
  have "\<exists>v2. pl_v2 p = Some v2 \<and> (unat (v2_reserve0 v2) < 2 ^ 112 \<longrightarrow>
      unat (v2_reserve1 v2) < 2 ^ 112 \<longrightarrow>
      get_reserves db' (pl_address p) = Ok (v2_reserve0 v2, v2_reserve1 v2))"
    if "p \<in> set ps" "pl_is_v2 p" for p
  proof -
    from pool [OF that(1)] that(2) obtain v2 where v2: "pl_v2 p = Some v2"
      "storage_ref db' (pl_address p) 8 = Ok (pack_reserves 0 (v2_reserve0 v2) (v2_reserve1 v2))"
      by blast
    then show ?thesis by (auto simp: get_reserves_eq unpack_reserves)
  qed
  with pool populate_rest [OF assms(1)] show ?thesis by blast
qed

text \<open>
  After \<^verbatim>\<open>populate_db_with_pools\<close> over pools with different addresses, every V2 and V3 pool
  is tracked under its own data, every V2 pool reads back its reserves, and every address
  that is no pool reads as before.
\<close>

theorem populate_db_complete:
  assumes "populate_db_with_pools kc R ps db = Ok db'" and "distinct (map pl_address ps)"
  shows "(\<forall>p \<in> set ps. pl_is_v2 p \<or> pl_is_v3 p \<longrightarrow>
            tracking_pool db' (pl_address p) \<and> get_pool db' (pl_address p) = Ok p)
     \<and> (\<forall>p \<in> set ps. pl_is_v2 p \<longrightarrow> (\<exists>v2. pl_v2 p = Some v2 \<and>
            (unat (v2_reserve0 v2) < 2 ^ 112 \<longrightarrow> unat (v2_reserve1 v2) < 2 ^ 112 \<longrightarrow>
             get_reserves db' (pl_address p) = Ok (v2_reserve0 v2, v2_reserve1 v2))))
     \<and> (\<forall>b k. b \<notin> pl_address ` set ps \<longrightarrow> storage_ref db' b k = storage_ref db b k)"
  using populate_db_effect [OF assms] .

subsection \<open>Witnesses\<close>

text \<open>A block with a failed trace, one of the pool 77 and an address that is not tracked.\<close>

definition ex_traces :: "trace_result list" where
  "ex_traces = [Trace_error, Trace_success Other_trace,
     Trace_success (Pre_state_diff [(5, \<lparr>ts_storage = Some [(8, 1)]\<rparr>),
       (77, \<lparr>ts_storage = Some [(8, pack_reserves 9 300 400)]\<rparr>)])]"

lemma ex_v2_db_fields:
  "db_pools ex_v2_db = {77}" "has_account ex_v2_db 77" "pl_address ex_pool = 77"
  by (simp_all add: ex_v2_db_def ex_with_def ex_pool_def has_account_def)

theorem update_state_reads_witness:
  "\<exists>db'. update_state (\<lambda>n. Some ex_traces) 7 ex_v2_db = Ok (db', {77})
     \<and> storage_ref db' 77 8 = Ok (pack_reserves 9 300 400) \<and> reads_agree ex_v2_db db' 5"
proof -
  have p: "fst ` set (posts ex_traces) \<inter> db_pools ex_v2_db = {77}"
    "map_of (rev (reported (posts ex_traces) 77)) 8 = Some (pack_reserves 9 300 400)"
    by (simp_all add: ex_traces_def ex_v2_db_fields reported_def)
  from update_state_reads [of "\<lambda>n. Some ex_traces" 7 ex_v2_db, unfolded option.case p]
  obtain db' where db': "update_state (\<lambda>n. Some ex_traces) 7 ex_v2_db = Ok (db', {77})"
    "\<forall>a. a \<notin> {77} \<longrightarrow> reads_agree ex_v2_db db' a"
    "\<forall>a \<in> db_pools ex_v2_db. has_account ex_v2_db a \<longrightarrow> (\<forall>k. storage_ref db' a k =
       (case map_of (rev (reported (posts ex_traces) a)) k of Some v \<Rightarrow> Ok v
        | None \<Rightarrow> storage_ref ex_v2_db a k))"
    by blast
  from db'(3) p(2) have "storage_ref db' 77 8 = Ok (pack_reserves 9 300 400)"
    by (simp add: ex_v2_db_fields)
  moreover from db'(2) have "reads_agree ex_v2_db db' 5" by simp
  ultimately show ?thesis using db'(1) by blast
qed

definition ex_header :: "u64 \<Rightarrow> header" where
  "ex_header n = \<lparr>hd_number = n, hd_base_fee = Some 7, hd_gas_used = 0, hd_gas_limit = 30000000\<rparr>"

text \<open>The headers 5, 4, 5: block 4 is never applied.\<close>

theorem state_updater_blocks_witness:
  "\<exists>m. 2 \<le> m \<and> m \<le> (5 :: u64)
     \<and> apply_blocks (\<lambda>n. Some []) (block_range 2 m @ new_blocks m
          (map (\<lambda>n. Received (NewBlock (ex_header n))) [5, 4, 5])) ex_v2_db = Ok ex_v2_db"
proof -
  have "unat (2 :: u64) + 1 = 3" "unat (3 :: u64) + 1 = 4" by simp_all
  then have r: "block_range 2 3 = [3]" by (simp add: block_range_def upt_rec)
  have "state_updater (\<lambda>n. Some []) (\<lambda>_. []) [Some 3, Some 3]
      (map (\<lambda>n. Received (NewBlock (ex_header n))) [5, 4, 5]) 2 ex_v2_db =
      Some (Ok ((5, ex_v2_db), [PoolsTouched [] 5]))"
    by (simp add: state_updater_def r apply_blocks_def update_state_eq stream_block_def ex_header_def)
  from state_updater_blocks [OF this] show ?thesis
    by (elim exE conjE) (auto intro!: exI)
qed

theorem catch_up_returns_witness:
  "\<exists>db' l'. catch_up (\<lambda>n. Some ex_traces) (map Some [3, 5, 5]) 2 ex_v2_db = Some (Ok (db', l'))"
  by (rule catch_up_returns) simp_all

theorem populate_db_complete_witness:
  "\<exists>db'. populate_db_with_pools ex_keccak ex_revm [ex_pool] ex_db = Ok db'
     \<and> get_pool db' 77 = Ok ex_pool \<and> get_reserves db' 77 = Ok (1000, 2000)"
proof -
  have has: "has_account (add_pool ex_revm ex_db ex_pool) 77"
    by (simp add: add_pool_has_account ex_pool_def basic_ref_def ex_defs)
  from sr.put_all_has [OF this] obtain db' where "insert_v2 ex_revm ex_db ex_pool = Ok db'"
    by (fastforce simp: insert_v2_eq ex_pool_def)
  then have p: "populate_db_with_pools ex_keccak ex_revm [ex_pool] ex_db = Ok db'"
    by (simp add: populate_db_with_pools_def populate_pool_def) (simp add: ex_pool_def)
  have f: "pl_is_v2 ex_pool" "pl_v2 ex_pool = Some \<lparr>v2_reserve0 = 1000, v2_reserve1 = 2000, v2_stable = None\<rparr>"
    by (simp_all add: ex_pool_def)
  from populate_db_complete [OF p] f p show ?thesis
    by (auto simp: ex_v2_db_fields)
qed

end
