(* ===== verification/GasStation.thy ===== *)
theory GasStation
  imports MarketState
begin

text \<open>
  The gas station (\<^verbatim>\<open>src/gas_station.rs\<close>): the base fee of the next block and the fees a
  transaction offers for its profit. \<open>calc_next_block_base_fee\<close> belongs to \<^verbatim>\<open>alloy\<close> and is the
  parameter \<open>next_fee\<close> of gas used, gas limit and base fee. The atomic is its value.
\<close>

record gas_station =
  gs_base_fee :: u64

definition gas_station_new :: gas_station where
  "gas_station_new = \<lparr>gs_base_fee = 0\<rparr>"

text \<open>The maximal fee and the priority fee per gas.\<close>

definition get_gas_fees :: "gas_station \<Rightarrow> u256 \<Rightarrow> (u128 \<times> u128) res" where
  "get_gas_fees gs profit =
     (let base_fee = (ucast (gs_base_fee gs) :: u128)
      in if unat (profit div 2) < 2 ^ 128 then
           (let max_total_gas_spend = (ucast (profit div 2) :: u128);
                priority_fee = max_total_gas_spend div 350000
            in Ok (base_fee + priority_fee, priority_fee))
         else panic Unwrap_err)"

type_synonym next_fee = "u64 \<Rightarrow> u64 \<Rightarrow> u64 \<Rightarrow> u64"

definition update_gas_block :: "next_fee \<Rightarrow> header \<Rightarrow> gas_station \<Rightarrow> gas_station res" where
  "update_gas_block next_fee h gs =
     rbind (unwrap_opt (hd_base_fee h)) (\<lambda>base_fee.
       let next_base_fee = next_fee (hd_gas_used h) (hd_gas_limit h) base_fee
       in Ok (gs\<lparr>gs_base_fee := next_base_fee\<rparr>))"

text \<open>The task ends at the first error of the channel or foreign event.\<close>

fun update_gas :: "next_fee \<Rightarrow> received list \<Rightarrow> gas_station \<Rightarrow> gas_station res" where
  "update_gas next_fee [] gs = Ok gs"
| "update_gas next_fee (r # rs) gs =
     (case r of
        Received (NewBlock h) \<Rightarrow>
          rbind (update_gas_block next_fee h gs) (update_gas next_fee rs)
      | _ \<Rightarrow> Ok gs)"

lemma get_gas_fees_value:
  "get_gas_fees gs profit =
     (if unat profit < 2 ^ 129
      then Ok (ucast (gs_base_fee gs) + ucast (profit div 2) div 350000,
               ucast (profit div 2) div 350000)
      else panic Unwrap_err)"
proof -
  have "unat (profit div 2) < 2 ^ 128 \<longleftrightarrow> unat profit < 2 ^ 129"
    by (simp add: unat_div_exact less_mult_imp_div_less div_less_iff_less_mult)
  then show ?thesis by (simp add: get_gas_fees_def Let_def)
qed

lemma priority_fee_value:
  assumes "unat (profit :: u256) < 2 ^ 129"
  shows "unat (ucast (profit div 2) div 350000 :: u128) = unat profit div 700000"
proof -
  have h: "unat (profit div 2) = unat profit div 2" by (simp add: unat_div_exact)
  have "unat profit div 2 < 2 ^ 128" using assms by (simp add: div_less_iff_less_mult)
  then have "unat (ucast (profit div 2) :: u128) = unat profit div 2"
    by (simp add: unsigned_ucast_eq take_bit_nat_eq_self h)
  then show ?thesis by (simp add: unat_div_exact div_mult2_eq [symmetric])
qed

lemma max_fee_value:
  assumes "unat (profit :: u256) < 2 ^ 129"
  shows "unat (ucast (gs_base_fee gs) + ucast (profit div 2) div 350000 :: u128) =
     unat (gs_base_fee gs) + unat profit div 700000"
proof -
  have b: "unat (ucast (gs_base_fee gs) :: u128) = unat (gs_base_fee gs)"
    by (rule unat_ucast_up) simp
  have "unat (gs_base_fee gs) < 2 ^ 64" using unat_less_width [of "gs_base_fee gs"] by simp
  moreover have "unat profit div 700000 < 2 ^ 110" using assms by (simp add: div_less_iff_less_mult)
  ultimately have "unat (gs_base_fee gs) + unat profit div 700000 < 2 ^ 128" by simp
  then show ?thesis
    using unat_add_exact [of "ucast (gs_base_fee gs) :: u128" "ucast (profit div 2) div 350000"]
    unfolding b priority_fee_value [OF assms] by simp
qed

text \<open>
  C33: The fees: the request fails only for a profit of 2 ^ 129 and more; otherwise the priority
  fee is the seven hundred thousandth part of the profit, rounded down, and the maximal fee is
  it plus the base fee, without wrap-around. So 350,000 units of gas cost at most half the
  profit in priority fees.
\<close>

theorem get_gas_fees_exact:
  "case get_gas_fees gs profit of
     Inl e \<Rightarrow> e = Panic Unwrap_err \<and> 2 ^ 129 \<le> unat profit
   | Inr (max_fee, priority_fee) \<Rightarrow>
       unat profit < 2 ^ 129
       \<and> unat priority_fee = unat profit div 700000
       \<and> unat max_fee = unat (gs_base_fee gs) + unat profit div 700000
       \<and> 350000 * unat priority_fee \<le> unat profit div 2"
proof (cases "unat profit < 2 ^ 129")
  case True
  have "350000 * (n div 700000) \<le> n div (2 :: nat)" for n by linarith
  with True priority_fee_value [OF True] max_fee_value [OF True] show ?thesis
    by (simp add: get_gas_fees_value)
qed (simp add: get_gas_fees_value)

text \<open>
  \<^verbatim>\<open>update_gas\<close> over blocks with a base fee leaves the fee computed from the last header
  received; a header without a base fee panics.
\<close>

theorem update_gas_last:
  "update_gas next_fee (map (\<lambda>h. Received (NewBlock h)) hs) gs =
     (if \<exists>h \<in> set hs. hd_base_fee h = None then panic Unwrap_none
      else if hs = [] then Ok gs
      else Ok (gs\<lparr>gs_base_fee := next_fee (hd_gas_used (last hs)) (hd_gas_limit (last hs))
                   (the (hd_base_fee (last hs)))\<rparr>))"
proof (induction hs arbitrary: gs)
  case (Cons h hs)
  show ?case
  proof (cases "hd_base_fee h")
    case None
    then show ?thesis by (simp add: update_gas_block_def)
  next
    case (Some f)
    then show ?thesis by (simp add: update_gas_block_def Cons.IH)
  qed
qed simp

end
