(* ===== verification/TxSender.thy ===== *)
theory TxSender
  imports GasStation
begin

text \<open>
  The transaction sender (\<^verbatim>\<open>src/tx_sender.rs\<close>): one signed transaction per path that passed
  the simulation, with the next nonce, and a task that polls for its receipt. The wallet, the
  sequencer and the node are parameters: \<open>sign\<close> gives the encoded transaction or an error,
  \<open>post\<close> the \<open>result\<close> field of the answer (the outer \<open>None\<close> is a failed request),
  \<open>parse_hash\<close> the hash in it, and a list of answers stands for the polled receipts.
\<close>

subsection \<open>Transactions\<close>

datatype calldata = Execute_arbitrage flash_swap_params

record transaction_request =
  tx_to :: address
  tx_nonce :: u64
  tx_gas_limit :: u64
  tx_chain_id :: u64
  tx_max_fee :: u128
  tx_priority_fee :: u128
  tx_type :: u8
  tx_input :: calldata

record transaction_sender =
  ts_contract :: address
  ts_nonce :: u64

record sequencer =
  sq_sign :: "transaction_request \<Rightarrow> u8 list res"
  sq_post :: "u8 list \<Rightarrow> string option option"
  sq_parse_hash :: "string \<Rightarrow> b256 option"

text \<open>What \<^verbatim>\<open>TransactionSender::new\<close> asks of its surroundings: environment variables, parsers, the
  building of the HTTP client, the warm-up request, and the account's nonce at the node.\<close>

record sender_setup =
  su_env :: "string \<Rightarrow> string option"
  su_decode_hex :: "string \<Rightarrow> u8 list option"
  su_secret_key :: "u8 list \<Rightarrow> bool"
  su_client :: bool
  su_warm_up :: bool
  su_parse_url :: "string \<Rightarrow> bool"
  su_parse_address :: "string \<Rightarrow> address option"
  su_transaction_count :: "address \<Rightarrow> u64 option"

definition unwrap_answer :: "'a option \<Rightarrow> 'a res" where
  "unwrap_answer x = (case x of Some v \<Rightarrow> Ok v | None \<Rightarrow> panic Unwrap_err)"

definition unwrap_check :: "bool \<Rightarrow> unit res" where
  "unwrap_check b = (if b then Ok () else panic Unwrap_err)"

definition transaction_sender_new :: "sender_setup \<Rightarrow> transaction_sender res" where
  "transaction_sender_new SU =
     rbind (unwrap_answer (su_env SU ''PRIVATE_KEY'')) (\<lambda>key.
     rbind (unwrap_answer (su_decode_hex SU key)) (\<lambda>key_hex.
     rbind (unwrap_check (su_secret_key SU key_hex)) (\<lambda>_.
     rbind (unwrap_check (su_client SU)) (\<lambda>_.
     rbind (unwrap_check (su_warm_up SU)) (\<lambda>_.
     rbind (unwrap_answer (su_env SU ''FULL'')) (\<lambda>provider_url_str.
     rbind (unwrap_check (su_parse_url SU provider_url_str)) (\<lambda>_.
     rbind (unwrap_answer (su_env SU ''ACCOUNT'')) (\<lambda>account.
     rbind (unwrap_answer (su_parse_address SU account)) (\<lambda>account.
     rbind (unwrap_answer (su_transaction_count SU account)) (\<lambda>nonce.
     rbind (unwrap_answer (su_env SU ''SWAP_CONTRACT'')) (\<lambda>contract.
     rbind (unwrap_answer (su_parse_address SU contract)) (\<lambda>contract_address.
       Ok \<lparr>ts_contract = contract_address, ts_nonce = nonce\<rparr>))))))))))))"

definition build_transaction ::
  "gas_station \<Rightarrow> transaction_sender \<Rightarrow> swap_params \<Rightarrow> u256 \<Rightarrow> transaction_request res"
where
  "build_transaction gs snd_st arb_path profit =
     (let converted_path = to_flash_swap arb_path
      in rbind (get_gas_fees gs profit) (\<lambda>(max_fee, priority_fee).
        Ok \<lparr>tx_to = ts_contract snd_st, tx_nonce = ts_nonce snd_st, tx_gas_limit = 2000000,
            tx_chain_id = 8453, tx_max_fee = max_fee, tx_priority_fee = priority_fee,
            tx_type = 2, tx_input = Execute_arbitrage converted_path\<rparr>))"

text \<open>The sending of one path: the transaction, and the hash to be monitored if there is one.\<close>

definition send_transaction ::
  "sequencer \<Rightarrow> gas_station \<Rightarrow> swap_params \<Rightarrow> u256 \<Rightarrow> transaction_sender \<Rightarrow>
     (transaction_sender \<times> (transaction_request \<times> b256 option)) res"
where
  "send_transaction sq gs arb_path profit snd_st =
     rbind (build_transaction gs snd_st arb_path profit) (\<lambda>tx.
     let snd_st = snd_st\<lparr>ts_nonce := ts_nonce snd_st + 1\<rparr>
     in rbind (unwrap_res (sq_sign sq tx)) (\<lambda>encoded_tx.
        case sq_post sq encoded_tx of
          None \<Rightarrow> panic Unwrap_err
        | Some None \<Rightarrow> Ok (snd_st, (tx, None))
        | Some (Some tx_hash_str) \<Rightarrow>
            (case sq_parse_hash sq tx_hash_str of
               None \<Rightarrow> panic Unwrap_err
             | Some tx_hash \<Rightarrow> Ok (snd_st, (tx, Some tx_hash)))))"

text \<open>The loop; each event comes with the gas station as it is when the event is handled.\<close>

fun send_transactions ::
  "sequencer \<Rightarrow> (event \<times> gas_station) list \<Rightarrow> transaction_sender \<Rightarrow>
     (transaction_sender \<times> (transaction_request \<times> b256 option) list) res"
where
  "send_transactions sq [] snd_st = Ok (snd_st, [])"
| "send_transactions sq ((ev, gs) # evs) snd_st =
     (case ev of
        ValidPath arb_path profit block_number \<Rightarrow>
          rbind (send_transaction sq gs arb_path profit snd_st) (\<lambda>(snd_st, sent).
          rbind (send_transactions sq evs snd_st) (\<lambda>(snd_st, more). Ok (snd_st, sent # more)))
      | _ \<Rightarrow> Ok (snd_st, []))"

subsection \<open>Monitoring\<close>

datatype receipt_answer =
    Receipt "u64 option"
  | No_receipt
  | Receipt_error

text \<open>How the monitoring ends, with the number of requests made; \<open>receipt\<close> answers the
  request of an attempt.\<close>

datatype monitored = Landed u64 nat | Gave_up nat

function monitor_from :: "(nat \<Rightarrow> receipt_answer) \<Rightarrow> nat \<Rightarrow> monitored" where
  "monitor_from receipt attempts =
     (if attempts < 10 then
        (case receipt attempts of
           Receipt block \<Rightarrow> Landed (case block of Some n \<Rightarrow> n | None \<Rightarrow> 0) (attempts + 1)
         | No_receipt \<Rightarrow> monitor_from receipt (attempts + 1)
         | Receipt_error \<Rightarrow> monitor_from receipt (attempts + 1))
      else Gave_up attempts)"
  by pat_completeness auto
termination
  by (relation "measure (\<lambda>(receipt, attempts). 10 - attempts)") auto

declare monitor_from.simps [simp del]

definition send_and_monitor :: "(nat \<Rightarrow> receipt_answer) \<Rightarrow> monitored" where
  "send_and_monitor receipt = monitor_from receipt 0"

subsection \<open>Properties\<close>

lemma send_transaction_cases:
  assumes "send_transaction sq gs params profit st = Ok (st', (tx, h))"
  shows "st' = st\<lparr>ts_nonce := ts_nonce st + 1\<rparr> \<and> build_transaction gs st params profit = Ok tx"
  using assms by (auto simp: send_transaction_def rbind_eq_Inr Let_def split: option.splits)

lemma build_transaction_cases:
  "build_transaction gs st params profit = Ok tx \<longleftrightarrow>
     (\<exists>mf pf. get_gas_fees gs profit = Ok (mf, pf) \<and>
        tx = \<lparr>tx_to = ts_contract st, tx_nonce = ts_nonce st, tx_gas_limit = 2000000,
              tx_chain_id = 8453, tx_max_fee = mf, tx_priority_fee = pf, tx_type = 2,
              tx_input = Execute_arbitrage (to_flash_swap params)\<rparr>)"
  by (auto simp: build_transaction_def rbind_eq_Inr Let_def)

text \<open>The transaction that an event and a nonce determine.\<close>

definition transaction_of ::
  "address \<Rightarrow> event \<Rightarrow> gas_station \<Rightarrow> u64 \<Rightarrow> transaction_request \<Rightarrow> bool"
where
  "transaction_of contract ev gs n tx \<longleftrightarrow>
     (\<exists>params profit bn mf pf. ev = ValidPath params profit bn
        \<and> get_gas_fees gs profit = Ok (mf, pf)
        \<and> tx = \<lparr>tx_to = contract, tx_nonce = n, tx_gas_limit = 2000000, tx_chain_id = 8453,
                tx_max_fee = mf, tx_priority_fee = pf, tx_type = 2,
                tx_input = Execute_arbitrage \<lparr>fs_pools = pr_pools params,
                  fs_versions = pr_versions params, fs_amount_in = pr_amount_in params\<rparr>\<rparr>)"

definition is_valid_path :: "event \<Rightarrow> bool" where
  "is_valid_path ev = (case ev of ValidPath params profit bn \<Rightarrow> True | _ \<Rightarrow> False)"

lemma send_transactions_run:
  "send_transactions sq evs st = Ok (st', sent) \<Longrightarrow>
     length sent = length (takeWhile (\<lambda>e. is_valid_path (fst e)) evs)
     \<and> ts_nonce st' = ts_nonce st + of_nat (length sent) \<and> ts_contract st' = ts_contract st
     \<and> (\<forall>i < length sent. transaction_of (ts_contract st) (fst (evs ! i)) (snd (evs ! i))
          (ts_nonce st + of_nat i) (fst (sent ! i)))"
proof (induction sq evs st arbitrary: sent rule: send_transactions.induct)
  case (1 sq st)
  then show ?case by simp
next
  case (2 sq ev gs evs st)
  show ?case
  proof (cases ev)
    case (ValidPath params profit bn)
    with 2(2) obtain st1 tx h more where run:
      "send_transaction sq gs params profit st = Ok (st1, (tx, h))"
      "send_transactions sq evs st1 = Ok (st', more)" "sent = (tx, h) # more"
      by (auto simp: rbind_eq_Inr)
    note one = send_transaction_cases [OF run(1)]
    from 2(1) [OF ValidPath run(1) refl run(2)] have ih:
      "length more = length (takeWhile (\<lambda>e. is_valid_path (fst e)) evs)"
      "ts_nonce st' = ts_nonce st1 + of_nat (length more)" "ts_contract st' = ts_contract st1"
      "\<And>i. i < length more \<Longrightarrow> transaction_of (ts_contract st1) (fst (evs ! i)) (snd (evs ! i))
          (ts_nonce st1 + of_nat i) (fst (more ! i))" by auto
    have "transaction_of (ts_contract st) ev gs (ts_nonce st) tx"
      using one by (auto simp: build_transaction_cases transaction_of_def ValidPath to_flash_swap_def)
    then have "transaction_of (ts_contract st) (fst (((ev, gs) # evs) ! i)) (snd (((ev, gs) # evs) ! i))
          (ts_nonce st + of_nat i) (fst (sent ! i))" if "i < length sent" for i
      using that ih(4) one run(3) by (cases i) (auto simp: add.assoc)
    with ih(1,2,3) one run(3) show ?thesis
      by (auto simp: is_valid_path_def ValidPath add.assoc)
  qed (use 2(2) in \<open>auto simp: is_valid_path_def\<close>)
qed

text \<open>
  C32: The sender turns the leading run of \<open>ValidPath\<close> events into transactions one for one: the
  \<open>i\<close>-th carries the parameters and fees of the \<open>i\<close>-th event and the start nonce plus \<open>i\<close>,
  whatever the sequencer answered to the ones before. A refused transaction thus leaves a
  gap in the nonces.
\<close>

theorem send_transactions_nonces:
  assumes "send_transactions sq evs st = Ok (st', sent)"
  shows "length sent = length (takeWhile (\<lambda>e. is_valid_path (fst e)) evs)
     \<and> ts_nonce st' = ts_nonce st + of_nat (length sent)
     \<and> (\<forall>i < length sent. transaction_of (ts_contract st) (fst (evs ! i)) (snd (evs ! i))
          (ts_nonce st + of_nat i) (fst (sent ! i)))"
  using send_transactions_run [OF assms] by blast

text \<open>
  The priority fee is sized for 350,000 units of gas, but the limit of the transaction is
  2,000,000: from a profit of 700,000 on, a transaction that uses its gas limit pays more in
  priority fees than the whole profit.
\<close>

theorem gas_limit_exceeds_profit:
  assumes "build_transaction gs st params profit = Ok tx" and "700000 \<le> unat profit"
  shows "unat profit < unat (tx_priority_fee tx) * unat (tx_gas_limit tx)"
proof -
  from assms(1) have p: "unat profit < 2 ^ 129" "tx_gas_limit tx = 2000000"
    "tx_priority_fee tx = ucast (profit div 2) div 350000"
    by (auto simp: build_transaction_cases get_gas_fees_value split: if_splits)
  have "n < n div 700000 * (2000000 :: nat)" if "700000 \<le> n" for n
  proof -
    have "n < 700000 * (n div 700000 + 1)" using dividend_less_times_div [of 700000 n] by simp
    moreover have "1 \<le> n div 700000" using div_le_mono [OF that, of 700000] by simp
    ultimately show ?thesis by linarith
  qed
  with assms(2) show ?thesis unfolding p(2,3) priority_fee_value [OF p(1)] by simp
qed

lemma monitor_from_eq:
  assumes "k \<le> 10" and "\<forall>i. n \<le> i \<and> i < k \<longrightarrow> (\<forall>b. receipt i \<noteq> Receipt b)" and "n \<le> k"
  shows "monitor_from receipt n =
     (if k = 10 then Gave_up 10 else monitor_from receipt k)"
  using assms
proof (induction "k - n" arbitrary: n)
  case 0
  then have "n = k" by simp
  then show ?case by (simp add: monitor_from.simps)
next
  case (Suc d)
  then have nk: "n < k" by simp
  with Suc.prems(2) have "\<forall>b. receipt n \<noteq> Receipt b" by simp
  then have "monitor_from receipt n = monitor_from receipt (n + 1)"
    using nk Suc.prems(1) by (subst monitor_from.simps) (auto split: receipt_answer.split)
  with Suc.hyps(1) [of "n + 1"] Suc.hyps(2) Suc.prems nk show ?case by auto
qed

text \<open>
  The monitoring ends after at most ten requests: at the first receipt, with its block, or
  after ten answers without one.
\<close>

theorem send_and_monitor_bounded:
  "(\<exists>k block. k < 10 \<and> receipt k = Receipt block \<and> (\<forall>i < k. \<forall>b. receipt i \<noteq> Receipt b)
      \<and> send_and_monitor receipt = Landed (case block of Some n \<Rightarrow> n | None \<Rightarrow> 0) (k + 1))
   \<or> (\<forall>i < 10. \<forall>b. receipt i \<noteq> Receipt b) \<and> send_and_monitor receipt = Gave_up 10"
proof (cases "\<exists>k < 10. \<exists>b. receipt k = Receipt b")
  case True
  define k where "k = (LEAST k. k < 10 \<and> (\<exists>b. receipt k = Receipt b))"
  from True have k: "k < 10" "\<exists>b. receipt k = Receipt b"
    using LeastI_ex [of "\<lambda>k. k < 10 \<and> (\<exists>b. receipt k = Receipt b)"] by (auto simp: k_def)
  have least: "\<forall>b. receipt i \<noteq> Receipt b" if "i < k" for i
    using not_less_Least [of i "\<lambda>k. k < 10 \<and> (\<exists>b. receipt k = Receipt b)"] that k(1)
    by (auto simp: k_def)
  from k(2) obtain b where b: "receipt k = Receipt b" by blast
  have "send_and_monitor receipt = monitor_from receipt k"
    using monitor_from_eq [of k 0 receipt] k(1) least by (simp add: send_and_monitor_def)
  also have "\<dots> = Landed (case b of Some n \<Rightarrow> n | None \<Rightarrow> 0) (k + 1)"
    using k(1) b by (subst monitor_from.simps) simp
  finally show ?thesis using k(1) b least by blast
next
  case False
  then show ?thesis using monitor_from_eq [of 10 0 receipt] by (auto simp: send_and_monitor_def)
qed

text \<open>Two paths with a sequencer that refuses everything: nonces 7 and 8.\<close>

definition ex_sequencer :: sequencer where
  "ex_sequencer = \<lparr>sq_sign = (\<lambda>tx. Ok []), sq_post = (\<lambda>raw. Some None), sq_parse_hash = (\<lambda>s. None)\<rparr>"

definition ex_params :: swap_params where
  "ex_params = \<lparr>pr_pools = [77], pr_versions = [0], pr_amount_in = AMOUNT\<rparr>"

lemma ex_sent:
  "\<exists>tx tx'. send_transactions ex_sequencer
       [(ValidPath ex_params 10900000000000 5, gas_station_new), (ValidPath ex_params 0 6, gas_station_new)]
       \<lparr>ts_contract = 99, ts_nonce = 7\<rparr> =
     Ok (\<lparr>ts_contract = 99, ts_nonce = 9\<rparr>, [(tx, None), (tx', None)])"
  by (simp add: send_transaction_def build_transaction_def get_gas_fees_def ex_sequencer_def Let_def
      unat_div_exact)

theorem send_transactions_nonces_witness:
  "\<exists>tx. transaction_of 99 (ValidPath ex_params 0 6) gas_station_new 8 tx"
proof -
  from ex_sent obtain tx tx' where run: "send_transactions ex_sequencer
       [(ValidPath ex_params 10900000000000 5, gas_station_new), (ValidPath ex_params 0 6, gas_station_new)]
       \<lparr>ts_contract = 99, ts_nonce = 7\<rparr> =
     Ok (\<lparr>ts_contract = 99, ts_nonce = 9\<rparr>, [(tx, None), (tx', None)])" by blast
  note sent = conjunct2 [OF conjunct2 [OF send_transactions_nonces [OF run]]]
  from spec [OF sent, of 1] show ?thesis by auto
qed

theorem gas_limit_exceeds_profit_witness:
  "\<exists>tx. build_transaction gas_station_new \<lparr>ts_contract = 99, ts_nonce = 7\<rparr> ex_params 10900000000000 = Ok tx
     \<and> 10900000000000 < unat (tx_priority_fee tx) * unat (tx_gas_limit tx)"
proof -
  obtain tx where tx: "build_transaction gas_station_new \<lparr>ts_contract = 99, ts_nonce = 7\<rparr> ex_params
      10900000000000 = Ok tx"
    by (simp add: build_transaction_def get_gas_fees_def Let_def unat_div_exact)
  from gas_limit_exceeds_profit [OF tx] tx show ?thesis by auto
qed

end
