(* ===== verification/PoolFilter.thy ===== *)
theory PoolFilter
  imports Calculator "HOL-Library.Sublist"
begin

text \<open>
  The pool filter (\<^verbatim>\<open>src/filter.rs\<close>): the tokens with the largest volume, the balance slot of
  each token, and a trial swap of every pool there and back.

  Everything outside is a parameter: the answers of the token list service, the cache file,
  the parser of addresses, the crate \<^verbatim>\<open>node_db\<close> with the EVM on top of it (the record \<open>node\<close>
  over a state \<open>'n\<close>) and the ABI decoders. A hash set read into a vector is a list in the
  order in which it is read.
\<close>

subsection \<open>Tokens\<close>

definition BLACKLIST :: "address list" where
  "BLACKLIST = [0xbe5614875952b1683cb0a2c20e6509be46d353a4]"

definition WETH_ADDRESS :: address where
  "WETH_ADDRESS = 0x4200000000000000000000000000000000000006"

datatype tokens_response =
    Tokens "string list"
  | Bad_status
  | Bad_json

text \<open>The pages that are asked for: offset and number.\<close>

definition query_params :: "nat \<Rightarrow> (nat \<times> nat) list" where
  "query_params num_results =
     (if num_results < 50 then [(0, num_results)]
      else map (\<lambda>i. (50 * i, 50)) [0..<(num_results + 49) div 50])"

definition fetch_page ::
  "(nat \<times> nat \<Rightarrow> tokens_response option) \<Rightarrow> nat \<times> nat \<Rightarrow> string list \<Rightarrow> string list res"
where
  "fetch_page get page addresses =
     (case get page of
        None \<Rightarrow> panic Unwrap_err
      | Some (Tokens results) \<Rightarrow> Ok (addresses @ results)
      | Some Bad_status \<Rightarrow> Ok addresses
      | Some Bad_json \<Rightarrow> panic Unwrap_err)"

definition fetch_top_volume_tokens ::
  "(nat \<times> nat \<Rightarrow> tokens_response option) \<Rightarrow> (string \<Rightarrow> address option) \<Rightarrow> nat \<Rightarrow>
     address list res"
where
  "fetch_top_volume_tokens get parse num_results =
     rbind (rfold (fetch_page get) (query_params num_results) []) (\<lambda>addresses.
       rfold (\<lambda>s addrs. case parse s of Some a \<Rightarrow> Ok (addrs @ [a]) | None \<Rightarrow> panic Unwrap_err)
         addresses [])"

text \<open>Where the tokens come from: the cache file (\<open>None\<close> when there is none, otherwise what
  reading it gives), whether it can be written, the service, and the parser of addresses.\<close>

record token_source =
  tk_cache_file :: "address list res option"
  tk_writable :: bool
  tk_get :: "nat \<times> nat \<Rightarrow> tokens_response option"
  tk_parse :: "string \<Rightarrow> address option"

definition get_top_volume_tokens :: "token_source \<Rightarrow> nat \<Rightarrow> address list res" where
  "get_top_volume_tokens TS num_results =
     (case tk_cache_file TS of
        Some read \<Rightarrow> read
      | None \<Rightarrow>
          rbind (fetch_top_volume_tokens (tk_get TS) (tk_parse TS) num_results)
            (\<lambda>top_volume_tokens.
            if tk_writable TS then Ok top_volume_tokens else panic Unwrap_err))"

definition token_match :: "address list \<Rightarrow> pool \<Rightarrow> bool" where
  "token_match tops p \<longleftrightarrow>
     pl_token0 p \<in> set tops \<and> pl_token1 p \<in> set tops
     \<and> pl_token0 p \<notin> set BLACKLIST \<and> pl_token1 p \<notin> set BLACKLIST"

subsection \<open>Routers\<close>

datatype swap_type = V2Basic | V2Aerodrome | V3Basic | V3Deadline | V3DeadlineTick

definition router_of :: "pool_type \<Rightarrow> (address \<times> swap_type) res" where
  "router_of ty =
     (case ty of
        UniswapV2 \<Rightarrow> Ok (0x4752ba5dbc23f44d87826276bf6fd6b1c372ad24, V2Basic)
      | SushiSwapV2 \<Rightarrow> Ok (0x6BDED42c6DA8FBf0d2bA55B2fa120C5e0c8D7891, V2Basic)
      | PancakeSwapV2 \<Rightarrow> Ok (0x8cFe327CEc66d1C090Dd72bd0FF11d690C33a2Eb, V2Basic)
      | BaseSwapV2 \<Rightarrow> Ok (0x327Df1E6de05895d2ab08513aaDD9313Fe505d86, V2Basic)
      | SwapBasedV2 \<Rightarrow> Ok (0xaaa3b1F1bd7BCc97fD1917c18ADE665C5D31F066, V2Basic)
      | DackieSwapV2 \<Rightarrow> Ok (0xCa4EAa32E7081b0c4Ba47e2bDF9B7163907Fe56f, V2Basic)
      | AlienBaseV2 \<Rightarrow> Ok (0x8c1A3cF8f83074169FE5D7aD50B978e1cD6b37c7, V2Basic)
      | UniswapV3 \<Rightarrow> Ok (0x2626664c2603336E57B271c5C0b26F421741e481, V3Basic)
      | AlienBaseV3 \<Rightarrow> Ok (0xB20C411FC84FBB27e78608C24d0056D974ea9411, V3Basic)
      | DackieSwapV3 \<Rightarrow> Ok (0x195FBc5B8Fbd5Ac739C1BA57D4Ef6D5a704F34f7, V3Basic)
      | PancakeSwapV3 \<Rightarrow> Ok (0x678Aa4bF4E210cf2166753e054d5b7c31cc7fa86, V3Basic)
      | SushiSwapV3 \<Rightarrow> Ok (0xFB7eF66a7e61224DD6FcD0D7d9C3be5C8B049b9f, V3Deadline)
      | SwapBasedV3 \<Rightarrow> Ok (0x756C6BbDd915202adac7beBB1c6C89aC0886503f, V3Deadline)
      | BaseSwapV3 \<Rightarrow> Ok (0x1B8eea9315bE495187D873DA7773a874545D9D48, V3Deadline)
      | Aerodrome \<Rightarrow> Ok (0xcF77a3Ba9A5CA399B7c97c74d54e5b1Beb874E43, V2Aerodrome)
      | Slipstream \<Rightarrow> Ok (0xBE6D8f0d05cC4be24d5167a3eF062215bE6D18a5, V3DeadlineTick)
      | _ \<Rightarrow> panic (Explicit_panic ''will not reach here''))"

text \<open>The swap functions of the routers (\<^verbatim>\<open>gen_.rs\<close>), one record for the arguments of each.\<close>

record v2_swap_call =
  vs_amount_in :: u256
  vs_amount_out_min :: u256
  vs_path :: "address list"
  vs_to :: address
  vs_deadline :: u256

record v3_swap_params =
  vb_token_in :: address
  vb_token_out :: address
  vb_fee :: "24 word"
  vb_recipient :: address
  vb_amount_in :: u256
  vb_amount_out_minimum :: u256
  vb_sqrt_price_limit :: u160

record v3_deadline_params =
  vd_token_in :: address
  vd_token_out :: address
  vd_fee :: "24 word"
  vd_recipient :: address
  vd_deadline :: u256
  vd_amount_in :: u256
  vd_amount_out_minimum :: u256
  vd_sqrt_price_limit :: u160

record aero_route =
  ro_from :: address
  ro_to :: address
  ro_stable :: bool
  ro_factory :: address

record v2_aerodrome_call =
  va_amount_in :: u256
  va_amount_out_min :: u256
  va_routes :: "aero_route list"
  va_to :: address
  va_deadline :: u256

record v3_tick_params =
  vt_token_in :: address
  vt_token_out :: address
  vt_tick_spacing :: "24 word"
  vt_recipient :: address
  vt_deadline :: u256
  vt_amount_in :: u256
  vt_amount_out_minimum :: u256
  vt_sqrt_price_limit :: u160

datatype router_call =
    V2_swap v2_swap_call
  | V3_swap v3_swap_params
  | V3_swap_deadline v3_deadline_params
  | V2_aerodrome_swap v2_aerodrome_call
  | V3_swap_deadline_tick v3_tick_params

text \<open>\<open>i32\<close> to \<open>I24\<close>\<close>

definition to_signed24 :: "i32 \<Rightarrow> 24 word res" where
  "to_signed24 x =
     (if - (2 ^ 23) \<le> sint x \<and> sint x < 2 ^ 23 then Ok (ucast x) else panic Unwrap_err)"

definition to_unsigned24 :: "u32 \<Rightarrow> 24 word res" where
  "to_unsigned24 x = (if unat x < 2 ^ 24 then Ok (ucast x) else panic Unwrap_err)"

definition setup_router_calldata ::
  "pool \<Rightarrow> address \<Rightarrow> u256 \<Rightarrow> swap_type \<Rightarrow> bool \<Rightarrow> (router_call \<times> bool) res"
where
  "setup_router_calldata p account amt swap_type zto =
     (let (token0, token1) =
        (if zto then (pl_token0 p, pl_token1 p) else (pl_token1 p, pl_token0 p))
      in case swap_type of
           V2Basic \<Rightarrow>
             Ok (V2_swap \<lparr>vs_amount_in = amt, vs_amount_out_min = 0, vs_path = [token0, token1],
                   vs_to = account, vs_deadline = - 1\<rparr>, True)
         | V3Basic \<Rightarrow>
             rbind (unwrap_opt (pl_v3 p)) (\<lambda>v3.
             rbind (to_unsigned24 (v3_fee v3)) (\<lambda>fee.
               Ok (V3_swap \<lparr>vb_token_in = token0, vb_token_out = token1, vb_fee = fee,
                     vb_recipient = account, vb_amount_in = amt, vb_amount_out_minimum = 0,
                     vb_sqrt_price_limit = 0\<rparr>, False)))
         | V3Deadline \<Rightarrow>
             rbind (unwrap_opt (pl_v3 p)) (\<lambda>v3.
             rbind (to_unsigned24 (v3_fee v3)) (\<lambda>fee.
               Ok (V3_swap_deadline \<lparr>vd_token_in = token0, vd_token_out = token1, vd_fee = fee,
                     vd_recipient = account, vd_deadline = - 1, vd_amount_in = amt,
                     vd_amount_out_minimum = 0, vd_sqrt_price_limit = 0\<rparr>, False)))
         | V2Aerodrome \<Rightarrow>
             rbind (unwrap_opt (pl_v2 p)) (\<lambda>v2.
             rbind (unwrap_opt (v2_stable v2)) (\<lambda>is_stable.
             let route = [\<lparr>ro_from = token0, ro_to = token1, ro_stable = is_stable, ro_factory = 0\<rparr>]
             in Ok (V2_aerodrome_swap \<lparr>va_amount_in = amt, va_amount_out_min = 0, va_routes = route,
                      va_to = account, va_deadline = - 1\<rparr>, True)))
         | V3DeadlineTick \<Rightarrow>
             rbind (unwrap_opt (pl_v3 p)) (\<lambda>v3.
             rbind (to_signed24 (v3_tick_spacing v3)) (\<lambda>spacing.
               Ok (V3_swap_deadline_tick \<lparr>vt_token_in = token0, vt_token_out = token1,
                     vt_tick_spacing = spacing, vt_recipient = account, vt_deadline = - 1,
                     vt_amount_in = amt, vt_amount_out_minimum = 0, vt_sqrt_price_limit = 0\<rparr>, False))))"

record decoders =
  de_vec :: "u8 list \<Rightarrow> u256 list option"
  de_one :: "u8 list \<Rightarrow> u256 option"
  de_pair :: "u8 list \<Rightarrow> (u256 \<times> u256) option"

definition decode_swap_return :: "decoders \<Rightarrow> u8 list \<Rightarrow> bool \<Rightarrow> u256 res" where
  "decode_swap_return D output vec_ret =
     (if vec_ret then
        (case de_vec D output of
           None \<Rightarrow> panic Unwrap_err
         | Some decoded_amount \<Rightarrow>
             if decoded_amount = [] then panic Unwrap_none else Ok (last decoded_amount))
      else
        (case de_one D output of
           Some amount \<Rightarrow> Ok amount
         | None \<Rightarrow>
             (case de_pair D output of
                None \<Rightarrow> panic Unwrap_err
              | Some decoded_tuple \<Rightarrow> Ok (fst decoded_tuple))))"

subsection \<open>The trial swap\<close>

datatype node_call =
    Approve_call address u256
  | Router_call router_call

text \<open>The node database: insertion of a slot, a committed call, a call whose effects are
  dropped; both calls take the target.\<close>

record 'n node =
  nd_insert_slot :: "'n \<Rightarrow> address \<Rightarrow> b256 \<Rightarrow> u256 \<Rightarrow> 'n res"
  nd_commit :: "'n \<Rightarrow> address \<Rightarrow> node_call \<Rightarrow> 'n res"
  nd_transact :: "'n \<Rightarrow> address \<Rightarrow> node_call \<Rightarrow> exec_result res"

definition filter_account :: address where
  "filter_account = 1"

text \<open>\<open>U256::from(1e70)\<close>: the double nearest to it, exactly.\<close>

definition lots_of_tokens :: u256 where
  "lots_of_tokens = 10000000000000000725314363815292351261583744096465219555182101554790400"

definition first_direction :: "pool \<Rightarrow> bool" where
  "first_direction p =
     (let is_weth_pool = (pl_token0 p = WETH_ADDRESS \<or> pl_token1 p = WETH_ADDRESS)
      in if is_weth_pool then pl_token0 p = WETH_ADDRESS else True)"

text \<open>One swap: \<open>None\<close> is the \<open>continue\<close> after a failed call.\<close>

definition try_swap ::
  "'n node \<Rightarrow> decoders \<Rightarrow> 'n \<Rightarrow> pool \<Rightarrow> address \<Rightarrow> swap_type \<Rightarrow> u256 \<Rightarrow> bool \<Rightarrow> u256 option res"
where
  "try_swap N D nodedb p router_address swap_type amt zto =
     rbind (setup_router_calldata p filter_account amt swap_type zto)
       (\<lambda>(swap_calldata, vec_ret).
     rbind (unwrap_res (nd_transact N nodedb router_address (Router_call swap_calldata))) (\<lambda>result.
       case result of
         Success output \<Rightarrow> rbind (decode_swap_return D output vec_ret) (\<lambda>amt. Ok (Some amt))
       | _ \<Rightarrow> Ok None))"

definition lower_bound :: u256 where
  "lower_bound = (AMOUNT * 95) div 100"

text \<open>One pool: the database afterwards and whether the pool is kept.\<close>

definition filter_pool ::
  "'n node \<Rightarrow> decoders \<Rightarrow> (address \<Rightarrow> b256 option) \<Rightarrow> pool \<Rightarrow> 'n \<Rightarrow> ('n \<times> bool) res"
where
  "filter_pool N D slot_map p nodedb =
     rbind (router_of (pl_type p)) (\<lambda>(router_address, swap_type).
     let zto = first_direction p
     in case slot_map (pl_token0 p) of
          None \<Rightarrow> Ok (nodedb, False)
        | Some t0_slot \<Rightarrow>
        (case slot_map (pl_token1 p) of
          None \<Rightarrow> Ok (nodedb, False)
        | Some t1_slot \<Rightarrow>
        rbind (unwrap_res (nd_insert_slot N nodedb (pl_token0 p) t0_slot lots_of_tokens)) (\<lambda>nodedb.
        rbind (unwrap_res (nd_insert_slot N nodedb (pl_token1 p) t1_slot lots_of_tokens)) (\<lambda>nodedb.
        let approve = Approve_call router_address lots_of_tokens
        in rbind (unwrap_res (nd_commit N nodedb (pl_token0 p) approve)) (\<lambda>nodedb.
        rbind (unwrap_res (nd_commit N nodedb (pl_token1 p) approve)) (\<lambda>nodedb.
        rbind (try_swap N D nodedb p router_address swap_type AMOUNT zto) (\<lambda>first.
        case first of
          None \<Rightarrow> Ok (nodedb, False)
        | Some amt \<Rightarrow>
            rbind (try_swap N D nodedb p router_address swap_type amt (\<not> zto)) (\<lambda>second.
            case second of
              None \<Rightarrow> Ok (nodedb, False)
            | Some amt \<Rightarrow> Ok (nodedb, lower_bound \<le> amt)))))))))"

definition filter_by_swap ::
  "'n node \<Rightarrow> decoders \<Rightarrow> (address \<Rightarrow> b256 option) \<Rightarrow> 'n \<Rightarrow> pool list \<Rightarrow> pool list res"
where
  "filter_by_swap N D slot_map nodedb pools =
     rbind (rfold (\<lambda>p (nodedb, kept). rbind (filter_pool N D slot_map p nodedb)
              (\<lambda>(nodedb, ok). Ok (nodedb, if ok then kept @ [p] else kept)))
            pools (nodedb, []))
       (\<lambda>(nodedb, kept). Ok kept)"

subsection \<open>Balance slots\<close>

definition known_slots :: "b256 list" where
  "known_slots =
     [0xbbc70db1b6c7afd11e79c0fb0051300458f1a3acb8ee9789d9b6b26c61ad9bc7,
      0x3b19ce585aeabdba87215c3de2f24f560a092ab3ca77d32c61679d43ab8fcc47,
      0x8ba0ed1f62da1d3048614c2c1feb566f041c8467eb00fb8294776a9179dc1643,
      0xad67d757c34507f157cacfa2e3153e9f260a2244f30428821be7be64587ac55f,
      0x1471eb6eb2c5e789fc3de43f8ce62938c7d1836ec861730447e2ada8fd81017b,
      0xa3f0ad74e5423aebfd80d3ef4346578335a9a72aeaee59ff6cb3582b35133d50,
      0x10f6f77027d502f219862b0303542eb5dd005b06fa23ff4d1775aaa45bbf9477,
      0xcc69885fda6bcc1a4ace058b4a62bf5e179ea78fd58a1ccd71c22cc9b688792f]"

definition implementation_slot :: b256 where
  "implementation_slot = 0x360894a13ba1a3210667c828492db98dca3e2076cc3735a920a3ca505d382bbc"

text \<open>The slot of one token from its access list: the items in order, the slot found so far.\<close>

fun slot_from_items ::
  "address \<Rightarrow> (address \<times> b256 list) list \<Rightarrow> b256 option \<Rightarrow> b256 option"
where
  "slot_from_items token [] slot = slot"
| "slot_from_items token ((addr, keys) # items) slot =
     (if addr = token then
        (if length keys = 1 \<and> implementation_slot \<notin> set keys then Some (keys ! 0)
         else
           (let slot = (case find (\<lambda>k. k \<in> set keys) known_slots of
                          Some known_slot \<Rightarrow> Some known_slot
                        | None \<Rightarrow> slot);
                slot = (case slot of
                          Some s \<Rightarrow> Some s
                        | None \<Rightarrow> find (\<lambda>k. k \<noteq> implementation_slot) keys)
            in slot_from_items token items slot))
      else slot_from_items token items slot)"

definition construct_slot_map ::
  "(address \<Rightarrow> (address \<times> b256 list) list) \<Rightarrow> address list \<Rightarrow> address \<Rightarrow> b256 option"
where
  "construct_slot_map access_list tokens =
     fold (\<lambda>token slot_map. case slot_from_items token (access_list token) (slot_map token) of
             Some s \<Rightarrow> slot_map(token \<mapsto> s)
           | None \<Rightarrow> slot_map) tokens Map.empty"

definition pool_token_list :: "(address list \<Rightarrow> address list) \<Rightarrow> pool list \<Rightarrow> address list" where
  "pool_token_list order pools = order (concat (map (\<lambda>p. [pl_token0 p, pl_token1 p]) pools))"

subsection \<open>The filter\<close>

definition filter_pools ::
  "token_source \<Rightarrow> (address list \<Rightarrow> address list) \<Rightarrow>
     (address \<Rightarrow> (address \<times> b256 list) list) \<Rightarrow> 'n node \<Rightarrow> decoders \<Rightarrow> 'n \<Rightarrow> pool list \<Rightarrow> nat \<Rightarrow>
     pool list res"
where
  "filter_pools TS order access_list N D nodedb pools num_results =
     rbind (unwrap_res (get_top_volume_tokens TS num_results)) (\<lambda>tops.
     let pools = filter (token_match tops) pools;
         slot_map = construct_slot_map access_list (pool_token_list order pools)
     in filter_by_swap N D slot_map nodedb pools)"

text \<open>The pool types that \<^verbatim>\<open>main\<close> synchronises.\<close>

definition synced_types :: "pool_type list" where
  "synced_types =
     [UniswapV2, PancakeSwapV2, SushiSwapV2, UniswapV3, SushiSwapV3, BaseSwapV2, BaseSwapV3,
      Aerodrome, Slipstream, AlienBaseV2, AlienBaseV3]"

subsection \<open>Properties\<close>

text \<open>
  The pages that are asked of the token service are consecutive and without overlap: together
  they are the first \<open>num_results\<close> positions, rounded up to whole pages of 50 from 50 on.
\<close>

theorem query_params_pages:
  "\<exists>m. concat (map (\<lambda>(offset, n). [offset..<offset + n]) (query_params num_results)) = [0..<m]
     \<and> num_results \<le> m \<and> m < num_results + 50 \<and> (num_results < 50 \<longrightarrow> m = num_results)"
proof (cases "num_results < 50")
  case True
  then show ?thesis by (intro exI [of _ num_results]) (simp add: query_params_def)
next
  case False
  have pages: "concat (map (\<lambda>(offset, n). [offset..<offset + n]) (map (\<lambda>i. (50 * i, 50)) [0..<k])) =
      [0..<50 * k]" for k
  proof (induction k)
    case (Suc k)
    have "[0..<50 * k + 50] = [0..<50 * k] @ [50 * k..<50 * k + 50]"
      using upt_add_eq_append [of 0 "50 * k" 50] by simp
    with Suc show ?case by (simp add: add.commute)
  qed simp
  have "num_results \<le> 50 * ((num_results + 49) div 50)"
    "50 * ((num_results + 49) div 50) < num_results + 50" by linarith+
  with False pages [of "(num_results + 49) div 50"] show ?thesis
    by (intro exI [of _ "50 * ((num_results + 49) div 50)"]) (simp add: query_params_def)
qed

text \<open>Every other pool type stops the filter with a panic, before its slots are looked up.\<close>

lemma router_of_panics:
  "(\<exists>r. router_of ty = Ok r) \<longleftrightarrow>
     ty \<notin> {MaverickV1, MaverickV2, BalancerV2, CurveTwoCrypto, CurveTriCrypto}"
  by (cases ty) (simp_all add: router_of_def)

text \<open>
  The router table covers every pool type that \<^verbatim>\<open>main\<close> synchronises. A pool of any of the
  five types without a router that passes the token filter makes the whole filter panic.
\<close>

theorem filter_router_panics:
  "(\<forall>ty \<in> set synced_types. \<exists>r. router_of ty = Ok r)
   \<and> filter_pool N D slot_map (p\<lparr>pl_type := BalancerV2\<rparr>) nodedb =
       panic (Explicit_panic ''will not reach here'')
   \<and> filter_pool N D slot_map (p\<lparr>pl_type := CurveTriCrypto\<rparr>) nodedb =
       panic (Explicit_panic ''will not reach here'')
   \<and> filter_pool N D slot_map (p\<lparr>pl_type := CurveTwoCrypto\<rparr>) nodedb =
       panic (Explicit_panic ''will not reach here'')
   \<and> filter_pool N D slot_map (p\<lparr>pl_type := MaverickV1\<rparr>) nodedb =
       panic (Explicit_panic ''will not reach here'')
   \<and> filter_pool N D slot_map (p\<lparr>pl_type := MaverickV2\<rparr>) nodedb =
       panic (Explicit_panic ''will not reach here'')"
  by (simp add: router_of_panics synced_types_def filter_pool_def) (simp add: router_of_def)

text \<open>The slots that are found.\<close>

lemma known_not_implementation: "implementation_slot \<notin> set known_slots"
  by (simp add: implementation_slot_def known_slots_def)

lemma find_known_slot: "find P known_slots = Some k \<Longrightarrow> P k \<and> k \<noteq> implementation_slot"
  using known_not_implementation by (auto simp: find_Some_iff in_set_conv_nth)

lemma slot_from_items_good:
  assumes "slot_from_items token items slot = Some s"
    and "\<forall>s0. slot = Some s0 \<longrightarrow> good s0"
    and "\<forall>keys k. (token, keys) \<in> set items \<longrightarrow> k \<in> set keys \<longrightarrow> k \<noteq> implementation_slot \<longrightarrow> good k"
  shows "good s"
  using assms
proof (induction token items slot rule: slot_from_items.induct)
  case (1 token slot)
  then show ?case by simp
next
  case (2 token addr keys items slot)
  show ?case
  proof (cases "addr = token")
    case False
    with 2 show ?thesis by auto
  next
    case True
    with "2.prems"(3) have key: "good k" if "k \<in> set keys" "k \<noteq> implementation_slot" for k
      using that by auto
    show ?thesis
    proof (cases "length keys = 1 \<and> implementation_slot \<notin> set keys")
      case one: True
      then have k: "keys ! 0 \<in> set keys" by (intro nth_mem) simp
      with one have "keys ! 0 \<noteq> implementation_slot" by metis
      with k have "good (keys ! 0)" by (rule key)
      with one "2.prems"(1) True show ?thesis by simp
    next
      case several: False
      let ?s1 = "case find (\<lambda>k. k \<in> set keys) known_slots of Some k \<Rightarrow> Some k | None \<Rightarrow> slot"
      let ?s2 = "case ?s1 of Some s \<Rightarrow> Some s | None \<Rightarrow> find (\<lambda>k. k \<noteq> implementation_slot) keys"
      have s1: "\<forall>s0. ?s1 = Some s0 \<longrightarrow> good s0"
        using "2.prems"(2) key find_known_slot by (auto split: option.splits)
      have "good s0" if "find (\<lambda>k. k \<noteq> implementation_slot) keys = Some s0" for s0
        using that key by (auto simp: find_Some_iff)
      with s1 have s2: "\<forall>s0. ?s2 = Some s0 \<longrightarrow> good s0" by (auto split: option.splits)
      have "slot_from_items token ((addr, keys) # items) slot = slot_from_items token items ?s2"
        unfolding slot_from_items.simps if_P [OF True] if_not_P [OF several] Let_def by (rule refl)
      with "2.prems"(1) have "slot_from_items token items ?s2 = Some s" by simp
      with 2(1) [OF True several refl refl] s2 "2.prems"(3) show ?thesis by auto
    qed
  qed
qed

lemma slot_from_items_None:
  "slot_from_items token items slot = None \<longleftrightarrow>
     slot = None \<and> (\<forall>keys k. (token, keys) \<in> set items \<longrightarrow> k \<in> set keys \<longrightarrow> k = implementation_slot)"
proof (induction token items slot rule: slot_from_items.induct)
  case (2 token addr keys items slot)
  show ?case
  proof (cases "addr = token")
    case False
    with "2.IH" show ?thesis by auto
  next
    case True
    show ?thesis
    proof (cases "length keys = 1 \<and> implementation_slot \<notin> set keys")
      case one: True
      then have "keys ! 0 \<in> set keys" by (intro nth_mem) simp
      with one have "\<exists>k \<in> set keys. k \<noteq> implementation_slot" by metis
      with one True show ?thesis by auto
    next
      case several: False
      let ?s1 = "case find (\<lambda>k. k \<in> set keys) known_slots of Some k \<Rightarrow> Some k | None \<Rightarrow> slot"
      let ?s2 = "case ?s1 of Some s \<Rightarrow> Some s | None \<Rightarrow> find (\<lambda>k. k \<noteq> implementation_slot) keys"
      have "?s2 = None \<longleftrightarrow> slot = None \<and> (\<forall>k \<in> set keys. k = implementation_slot)"
      proof (cases "find (\<lambda>k. k \<in> set keys) known_slots")
        case None
        show ?thesis unfolding None option.case by (cases slot) (auto simp: find_None_iff)
      next
        case (Some k)
        with find_known_slot [OF Some] show ?thesis by auto
      qed
      with 2(1) [OF True several refl refl] True several show ?thesis
        by (auto simp: Let_def)
    qed
  qed
qed simp

definition add_slot ::
  "(address \<Rightarrow> (address \<times> b256 list) list) \<Rightarrow> address \<Rightarrow> (address \<Rightarrow> b256 option) \<Rightarrow>
     address \<Rightarrow> b256 option"
where
  "add_slot access_list token slot_map =
     (case slot_from_items token (access_list token) (slot_map token) of
        Some s \<Rightarrow> slot_map(token \<mapsto> s)
      | None \<Rightarrow> slot_map)"

lemma construct_slot_map_add: "construct_slot_map al tokens = fold (add_slot al) tokens Map.empty"
  by (simp add: construct_slot_map_def add_slot_def [abs_def])

definition balance_slot :: "(address \<Rightarrow> (address \<times> b256 list) list) \<Rightarrow> address \<Rightarrow> b256 \<Rightarrow> bool" where
  "balance_slot al t s \<longleftrightarrow>
     s \<noteq> implementation_slot \<and> (\<exists>keys. (t, keys) \<in> set (al t) \<and> s \<in> set keys)"

lemma add_slot_good:
  "\<forall>t s. m t = Some s \<longrightarrow> balance_slot al t s \<Longrightarrow>
     fold (add_slot al) tokens m t = Some s \<Longrightarrow> balance_slot al t s"
proof (induction tokens arbitrary: m)
  case (Cons a tokens)
  have "balance_slot al a s" if "slot_from_items a (al a) (m a) = Some s" for s
    by (rule slot_from_items_good [OF that]) (use Cons.prems(1) in \<open>auto simp: balance_slot_def\<close>)
  with Cons.prems(1) have "\<forall>t s. add_slot al a m t = Some s \<longrightarrow> balance_slot al t s"
    by (auto simp: add_slot_def split: option.splits)
  from Cons.IH [OF this] Cons.prems(2) show ?case by simp
qed simp

lemma add_slot_dom:
  "dom (fold (add_slot al) tokens m) = dom m \<union> {t \<in> set tokens. \<exists>s. balance_slot al t s}"
proof (induction tokens arbitrary: m)
  case (Cons a tokens)
  have "dom (add_slot al a m) = dom m \<union> (if \<exists>s. balance_slot al a s then {a} else {})"
    using slot_from_items_None [of a "al a" "m a"]
    by (auto simp: add_slot_def balance_slot_def split: option.splits)
  with Cons.IH [of "add_slot al a m"] show ?case by auto
qed simp

text \<open>
  \<^verbatim>\<open>construct_slot_map\<close> finds a slot for a token exactly when the access list of its
  \<open>balanceOf\<close> call has an entry of the token with a key other than the implementation slot
  of proxies, and the slot it takes is such a key.
\<close>

theorem construct_slot_map_exact:
  "(\<forall>t s. construct_slot_map al tokens t = Some s \<longrightarrow>
      t \<in> set tokens \<and> s \<noteq> implementation_slot \<and> (\<exists>keys. (t, keys) \<in> set (al t) \<and> s \<in> set keys))
   \<and> (\<forall>t. construct_slot_map al tokens t \<noteq> None \<longleftrightarrow>
      t \<in> set tokens \<and> (\<exists>keys k. (t, keys) \<in> set (al t) \<and> k \<in> set keys \<and> k \<noteq> implementation_slot))"
proof -
  have d: "dom (construct_slot_map al tokens) = {t \<in> set tokens. \<exists>s. balance_slot al t s}"
    by (simp add: construct_slot_map_add add_slot_dom)
  have g: "balance_slot al t s" if "construct_slot_map al tokens t = Some s" for t s
    using add_slot_good [of Map.empty al tokens t s] that by (simp add: construct_slot_map_add)
  have "construct_slot_map al tokens t \<noteq> None \<longleftrightarrow> t \<in> set tokens \<and> (\<exists>s. balance_slot al t s)" for t
    using d by (auto simp: dom_def)
  with g show ?thesis unfolding balance_slot_def by blast
qed

text \<open>An access list of a proxy token with two keys, of which the second is a known slot.\<close>

theorem construct_slot_map_exact_witness:
  "construct_slot_map (\<lambda>t. [(9, [1]), (t, [implementation_slot, known_slots ! 4])]) [5] 5 =
     Some (known_slots ! 4) \<and> known_slots ! 4 \<noteq> implementation_slot"
proof -
  have run: "construct_slot_map (\<lambda>t. [(9, [1]), (t, [implementation_slot, known_slots ! 4])]) [5] 5 =
      Some (known_slots ! 4)"
    by (simp add: construct_slot_map_def known_slots_def implementation_slot_def)
  with construct_slot_map_exact [of "\<lambda>t. [(9, [1]), (t, [implementation_slot, known_slots ! 4])]" "[5]"]
  show ?thesis by blast
qed

subsection \<open>What passes the filter\<close>

text \<open>The trial that a kept pool passed, on some state of the node database.\<close>

definition passed_trial :: "'n node \<Rightarrow> decoders \<Rightarrow> (address \<Rightarrow> b256 option) \<Rightarrow> pool \<Rightarrow> bool" where
  "passed_trial N D slot_map p \<longleftrightarrow>
     slot_map (pl_token0 p) \<noteq> None \<and> slot_map (pl_token1 p) \<noteq> None
     \<and> (\<exists>nodedb router swap_type out_amt back_amt.
          router_of (pl_type p) = Ok (router, swap_type)
          \<and> try_swap N D nodedb p router swap_type AMOUNT (first_direction p) = Ok (Some out_amt)
          \<and> try_swap N D nodedb p router swap_type out_amt (\<not> first_direction p) = Ok (Some back_amt)
          \<and> 950000000000000 \<le> back_amt)"

lemma lower_bound_value: "lower_bound = 950000000000000"
  by (simp add: lower_bound_def AMOUNT_def)

lemma filter_pool_passed:
  "filter_pool N D slot_map p nodedb = Ok (nodedb', True) \<Longrightarrow> passed_trial N D slot_map p"
  by (force simp: filter_pool_def passed_trial_def rbind_eq_Inr lower_bound_value Let_def
      split: option.splits)

lemma filter_fold:
  assumes "rfold (\<lambda>p (nodedb, kept). rbind (filter_pool N D slot_map p nodedb)
              (\<lambda>(nodedb, ok). Ok (nodedb, if ok then kept @ [p] else kept))) ps (nodedb, kept) =
           Ok (nodedb', kept')"
  shows "\<exists>more. kept' = kept @ more \<and> subseq more ps \<and> (\<forall>p \<in> set more. passed_trial N D slot_map p)"
  using assms
proof (induction ps arbitrary: nodedb kept)
  case (Cons p ps)
  then obtain db1 ok where one: "filter_pool N D slot_map p nodedb = Ok (db1, ok)"
    and rest: "rfold (\<lambda>p (nodedb, kept). rbind (filter_pool N D slot_map p nodedb)
              (\<lambda>(nodedb, ok). Ok (nodedb, if ok then kept @ [p] else kept))) ps
           (db1, if ok then kept @ [p] else kept) = Ok (nodedb', kept')"
    by (auto simp: rbind_eq_Inr)
  from Cons.IH [OF rest] obtain more where more: "kept' = (if ok then kept @ [p] else kept) @ more"
    "subseq more ps" "\<forall>p \<in> set more. passed_trial N D slot_map p" by blast
  show ?case
  proof (cases ok)
    case True
    with one have "filter_pool N D slot_map p nodedb = Ok (db1, True)" by simp
    then have "passed_trial N D slot_map p" by (rule filter_pool_passed)
    with more True show ?thesis by (intro exI [of _ "p # more"]) auto
  next
    case False
    with more show ?thesis by (intro exI [of _ more]) auto
  qed
qed simp

lemma filter_pools_kept:
  assumes "filter_pools TS order access_list N D nodedb pools num_results = Ok kept"
  shows "subseq kept pools
     \<and> (\<exists>ts. get_top_volume_tokens TS num_results = Ok ts \<and> (\<forall>p \<in> set kept. token_match ts p
          \<and> passed_trial N D (construct_slot_map access_list
              (pool_token_list order (filter (token_match ts) pools))) p))"
proof -
  from assms obtain ts nodedb' where ts: "get_top_volume_tokens TS num_results = Ok ts"
    and run: "rfold (\<lambda>p (nodedb, kept). rbind (filter_pool N D (construct_slot_map access_list
              (pool_token_list order (filter (token_match ts) pools))) p nodedb)
              (\<lambda>(nodedb, ok). Ok (nodedb, if ok then kept @ [p] else kept)))
           (filter (token_match ts) pools) (nodedb, []) = Ok (nodedb', kept)"
    by (auto simp: filter_pools_def filter_by_swap_def rbind_eq_Inr Let_def)
  from filter_fold [OF run] have kept: "subseq kept (filter (token_match ts) pools)"
    "\<forall>p \<in> set kept. passed_trial N D (construct_slot_map access_list
              (pool_token_list order (filter (token_match ts) pools))) p" by auto
  have "subseq (filter (token_match ts) pools) pools" by (rule subseq_filter_left)
  with kept(1) have "subseq kept pools" by (rule subseq_order.trans)
  moreover have "token_match ts p" if "p \<in> set kept" for p
    using list_emb_set [OF kept(1) that] by auto
  ultimately show ?thesis using ts kept(2) by blast
qed

text \<open>
  C35: What \<^verbatim>\<open>filter_pools\<close> keeps, in the order of its input: pools whose tokens are both among
  the top tokens and not blacklisted, with a balance slot for each, that a router served and
  that gave back at least 95 percent of \<open>AMOUNT\<close> after a swap there and one back.
\<close>

theorem filter_pools_sound:
  assumes "filter_pools TS order access_list N D nodedb pools num_results = Ok kept"
  shows "subseq kept pools
     \<and> (\<exists>ts. get_top_volume_tokens TS num_results = Ok ts \<and> (\<forall>p \<in> set kept. token_match ts p
          \<and> passed_trial N D (construct_slot_map access_list
              (pool_token_list order (filter (token_match ts) pools))) p))"
  using filter_pools_kept [OF assms] .

text \<open>A node on which every call succeeds, and decoders that always read \<open>AMOUNT\<close>.\<close>

definition ex_node :: "unit node" where
  "ex_node = \<lparr>nd_insert_slot = (\<lambda>n a k v. Ok n), nd_commit = (\<lambda>n a c. Ok n),
     nd_transact = (\<lambda>n a c. Ok (Success []))\<rparr>"

definition ex_decoders :: decoders where
  "ex_decoders = \<lparr>de_vec = (\<lambda>bs. Some [AMOUNT, AMOUNT]), de_one = (\<lambda>bs. None), de_pair = (\<lambda>bs. None)\<rparr>"

text \<open>A service with two tokens on its pages, and no cache file.\<close>

definition ex_tokens :: token_source where
  "ex_tokens = \<lparr>tk_cache_file = None, tk_writable = True,
     tk_get = (\<lambda>(offset, n). Some (if offset = 0 then Tokens [''a'', ''b''] else Bad_status)),
     tk_parse = (\<lambda>s. Some (if s = ''a'' then 10 else 20))\<rparr>"

lemma ex_top_tokens: "get_top_volume_tokens ex_tokens 100 = Ok [10, 20]"
proof -
  have "query_params 100 = [(0, 50), (50, 50)]" by code_simp
  then show ?thesis
    by (simp add: get_top_volume_tokens_def ex_tokens_def fetch_top_volume_tokens_def fetch_page_def)
qed

theorem filter_pools_sound_witness:
  "filter_pools ex_tokens remdups (\<lambda>t. [(t, [4])]) ex_node ex_decoders () [ex_pool] 100 = Ok [ex_pool]
   \<and> passed_trial ex_node ex_decoders (construct_slot_map (\<lambda>t. [(t, [4])]) [10, 20]) ex_pool"
proof -
  have f: "pl_token0 ex_pool = 10" "pl_token1 ex_pool = 20" "pl_type ex_pool = UniswapV2"
    by (simp_all add: ex_pool_def)
  have m: "construct_slot_map (\<lambda>t. [(t, [4])]) [10, 20] = [10 \<mapsto> 4, 20 \<mapsto> 4]"
    by (simp add: construct_slot_map_def implementation_slot_def)
  have t: "token_match [10, 20] ex_pool" by (simp add: token_match_def f BLACKLIST_def)
  have l: "pool_token_list remdups [ex_pool] = [10, 20]" by (simp add: pool_token_list_def f)
  have "try_swap ex_node ex_decoders () ex_pool r V2Basic x z = Ok (Some AMOUNT)" for r x z
    by (simp add: try_swap_def setup_router_calldata_def ex_node_def ex_decoders_def decode_swap_return_def)
  then have "filter_pool ex_node ex_decoders [10 \<mapsto> 4, 20 \<mapsto> 4] ex_pool () = Ok ((), True)"
    by (simp add: filter_pool_def f router_of_def lower_bound_value)
      (simp add: ex_node_def AMOUNT_def)
  then have run: "filter_pools ex_tokens remdups (\<lambda>t. [(t, [4])]) ex_node ex_decoders () [ex_pool] 100 =
      Ok [ex_pool]"
    by (simp add: filter_pools_def filter_by_swap_def ex_top_tokens t l m)
  from filter_pools_sound [OF run] have "passed_trial ex_node ex_decoders
      (construct_slot_map (\<lambda>t. [(t, [4])]) (pool_token_list remdups (filter (token_match [10, 20]) [ex_pool])))
      ex_pool" by (auto simp: ex_top_tokens)
  with run show ?thesis by (simp add: t l)
qed

end
