(* ===== verification/HistoryDB.thy ===== *)
theory HistoryDB
  imports StateDB
begin

text \<open>
  The historical database (\<^verbatim>\<open>src/history_db.rs\<close>): reads of the state at one past block from
  the node's own database. The provider of \<^verbatim>\<open>reth\<close> is the record of its answers, with \<open>None\<close>
  for an error inside it. The database is read-only: both interfaces of \<^verbatim>\<open>revm\<close> are the same
  functions.
\<close>

record history_provider =
  hp_account :: "address \<Rightarrow> (u256 \<times> u64) option option"
  hp_code :: "address \<Rightarrow> bytecode option option"
  hp_storage :: "address \<Rightarrow> u256 \<Rightarrow> u256 option option"
  hp_block_hash :: "u64 \<Rightarrow> b256 option option"

record history_db =
  hb_provider :: history_provider

text \<open>\<open>open_db_read_only\<close> and the static files may fail; the provider of the block must exist.\<close>

definition history_db_new ::
  "bool \<Rightarrow> (u64 \<Rightarrow> history_provider option) \<Rightarrow> u64 \<Rightarrow> history_db res"
where
  "history_db_new opened history_by_block_number block =
     (if opened then
        (case history_by_block_number block of
           Some p \<Rightarrow> Ok \<lparr>hb_provider = p\<rparr>
         | None \<Rightarrow> panic Unwrap_err)
      else err Account_fetch_failed)"

text \<open>\<open>unwrap_or_default\<close> of a \<open>Result\<close> of an \<open>Option\<close>.\<close>

definition ok_or_none :: "'a option option \<Rightarrow> 'a option" where
  "ok_or_none r = (case r of Some x \<Rightarrow> x | None \<Rightarrow> None)"

definition h_basic_ref :: "revm \<Rightarrow> history_db \<Rightarrow> address \<Rightarrow> account_info option res" where
  "h_basic_ref R db a =
     (let (balance, nonce) =
        (case ok_or_none (hp_account (hb_provider db) a) of Some acc \<Rightarrow> acc | None \<Rightarrow> (0, 0))
      in case ok_or_none (hp_code (hb_provider db) a) of
           Some code \<Rightarrow>
             Ok (Some \<lparr>ai_balance = balance, ai_nonce = nonce, ai_code_hash = rv_hash_slow R code,
                       ai_code = Some code\<rparr>)
         | None \<Rightarrow>
             Ok (Some \<lparr>ai_balance = balance, ai_nonce = nonce, ai_code_hash = rv_keccak_empty R,
                       ai_code = Some (rv_default_code R)\<rparr>))"

definition h_code_by_hash_ref :: "history_db \<Rightarrow> b256 \<Rightarrow> bytecode res" where
  "h_code_by_hash_ref db h =
     panic (Explicit_panic ''This should not be called, as the code is already loaded'')"

definition h_storage_ref :: "history_db \<Rightarrow> address \<Rightarrow> u256 \<Rightarrow> u256 res" where
  "h_storage_ref db a k =
     (case hp_storage (hb_provider db) a k of
        None \<Rightarrow> err Account_fetch_failed
      | Some value \<Rightarrow> Ok (case value of Some v \<Rightarrow> v | None \<Rightarrow> 0))"

definition h_block_hash_ref :: "revm \<Rightarrow> history_db \<Rightarrow> u64 \<Rightarrow> b256 res" where
  "h_block_hash_ref R db n =
     (case ok_or_none (hp_block_hash (hb_provider db) n) of
        Some h \<Rightarrow> Ok h
      | None \<Rightarrow> Ok (rv_keccak_empty R))"

definition h_basic :: "revm \<Rightarrow> history_db \<Rightarrow> address \<Rightarrow> account_info option res \<times> history_db" where
  "h_basic R db a = (h_basic_ref R db a, db)"

definition h_code_by_hash :: "history_db \<Rightarrow> b256 \<Rightarrow> bytecode res \<times> history_db" where
  "h_code_by_hash db h =
     (panic (Explicit_panic ''This should not be called, as the code is already loaded''), db)"

definition h_storage :: "history_db \<Rightarrow> address \<Rightarrow> u256 \<Rightarrow> u256 res \<times> history_db" where
  "h_storage db a k = (h_storage_ref db a k, db)"

definition h_block_hash :: "revm \<Rightarrow> history_db \<Rightarrow> u64 \<Rightarrow> b256 res \<times> history_db" where
  "h_block_hash R db n = (h_block_hash_ref R db n, db)"

text \<open>
  Errors of the node's database are treated in two ways: an account whose lookups both fail
  is answered with an empty one, exactly as an account that does not exist, while a failed
  storage lookup is an error and not a zero.
\<close>

theorem history_errors:
  "(hp_account (hb_provider db) a = None \<and> hp_code (hb_provider db) a = None \<longrightarrow>
      h_basic_ref R db a =
        h_basic_ref R (db\<lparr>hb_provider := (hb_provider db)\<lparr>hp_account := (\<lambda>_. Some None),
                                                        hp_code := (\<lambda>_. Some None)\<rparr>\<rparr>) a)
   \<and> (\<exists>info. h_basic_ref R db a = Ok (Some info))
   \<and> (h_storage_ref db a k = Ok v \<longleftrightarrow>
        (\<exists>value. hp_storage (hb_provider db) a k = Some value \<and> v = (case value of Some v \<Rightarrow> v | None \<Rightarrow> 0)))"
proof (intro conjI impI)
  show "\<exists>info. h_basic_ref R db a = Ok (Some info)"
    by (simp add: h_basic_ref_def split: prod.split option.split)
  show "h_storage_ref db a k = Ok v \<longleftrightarrow> (\<exists>value. hp_storage (hb_provider db) a k = Some value
      \<and> v = (case value of Some v \<Rightarrow> v | None \<Rightarrow> 0))"
    by (cases "hp_storage (hb_provider db) a k") (auto simp: h_storage_ref_def)
qed (simp add: h_basic_ref_def ok_or_none_def)

definition ex_history :: history_db where
  "ex_history = \<lparr>hb_provider = \<lparr>hp_account = (\<lambda>a. None), hp_code = (\<lambda>a. None),
     hp_storage = (\<lambda>a k. Some None), hp_block_hash = (\<lambda>n. None)\<rparr>\<rparr>"

theorem history_errors_witness:
  "h_basic_ref ex_revm ex_history 5 =
     h_basic_ref ex_revm (ex_history\<lparr>hb_provider := (hb_provider ex_history)
       \<lparr>hp_account := (\<lambda>_. Some None), hp_code := (\<lambda>_. Some None)\<rparr>\<rparr>) 5
   \<and> h_storage_ref ex_history 5 7 = Ok 0"
proof -
  have p: "hp_account (hb_provider ex_history) 5 = None" "hp_code (hb_provider ex_history) 5 = None"
    "hp_storage (hb_provider ex_history) 5 7 = Some None"
    by (simp_all add: ex_history_def)
  note e = history_errors [of ex_history 5 ex_revm 7 0]
  have "h_storage_ref ex_history 5 7 = Ok 0"
    by (rule iffD2 [OF conjunct2 [OF conjunct2 [OF e]]]) (simp add: p)
  then show ?thesis using mp [OF conjunct1 [OF e]] p by simp
qed

end
