(* ===== verification/ChainView.thy ===== *)
theory ChainView
  imports MarketState
begin

text \<open>
  An abstract specification of the market state: what the slots of the tracked pools hold, as a
  function of the blocks of the chain. The view of a database keeps nothing but the reads of
  tracked pools; a block replays its reported slots over a view. The updater refines it: its
  database, caches and provider are invisible in the view.
\<close>

subsection \<open>Simulation along a fold\<close>

locale simulation =
  fixes step :: "'e \<Rightarrow> 'c \<Rightarrow> 'c res"
    and astep :: "'e \<Rightarrow> 'a \<Rightarrow> 'a"
    and view :: "'c \<Rightarrow> 'a"
  assumes step_simulates: "step e c = Ok c' \<Longrightarrow> view c' = astep e (view c)"
begin

lemma run_simulates: "rfold step es c = Ok c' \<Longrightarrow> view c' = fold astep es (view c)"
proof (induction es arbitrary: c)
  case (Cons e es)
  then obtain c1 where "step e c = Ok c1" "rfold step es c1 = Ok c'"
    by (auto simp: rbind_eq_Inr)
  with Cons.IH [of c1] step_simulates [of e c c1] show ?case by simp
qed simp

end

subsection \<open>The abstract chain\<close>

type_synonym pool_view = "address \<Rightarrow> b256 \<Rightarrow> b256 res option"

definition view_of :: "state_db \<Rightarrow> pool_view" where
  "view_of db a k =
     (if a \<in> db_pools db \<and> has_account db a then Some (storage_ref db a k) else None)"

definition report :: "address \<times> trace_state \<Rightarrow> pool_view \<Rightarrow> pool_view" where
  "report p V a k =
     (case if a = fst p then map_of (rev (case ts_storage (snd p) of None \<Rightarrow> [] | Some kvs \<Rightarrow> kvs)) k
           else None of
        Some v \<Rightarrow> map_option (\<lambda>_. Ok v) (V a k)
      | None \<Rightarrow> V a k)"

definition chain_block :: "client \<Rightarrow> u64 \<Rightarrow> pool_view \<Rightarrow> pool_view" where
  "chain_block client n = fold report (posts (the (client n)))"

subsection \<open>The updater refines the chain\<close>

interpretation up: simulation apply_update report "\<lambda>(db, upd). view_of db"
proof
  fix p :: "address \<times> trace_state" and c c' :: "state_db \<times> address set"
  assume run: "apply_update p c = Ok c'"
  obtain a ts where p: "p = (a, ts)" by (cases p)
  obtain db upd where c: "c = (db, upd)" by (cases c)
  obtain db' upd' where c': "c' = (db', upd')" by (cases c')
  have "view_of db' = report p (view_of db)"
  proof (cases "a \<in> db_pools db")
    case False
    with run have "db' = db" by (simp add: apply_update_def tracking_pool_def p c c')
    moreover have "report p (view_of db) b k = view_of db b k" for b k
      using False by (simp add: report_def view_of_def p split: option.split)
    ultimately show ?thesis by (intro ext) simp
  next
    case True
    with run have u: "update_all_slots db a ts = Ok db'"
      by (simp add: apply_update_def tracking_pool_def p c c' rbind_eq_Inr)
    show ?thesis
    proof (intro ext)
      fix b k
      show "view_of db' b k = report p (view_of db) b k"
        unfolding view_of_def report_def p update_all_slots_fields [OF u] update_all_slots_reads [OF u]
        by (auto simp: traced_read_def map_add_def split: option.splits)
    qed
  qed
  then show "(case c' of (db, upd) \<Rightarrow> view_of db) = report p (case c of (db, upd) \<Rightarrow> view_of db)"
    by (simp add: c c')
qed

interpretation bl: simulation "\<lambda>n db. rbind (update_state client n db) (\<lambda>r. Ok (fst r))"
    "chain_block client" view_of for client
proof
  fix n db db'
  assume "rbind (update_state client n db) (\<lambda>r. Ok (fst r)) = Ok db'"
  then obtain upd where "update_state client n db = Ok (db', upd)" by (auto simp: rbind_eq_Inr)
  then obtain rs where rs: "client n = Some rs" "rfold apply_update (posts rs) (db, {}) = Ok (db', upd)"
    by (auto simp: update_state_eq split: option.splits)
  from up.run_simulates [OF rs(2)] rs(1) show "view_of db' = chain_block client n (view_of db)"
    by (simp add: chain_block_def)
qed

lemma apply_blocks_view:
  "apply_blocks client ns db = Ok db' \<Longrightarrow> view_of db' = fold (chain_block client) ns (view_of db)"
  unfolding apply_blocks_def by (rule bl.run_simulates)

text \<open>Which pools there are, and with which tokens, does not change.\<close>

lemma update_state_pool_info:
  assumes "update_state client n db = Ok (db', upd)"
  shows "db_pool_info db' = db_pool_info db"
proof -
  from assms obtain rs where "rfold apply_update (posts rs) (db, {}) = Ok (db', upd)"
    by (auto simp: update_state_eq split: option.splits)
  moreover have "rfold apply_update ps (d, u) = Ok (d', u') \<Longrightarrow> db_pool_info d' = db_pool_info d"
    for ps d u d' u'
    by (induction ps arbitrary: d u)
      (auto simp: rbind_eq_Inr apply_update_def update_all_slots_fields split: if_splits prod.splits)
  ultimately show ?thesis by blast
qed

subsection \<open>A stream without gaps\<close>

lemma unat_next: "(a :: u64) < b \<Longrightarrow> unat (a + 1) = unat a + 1"
  using unat_less_width [of b] by (simp add: unat_add_exact word_less_nat_alt)

lemma block_range_Cons:
  assumes "a < b"
  shows "block_range a b = (a + 1) # block_range (a + 1) b"
proof -
  note u = unat_next [OF assms]
  from assms have "unat a + 1 < unat b + 1" by (simp add: word_less_nat_alt)
  then show ?thesis by (simp add: block_range_def u upt_conv_Cons del: upt_Suc)
qed

lemma block_range_empty: "b \<le> a \<Longrightarrow> block_range a b = []"
  by (simp add: block_range_def word_le_nat_alt)

lemma new_blocks_gapless:
  assumes "a \<le> m" and "map hd_number hs = block_range a b"
  shows "new_blocks m (map Received (stream_new_blocks hs)) = block_range m (max m b)"
  using assms
proof (induction hs arbitrary: a m)
  case Nil
  then have "\<not> a < b" using block_range_Cons [of a b] by auto
  with Nil have "b \<le> m" by simp
  then show ?case by (simp add: stream_new_blocks_def max_absorb1)
next
  case (Cons h hs)
  have "a < b"
  proof (rule ccontr)
    assume "\<not> a < b"
    then show False using Cons.prems(2) block_range_empty [of b a] by simp
  qed
  with Cons.prems(2) have h: "hd_number h = a + 1" and hs: "map hd_number hs = block_range (a + 1) b"
    by (simp_all add: block_range_Cons)
  show ?case
  proof (cases "a + 1 \<le> m")
    case True
    with Cons.IH [OF True hs] h show ?thesis by (simp add: stream_new_blocks_def)
  next
    case False
    from \<open>a < b\<close> have "a < a + 1" "a + 1 \<le> b"
      by (simp_all add: word_less_nat_alt word_le_nat_alt unat_next)
    with False Cons.prems(1) have "m = a" by (metis inc_le linorder_not_le order_le_less)
    with False h Cons.IH [OF order_refl hs] \<open>a < b\<close> \<open>a + 1 \<le> b\<close> show ?thesis
      by (simp add: stream_new_blocks_def block_range_Cons [of a b] max_absorb2)
  qed
qed

text \<open>
  C3: The updater refines the abstract chain: the view of its database is the view it started
  from with whole blocks replayed, those of catching up and the new ones of the stream. When the
  stream has no gap and begins no later than the block after the last head \<open>m\<close> of the catching
  up, these are all blocks after \<open>last_synced\<close> up to the last one seen, each once and in order.
\<close>

theorem updater_refines_chain:
  assumes "state_updater client iter heads (map Received (stream_new_blocks hs)) l db =
             Some (Ok ((l', db'), sent))"
  shows "\<exists>m. l \<le> m \<and> (\<exists>h \<le> m. Some h \<in> set heads)
     \<and> view_of db' = fold (chain_block client)
         (block_range l m @ new_blocks m (map Received (stream_new_blocks hs))) (view_of db)
     \<and> (\<forall>a b. a \<le> m \<and> map hd_number hs = block_range a b \<longrightarrow>
          view_of db' = fold (chain_block client) (block_range l (max m b)) (view_of db))"
proof -
  let ?rs = "map Received (stream_new_blocks hs)"
  from assms obtain db1 m where m: "catch_up client heads l db = Some (Ok (db1, m))"
    and s: "stream_blocks client iter ?rs (m, db1) = Ok ((l', db'), sent)"
    by (auto simp: state_updater_def dbind_eq_Some_Inr)
  note c = catch_up_blocks [OF m] and r = stream_blocks_run [OF s]
  from c r have "apply_blocks client (block_range l m @ new_blocks m ?rs) db = Ok db'"
    by (simp add: apply_blocks_append)
  then have view: "view_of db' = fold (chain_block client) (block_range l m @ new_blocks m ?rs) (view_of db)"
    by (rule apply_blocks_view)
  have "view_of db' = fold (chain_block client) (block_range l (max m b)) (view_of db)"
    if "a \<le> m \<and> map hd_number hs = block_range a b" for a b
  proof -
    from c have "block_range l m @ block_range m (max m b) = block_range l (max m b)"
      by (intro block_range_append) auto
    with view new_blocks_gapless [of a m hs b] that show ?thesis by simp
  qed
  with c view show ?thesis by blast
qed

text \<open>Blocks 4 and 5 of a stream, after catching up to block 3 from block 2.\<close>

theorem updater_refines_chain_witness:
  "\<exists>db' m. 3 \<le> m
     \<and> map hd_number (map ex_header [4, 5]) = block_range 3 5
     \<and> view_of db' = fold (chain_block (\<lambda>n. Some ex_traces)) (block_range 2 (max m 5)) (view_of ex_v2_db)"
proof -
  let ?client = "\<lambda>n. Some ex_traces" and ?hs = "map ex_header [4, 5]"
  have some: "\<forall>n. ?client n \<noteq> None" by simp
  have r3: "block_range 2 3 = [3]" and r5: "block_range 3 5 = [4, 5]"
    by (simp_all add: block_range_Cons block_range_empty)
  obtain db1 where db1: "apply_blocks ?client [3] ex_v2_db = Ok db1"
    using apply_blocks_Ok [OF some] by blast
  obtain db4 upd4 where db4: "update_state ?client 4 db1 = Ok (db4, upd4)"
    using update_state_Ok [of ?client 4 db1] by auto
  obtain db5 upd5 where db5: "update_state ?client 5 db4 = Ok (db5, upd5)"
    using update_state_Ok [of ?client 5 db4] by auto
  have "catch_up ?client [Some 3, Some 3] 2 ex_v2_db = Some (Ok (db1, 3))"
    using db1 by (simp add: r3)
  moreover have "stream_blocks ?client (\<lambda>_. []) (map Received (stream_new_blocks ?hs)) (3, db1) =
      Ok ((5, db5), [PoolsTouched [] 4, PoolsTouched [] 5])"
    using db4 db5 by (simp add: stream_new_blocks_def stream_block_def ex_header_def)
  ultimately have "state_updater ?client (\<lambda>_. []) [Some 3, Some 3]
      (map Received (stream_new_blocks ?hs)) 2 ex_v2_db =
      Some (Ok ((5, db5), [PoolsTouched [] 4, PoolsTouched [] 5]))"
    by (simp add: state_updater_def)
  from updater_refines_chain [OF this] obtain m where m: "3 \<le> m"
    "\<forall>a b. a \<le> m \<and> map hd_number ?hs = block_range a b \<longrightarrow>
       view_of db5 = fold (chain_block ?client) (block_range 2 (max m b)) (view_of ex_v2_db)"
    by auto
  have "map hd_number ?hs = block_range 3 5" by (simp add: r5 ex_header_def)
  with m show ?thesis by blast
qed

end
