(* ===== verification/Pipeline.thy ===== *)
theory Pipeline
  imports Graph Searcher Simulator TxSender PoolFilter HistoryDB ChainView
begin

text \<open>
  The workers together (\<^verbatim>\<open>src/ignition.rs\<close>): what \<^verbatim>\<open>start_workers\<close> builds, and the system of
  the tasks it spawns. A channel is the list of the messages in it; each task takes one
  message, or one block header, at a time, and the tasks interleave freely. The updater
  changes the database and sends its message in two steps, and the searcher refreshes its
  rates and finds the best path in two steps, between which the others run and the database may
  change; each such step, and a step of the simulator, sees one state of the database, while the
  code takes the read lock anew for every pool it reads. What the node answers (the provider of
  the database and the traces of the blocks) is fixed for a run.

  Headers travel over the broadcast channel of \<^verbatim>\<open>tokio\<close>: every receiver has its own queue, and a
  receiver for which more than 100 headers wait may be told once that it lags, in the place of the
  oldest of them; it keeps at least 100. Of a channel whose sender is gone, a receiver gets what
  is left and then an error.
\<close>

subsection \<open>Starting\<close>

text \<open>Everything that the workers take from outside.\<close>

record 'n world =
  wd_calc :: calc_env
  wd_revm :: revm
  wd_commit :: committer
  wd_quoter_code :: bytecode
  wd_keccak_bytes :: "bytecode \<Rightarrow> b256"
  wd_runtime :: bool
  wd_provider :: provider
  wd_client :: client
  wd_addr_iter :: addr_iter
  wd_edges :: edge_iter
  wd_hash :: "swap_step list \<Rightarrow> u64"
  wd_weth :: address
  wd_invalidate :: "cache \<Rightarrow> address list \<Rightarrow> cache"
  wd_order :: set_order
  wd_is_v3 :: "pool_type \<Rightarrow> bool"
  wd_dec :: amounts_decoder
  wd_sim :: bool
  wd_next_fee :: next_fee
  wd_sequencer :: sequencer
  wd_setup :: sender_setup
  wd_tokens :: token_source
  wd_token_order :: "address list \<Rightarrow> address list"
  wd_access_list :: "address \<Rightarrow> (address \<times> b256 list) list"
  wd_node :: "'n node"
  wd_decoders :: decoders
  wd_nodedb :: 'n
  wd_streamed :: "header list"
  wd_gas_after :: nat
  wd_rates_after :: nat
  wd_cycles_after :: nat

text \<open>
  \<open>wd_streamed\<close> are the headers of the subscription while \<^verbatim>\<open>start_workers\<close> runs. The gas station
  subscribes after \<open>wd_gas_after\<close> of them; the updater, which starts before rates and cycles are
  computed, has handled \<open>wd_rates_after\<close> of them when the rates are and \<open>wd_cycles_after\<close> more
  before the remaining workers start.
\<close>

record system =
  sy_streaming :: bool
  sy_block_rx :: "received list"
  sy_updating :: bool
  sy_gas_rx :: "received list"
  sy_gas_running :: bool
  sy_market :: "u64 \<times> state_db"
  sy_unsent :: "event list"
  sy_queue :: "event list"
  sy_searcher :: searcher
  sy_searching :: "(address list \<times> u64) option"
  sy_paths :: "event list"
  sy_blacklist :: "u64 set"
  sy_valid :: "event list"
  sy_gas :: gas_station
  sy_sender :: transaction_sender
  sy_sent :: "(transaction_request \<times> b256 option) list"

text \<open>What a receiver gets of the headers that \<^verbatim>\<open>stream_new_blocks\<close> sends.\<close>

definition block_events :: "header list \<Rightarrow> received list" where
  "block_events hs = map Received (stream_new_blocks hs)"

text \<open>The order of \<^verbatim>\<open>start_workers\<close>: filter, market state, catching up (the spin on
  \<open>caught_up\<close>), rates, cycles, searcher and sender; the updater runs on during the last four.\<close>

definition start_workers ::
  "'n world \<Rightarrow> u64 option list \<Rightarrow> pool list \<Rightarrow> u64 \<Rightarrow> system res option"
where
  "start_workers W heads pools last_synced_block =
     (let E = wd_calc W
      in dbind (Some (filter_pools (wd_tokens W) (wd_token_order W) (wd_access_list W) (wd_node W)
                        (wd_decoders W) (wd_nodedb W) pools 4000)) (\<lambda>pools.
         let gas_station = gas_station_new
         in dbind (Some (init_state E (wd_revm W) (wd_commit W) (wd_quoter_code W)
                      (wd_keccak_bytes W) (wd_runtime W) (wd_provider W) pools)) (\<lambda>db.
         dbind (catch_up (wd_client W) heads last_synced_block db) (\<lambda>(db, last_synced).
         let (early, later) =
           (take (wd_rates_after W) (wd_streamed W), drop (wd_rates_after W) (wd_streamed W))
         in dbind (Some (stream_blocks (wd_client W) (wd_addr_iter W) (block_events early)
                          (last_synced, db))) (\<lambda>((last_synced, db), sent).
         dbind (process_pools E db (wd_weth W) pools estimator_new) (\<lambda>estimator.
         dbind (Some (stream_blocks (wd_client W) (wd_addr_iter W)
                        (block_events (take (wd_cycles_after W) later))
                        (last_synced, db))) (\<lambda>((last_synced, db), sent').
         dbind (generate_cycles (wd_edges W) (wd_hash W) (wd_weth W) pools) (\<lambda>cycles.
         dbind (Some (transaction_sender_new (wd_setup W))) (\<lambda>tx_sender.
           Some (Ok \<lparr>sy_streaming = True,
                     sy_block_rx = block_events (drop (wd_cycles_after W) later), sy_updating = True,
                     sy_gas_rx = block_events (drop (wd_gas_after W) (wd_streamed W)),
                     sy_gas_running = True, sy_market = (last_synced, db),
                     sy_unsent = [], sy_queue = sent @ sent',
                     sy_searcher = searcher_new cycles estimator,
                     sy_searching = None, sy_paths = [],
                     sy_blacklist = {}, sy_valid = [], sy_gas = gas_station,
                     sy_sender = tx_sender, sy_sent = []\<rparr>))))))))))"

subsection \<open>Running\<close>

text \<open>The loops \<^verbatim>\<open>while let Ok(Event::NewBlock(..)) = block_rx.recv().await\<close> end at an error, be it
  that the receiver lags or that the channel is closed, and at any other event.\<close>

definition loop_ends :: "bool \<Rightarrow> received list \<Rightarrow> bool" where
  "loop_ends streaming rx =
     (case rx of
        [] \<Rightarrow> \<not> streaming
      | r # rx \<Rightarrow> (case r of Received (NewBlock h) \<Rightarrow> False | _ \<Rightarrow> True))"

inductive worker_step :: "'n world \<Rightarrow> system \<Rightarrow> system \<Rightarrow> bool" for W :: "'n world" where
  stream: "sy_streaming s \<Longrightarrow>
     worker_step W s
       (s\<lparr>sy_block_rx := sy_block_rx s @ block_events [h], sy_gas_rx := sy_gas_rx s @ block_events [h]\<rparr>)"
| hang_up: "sy_streaming s \<Longrightarrow> worker_step W s (s\<lparr>sy_streaming := False\<rparr>)"
| lag: "sy_block_rx s = lost @ kept \<Longrightarrow> lost \<noteq> [] \<Longrightarrow> 100 \<le> length kept \<Longrightarrow>
     worker_step W s (s\<lparr>sy_block_rx := Receive_error # kept\<rparr>)"
| lag_gas: "sy_gas_rx s = lost @ kept \<Longrightarrow> lost \<noteq> [] \<Longrightarrow> 100 \<le> length kept \<Longrightarrow>
     worker_step W s (s\<lparr>sy_gas_rx := Receive_error # kept\<rparr>)"
| market: "sy_updating s \<Longrightarrow> sy_unsent s = [] \<Longrightarrow> sy_block_rx s = Received (NewBlock h) # rx \<Longrightarrow>
     stream_block (wd_client W) (wd_addr_iter W) h (sy_market s) = Ok (market, sent) \<Longrightarrow>
     worker_step W s (s\<lparr>sy_block_rx := rx, sy_market := market, sy_unsent := sent\<rparr>)"
| updater_ends: "sy_updating s \<Longrightarrow> sy_unsent s = [] \<Longrightarrow> loop_ends (sy_streaming s) (sy_block_rx s) \<Longrightarrow>
     worker_step W s (s\<lparr>sy_updating := False\<rparr>)"
| announce: "sy_unsent s = ev # unsent \<Longrightarrow>
     worker_step W s (s\<lparr>sy_unsent := unsent, sy_queue := sy_queue s @ [ev]\<rparr>)"
| rates: "sy_searching s = None \<Longrightarrow> sy_queue s = PoolsTouched pools n # queue \<Longrightarrow>
     search_rates (wd_calc W) (wd_invalidate W) (wd_weth W) (snd (sy_market s)) pools
       (sy_searcher s) = Some (Ok searcher) \<Longrightarrow>
     worker_step W s
       (s\<lparr>sy_queue := queue, sy_searcher := searcher, sy_searching := Some (pools, n)\<rparr>)"
| search: "sy_searching s = Some (pools, n) \<Longrightarrow>
     search_best (wd_calc W) (wd_order W) (snd (sy_market s)) pools n (sy_searcher s) =
       Some (Ok (searcher, sent)) \<Longrightarrow>
     worker_step W s
       (s\<lparr>sy_searching := None, sy_searcher := searcher, sy_paths := sy_paths s @ sent\<rparr>)"
| simulate: "sy_paths s = ArbPath path out n # paths \<Longrightarrow>
     simulate_path (wd_is_v3 W) (wd_calc W) (wd_dec W) (wd_sim W) (snd (sy_market s)) path out n
       (sy_blacklist s) = Some (Ok (blacklist, sent)) \<Longrightarrow>
     worker_step W s
       (s\<lparr>sy_paths := paths, sy_blacklist := blacklist, sy_valid := sy_valid s @ sent\<rparr>)"
| gas: "sy_gas_running s \<Longrightarrow> sy_gas_rx s = Received (NewBlock h) # rx \<Longrightarrow>
     update_gas_block (wd_next_fee W) h (sy_gas s) = Ok gas_st \<Longrightarrow>
     worker_step W s (s\<lparr>sy_gas_rx := rx, sy_gas := gas_st\<rparr>)"
| gas_ends: "sy_gas_running s \<Longrightarrow> loop_ends (sy_streaming s) (sy_gas_rx s) \<Longrightarrow>
     worker_step W s (s\<lparr>sy_gas_running := False\<rparr>)"
| send: "sy_valid s = ValidPath params profit n # valid \<Longrightarrow>
     send_transaction (wd_sequencer W) (sy_gas s) params profit (sy_sender s) = Ok (sender, tx) \<Longrightarrow>
     worker_step W s (s\<lparr>sy_valid := valid, sy_sender := sender, sy_sent := sy_sent s @ [tx]\<rparr>)"

inductive_cases worker_stepE: "worker_step W s s'"

text \<open>The states of a run.\<close>

inductive running :: "'n world \<Rightarrow> u64 option list \<Rightarrow> pool list \<Rightarrow> u64 \<Rightarrow> system \<Rightarrow> bool"
  for W :: "'n world" and heads :: "u64 option list" and pools :: "pool list" and l :: u64
where
  start: "start_workers W heads pools l = Some (Ok s) \<Longrightarrow> running W heads pools l s"
| step: "running W heads pools l s \<Longrightarrow> worker_step W s s' \<Longrightarrow> running W heads pools l s'"

subsection \<open>What is asked of the world\<close>

definition world_ok :: "'n world \<Rightarrow> bool" where
  "world_ok W \<longleftrightarrow>
     cache_set_law (cn_cache_set (wd_calc W)) \<and> invalidate_law (wd_invalidate W)
     \<and> order_law (wd_order W) \<and> edge_order (wd_edges W)
     \<and> (\<forall>s. finite s \<longrightarrow> set (wd_addr_iter W s) = s)
     \<and> (\<forall>db db'. cn_aero (wd_calc W) db' = cn_aero (wd_calc W) db)"

text \<open>The pools are of the types that \<^verbatim>\<open>main\<close> synchronises.\<close>

definition synced :: "pool list \<Rightarrow> bool" where
  "synced pools \<longleftrightarrow> (\<forall>p \<in> set pools. pl_type p \<in> set synced_types)"

subsection \<open>Invariants of a run\<close>

definition pending :: "event list \<Rightarrow> address \<Rightarrow> bool" where
  "pending queue p \<longleftrightarrow> (\<exists>pools n. PoolsTouched pools n \<in> set queue \<and> p \<in> set pools)"

text \<open>The cache is right for every pool that no message announces, sent or about to be sent.\<close>

definition current_or_pending :: "'n world \<Rightarrow> system \<Rightarrow> address \<Rightarrow> u256 \<Rightarrow> u256 \<Rightarrow> bool" where
  "current_or_pending W s p x v \<longleftrightarrow>
     pending (sy_queue s @ sy_unsent s) p
     \<or> fresh_quote (wd_calc W) (snd (sy_market s)) (se_cycles (sy_searcher s)) p x v"

text \<open>A cycle of WETH through two pools of different types.\<close>

definition arbitrage :: "'n world \<Rightarrow> pool list \<Rightarrow> swap_path \<Rightarrow> bool" where
  "arbitrage W pools path \<longleftrightarrow>
     (\<exists>p q t. p \<in> set pools \<and> q \<in> set pools \<and> t \<noteq> wd_weth W
        \<and> trades p (wd_weth W) t \<and> trades q t (wd_weth W) \<and> pl_type p \<noteq> pl_type q
        \<and> sp_steps path = [pool_step p (wd_weth W) t, pool_step q t (wd_weth W)])"

definition good_path :: "'n world \<Rightarrow> pool list \<Rightarrow> event \<Rightarrow> bool" where
  "good_path W pools ev \<longleftrightarrow>
     (\<exists>path out n. ev = ArbPath path out n \<and> arbitrage W pools path \<and> 1010900000000000 \<le> out)"

definition good_valid :: "'n world \<Rightarrow> pool list \<Rightarrow> event \<Rightarrow> bool" where
  "good_valid W pools ev \<longleftrightarrow>
     (\<exists>path params profit n. ev = ValidPath params profit n \<and> arbitrage W pools path
        \<and> pr_pools params = map st_pool (sp_steps path) \<and> 10900000000000 \<le> unat profit)"

text \<open>The sender as it is constructed.\<close>

definition first_sender :: "'n world \<Rightarrow> transaction_sender" where
  "first_sender W =
     (case transaction_sender_new (wd_setup W) of
        Inr tx_sender \<Rightarrow> tx_sender
      | Inl e \<Rightarrow> \<lparr>ts_contract = 0, ts_nonce = 0\<rparr>)"

definition good_tx :: "'n world \<Rightarrow> pool list \<Rightarrow> transaction_request \<Rightarrow> bool" where
  "good_tx W pools tx \<longleftrightarrow>
     (\<exists>path params. arbitrage W pools path \<and> tx_input tx = Execute_arbitrage params
        \<and> fs_pools params = map st_pool (sp_steps path)
        \<and> tx_to tx = ts_contract (first_sender W) \<and> 15571428 \<le> unat (tx_priority_fee tx))"

definition run_inv :: "'n world \<Rightarrow> pool list \<Rightarrow> system \<Rightarrow> bool" where
  "run_inv W pools s \<longleftrightarrow>
     searcher_ok (sy_searcher s) \<and> natively_quoted (se_cycles (sy_searcher s))
     \<and> (\<forall>path \<in> set (se_cycles (sy_searcher s)). arbitrage W pools path)
     \<and> cm.sound (current_or_pending W s) (se_cache (sy_searcher s))
     \<and> (\<forall>ev \<in> set (sy_queue s @ sy_unsent s). \<exists>ps n. ev = PoolsTouched ps n)
     \<and> (\<forall>ev \<in> set (sy_paths s). good_path W pools ev)
     \<and> (\<forall>ev \<in> set (sy_valid s). good_valid W pools ev)
     \<and> ts_contract (sy_sender s) = ts_contract (first_sender W)
     \<and> (\<forall>tx \<in> set (sy_sent s). good_tx W pools (fst tx))
     \<and> map (tx_nonce \<circ> fst) (sy_sent s) =
         map (\<lambda>i. ts_nonce (first_sender W) + of_nat i) [0..<length (sy_sent s)]
     \<and> ts_nonce (sy_sender s) = ts_nonce (first_sender W) + of_nat (length (sy_sent s))"

lemma synced_native: "ty \<in> set synced_types \<Longrightarrow> native ty"
  by (auto simp: synced_types_def native_def)

lemma stream_blocks_touched:
  assumes "stream_blocks client iter rs m = Ok (m', sent)"
  shows "\<forall>ev \<in> set sent. \<exists>ps n. ev = PoolsTouched ps n"
proof
  fix ev assume "ev \<in> set sent"
  moreover have "map sent_block sent = map Some (new_blocks (fst m) rs)"
    using stream_blocks_run [of client iter rs "fst m" "snd m" "fst m'" "snd m'" sent] assms by simp
  ultimately have "sent_block ev \<in> Some ` set (new_blocks (fst m) rs)"
    by (metis image_eqI list.set_map)
  then show "\<exists>ps n. ev = PoolsTouched ps n" by (cases ev) (auto simp: sent_block_def)
qed

lemma start_workers_inv:
  assumes "world_ok W" "synced pools" "start_workers W heads pools l = Some (Ok s)"
  shows "run_inv W pools s"
proof -
  from assms(3) obtain kept m0 m1 m2 early sent sent' streaming rx grx es cycles tx_sender where
    kept: "filter_pools (wd_tokens W) (wd_token_order W) (wd_access_list W) (wd_node W)
             (wd_decoders W) (wd_nodedb W) pools 4000 = Ok kept"
    and cycles: "generate_cycles (wd_edges W) (wd_hash W) (wd_weth W) kept = Some (Ok cycles)"
    and sender: "transaction_sender_new (wd_setup W) = Ok tx_sender"
    and early: "stream_blocks (wd_client W) (wd_addr_iter W) (block_events early) m0 = Ok (m1, sent)"
      "stream_blocks (wd_client W) (wd_addr_iter W) (block_events streaming) m1 = Ok (m2, sent')"
    and s: "s = \<lparr>sy_streaming = True, sy_block_rx = rx, sy_updating = True, sy_gas_rx = grx,
       sy_gas_running = True, sy_market = m2, sy_unsent = [], sy_queue = sent @ sent',
       sy_searcher = searcher_new cycles es, sy_searching = None, sy_paths = [], sy_blacklist = {}, sy_valid = [], sy_gas = gas_station_new,
       sy_sender = tx_sender, sy_sent = []\<rparr>"
    by (auto simp: start_workers_def dbind_eq_Some_Inr Let_def split: prod.splits)
  have touched: "\<forall>ev \<in> set (sent @ sent'). \<exists>ps n. ev = PoolsTouched ps n"
    using stream_blocks_touched [OF early(1)] stream_blocks_touched [OF early(2)] by auto
  from filter_pools_kept [OF kept] have emb: "subseq kept pools" by blast
  have sub: "set kept \<subseteq> set pools" using list_emb_set [OF emb] by auto
  have "edge_order (wd_edges W)" using assms(1) by (simp add: world_ok_def)
  from generate_cycles_set [OF this, of "wd_weth W" kept "wd_hash W"] cycles
  have all: "set cycles = (\<lambda>steps. \<lparr>sp_steps = steps, sp_hash = wd_hash W steps\<rparr>) `
           {[pool_step p (wd_weth W) t, pool_step q t (wd_weth W)] |p q t.
              p \<in> set kept \<and> q \<in> set kept \<and> t \<noteq> wd_weth W \<and> trades p (wd_weth W) t
              \<and> trades q t (wd_weth W) \<and> pl_type p \<noteq> pl_type q}"
    by (simp split: if_splits)
  have arb: "arbitrage W pools path" if "path \<in> set cycles" for path
  proof -
    from that [unfolded all] obtain p q t where c: "p \<in> set kept" "q \<in> set kept" "t \<noteq> wd_weth W"
      "trades p (wd_weth W) t" "trades q t (wd_weth W)" "pl_type p \<noteq> pl_type q"
      "sp_steps path = [pool_step p (wd_weth W) t, pool_step q t (wd_weth W)]" by auto
    from c(1,2) sub have "p \<in> set pools" "q \<in> set pools" by auto
    with c(3-7) show ?thesis unfolding arbitrage_def by blast
  qed
  have nat: "natively_quoted cycles"
    unfolding natively_quoted_def
  proof (intro ballI)
    fix path st assume path: "path \<in> set cycles" and st: "st \<in> set (sp_steps path)"
    from arb [OF path] obtain p q t where "p \<in> set pools" "q \<in> set pools"
      "sp_steps path = [pool_step p (wd_weth W) t, pool_step q t (wd_weth W)]"
      unfolding arbitrage_def by blast
    with st assms(2) have "st_protocol st \<in> set synced_types"
      by (auto simp: synced_def pool_step_def)
    then show "native (st_protocol st)" by (rule synced_native)
  qed
  have "cm.sound R (se_cache (searcher_new cycles es))" for R
    unfolding searcher_new_def calculator_cache_def by (simp add: cm.sound_fresh)
  with arb nat touched show ?thesis
    by (auto simp: run_inv_def s searcher_ok_def searcher_new_def first_sender_def sender)
qed

subsection \<open>The steps keep the invariants\<close>

lemma pending_append: "pending (q @ q') p \<longleftrightarrow> pending q p \<or> pending q' p"
  by (auto simp: pending_def)

lemma stream_block_agree:
  assumes "stream_block client iter h (l, db) = Ok ((l', db'), sent)"
    and "\<And>A. finite A \<Longrightarrow> set (iter A) = A"
  shows "(reads_agree db db' p \<or> pending sent p) \<and> (\<forall>ev \<in> set sent. \<exists>ps n. ev = PoolsTouched ps n)"
proof (cases "hd_number h \<le> l")
  case True
  with assms(1) have "db' = db" "sent = []" by (auto simp: stream_block_def Let_def)
  then show ?thesis by (simp add: reads_agree_refl)
next
  case False
  with assms(1) obtain upd where u: "update_state client (hd_number h) db = Ok (db', upd)"
    and sent: "sent = [PoolsTouched (iter upd) (hd_number h)]"
    by (auto simp: stream_block_def Let_def rbind_eq_Inr)
  from u obtain rs where rs: "rfold apply_update (posts rs) (db, {}) = Ok (db', upd)"
    by (auto simp: update_state_eq split: option.splits)
  from apply_updates [of "posts rs" db "{}"] rs
  have upd: "upd = fst ` set (posts rs) \<inter> db_pools db"
    and agree: "\<forall>a. a \<notin> fst ` set (posts rs) \<inter> db_pools db \<longrightarrow> reads_agree db db' a"
    by (simp_all only: Un_empty_left sum.inject prod.inject) blast+
  have "set (iter upd) = upd" by (rule assms(2)) (simp add: upd)
  then have "pending sent p \<longleftrightarrow> p \<in> upd" by (auto simp: pending_def sent)
  with agree upd sent show ?thesis by auto
qed

lemma market_keeps:
  assumes "world_ok W" "run_inv W pools s" "sy_unsent s = []"
    and "stream_block (wd_client W) (wd_addr_iter W) h (sy_market s) = Ok (market, sent)"
  shows "run_inv W pools (s\<lparr>sy_market := market, sy_unsent := sent\<rparr>)"
proof -
  let ?s = "s\<lparr>sy_market := market, sy_unsent := sent\<rparr>"
  let ?cycles = "se_cycles (sy_searcher s)"
  obtain l db l' db' where m: "sy_market s = (l, db)" "market = (l', db')"
    by (cases "sy_market s", cases market)
  from assms(1) have iter: "\<And>A. finite A \<Longrightarrow> set (wd_addr_iter W A) = A"
    and aero: "cn_aero (wd_calc W) db' = cn_aero (wd_calc W) db" by (simp_all add: world_ok_def)
  note sb = stream_block_agree [OF assms(4) [unfolded m] iter]
  from assms(2) have nat: "natively_quoted ?cycles" by (simp add: run_inv_def)
  have "current_or_pending W ?s p x v" if old: "current_or_pending W s p x v" for p x v
  proof (cases "pending (sy_queue s @ sent) p")
    case True
    then show ?thesis by (simp add: current_or_pending_def)
  next
    case False
    then have "reads_agree db db' p" using sb [of p] by (simp add: pending_append)
    moreover from old False have "fresh_quote (wd_calc W) db ?cycles p x v"
      by (simp add: current_or_pending_def pending_append m assms(3))
    ultimately have "fresh_quote (wd_calc W) db' ?cycles p x v"
      using fresh_quote_agree [OF nat _ aero] by blast
    then show ?thesis by (simp add: current_or_pending_def m)
  qed
  with assms(2) have "cm.sound (current_or_pending W ?s) (se_cache (sy_searcher s))"
    by (auto simp: run_inv_def cm.sound_def)
  moreover have "\<forall>ev \<in> set sent. \<exists>ps n. ev = PoolsTouched ps n" using sb by blast
  ultimately show ?thesis using assms(2,3) by (auto simp: run_inv_def)
qed

lemma announce_keeps:
  assumes "run_inv W pools s" "sy_unsent s = ev # unsent"
  shows "run_inv W pools (s\<lparr>sy_unsent := unsent, sy_queue := sy_queue s @ [ev]\<rparr>)"
proof -
  have "current_or_pending W (s\<lparr>sy_unsent := unsent, sy_queue := sy_queue s @ [ev]\<rparr>) =
      current_or_pending W s"
    by (intro ext) (simp add: current_or_pending_def assms(2))
  with assms show ?thesis by (simp add: run_inv_def)
qed

lemma rates_keeps:
  assumes "world_ok W" "run_inv W pools s" "sy_queue s = PoolsTouched ps n # queue"
    and run: "search_rates (wd_calc W) (wd_invalidate W) (wd_weth W) (snd (sy_market s)) ps
       (sy_searcher s) = Some (Ok se')"
  shows "run_inv W pools
    (s\<lparr>sy_queue := queue, sy_searcher := se', sy_searching := Some (ps, n)\<rparr>)"
proof -
  let ?s = "s\<lparr>sy_queue := queue, sy_searcher := se', sy_searching := Some (ps, n)\<rparr>"
  let ?se = "sy_searcher s"
  from run have se': "se_cycles se' = se_cycles ?se" "se_path_index se' = se_path_index ?se"
    "se_min_profit se' = se_min_profit ?se" "se_cache se' = wd_invalidate W (se_cache ?se) ps"
    by (auto simp: search_rates_Ok)
  have "cm.sound (current_or_pending W ?s) (se_cache se')"
  proof (rule cm.sound_after_drop)
    show "cm.sound (current_or_pending W s) (se_cache ?se)" using assms(2) by (simp add: run_inv_def)
    show "cache_get (se_cache se') x p = (if p \<in> set ps then None else cache_get (se_cache ?se) x p)"
      for x p using assms(1) by (simp add: se' world_ok_def invalidate_law_def)
    show "current_or_pending W ?s p x v" if "p \<notin> set ps" "current_or_pending W s p x v" for p x v
      using that by (auto simp: current_or_pending_def pending_def assms(3) se')
  qed
  with assms(2,3) se' show ?thesis by (auto simp: run_inv_def searcher_ok_def)
qed

lemma search_keeps:
  assumes "world_ok W" "run_inv W pools s"
    and run: "search_best (wd_calc W) (wd_order W) (snd (sy_market s)) ps n (sy_searcher s) =
       Some (Ok (se', sent))"
  shows "run_inv W pools
    (s\<lparr>sy_searching := None, sy_searcher := se', sy_paths := sy_paths s @ sent\<rparr>)"
proof -
  let ?s = "s\<lparr>sy_searching := None, sy_searcher := se', sy_paths := sy_paths s @ sent\<rparr>"
  let ?se = "sy_searcher s" and ?E = "wd_calc W" and ?db = "snd (sy_market s)"
  let ?R = "current_or_pending W s"
  from assms(1) have laws: "order_law (wd_order W)" "cache_set_law (cn_cache_set ?E)"
    by (simp_all add: world_ok_def)
  from assms(2) have ok: "searcher_ok ?se" and sound: "cm.sound ?R (se_cache ?se)"
    by (simp_all add: run_inv_def)
  from ok have min: "se_min_profit ?se = 1010900000000000"
    by (simp add: searcher_ok_def min_profit_value)
  have step: "?R (st_pool st) x v" if "path \<in> set (se_cycles ?se)" "st \<in> set (sp_steps path)"
    "step_output ?E ?db st x = Some (Ok v)" for st path x v
    using step_output_fresh [OF that] by (simp add: current_or_pending_def)
  have inv: "run_inv W pools ?s" if "se_cycles se' = se_cycles ?se" "searcher_ok se'"
      "cm.sound ?R (se_cache se')" "\<forall>ev \<in> set sent. good_path W pools ev"
  proof -
    have "current_or_pending W ?s = ?R"
      by (intro ext) (simp add: current_or_pending_def that(1))
    with that assms(2) show ?thesis by (auto simp: run_inv_def)
  qed
  from ok laws run step sound show ?thesis
  proof (rule search_best_cases)
    assume "se_cycles se' = se_cycles ?se" "searcher_ok se'" "cm.sound ?R (se_cache se')" "sent = []"
    then show ?thesis by (intro inv) auto
  next
    fix path out c
    assume r: "se_cycles se' = se_cycles ?se" "searcher_ok se'" "cm.sound ?R (se_cache se')"
      and path: "path \<in> candidates (se_estimator ?se) (se_min_profit ?se) (se_cycles ?se) ps"
      and sent: "sent = (if se_min_profit ?se \<le> out then [ArbPath path out n] else [])"
    from path assms(2) have "arbitrage W pools path" by (auto simp: candidates_def run_inv_def)
    with sent min have "\<forall>ev \<in> set sent. good_path W pools ev" by (auto simp: good_path_def)
    with r show ?thesis by (intro inv)
  qed
qed

lemma profit_of_good:
  assumes "1010900000000000 \<le> (out :: u256)"
  shows "10900000000000 \<le> unat (out - AMOUNT)"
proof -
  have u: "1010900000000000 \<le> unat out" using assms by (simp add: word_le_nat_alt)
  then have "AMOUNT \<le> out" by (simp add: word_le_nat_alt)
  then have "unat (out - AMOUNT) = unat out - 10 ^ 15" by (simp add: unat_sub_exact)
  with u show ?thesis by simp
qed

lemma simulate_keeps:
  assumes "run_inv W pools s" "sy_paths s = ArbPath path out n # paths"
    and "simulate_path (wd_is_v3 W) (wd_calc W) (wd_dec W) (wd_sim W) (snd (sy_market s)) path out n
       (sy_blacklist s) = Some (Ok (bl, sent))"
  shows "run_inv W pools (s\<lparr>sy_paths := paths, sy_blacklist := bl, sy_valid := sy_valid s @ sent\<rparr>)"
proof -
  let ?s = "s\<lparr>sy_paths := paths, sy_blacklist := bl, sy_valid := sy_valid s @ sent\<rparr>"
  from assms(1,2) have path: "arbitrage W pools path" "1010900000000000 \<le> out"
    by (auto simp: run_inv_def good_path_def)
  have "good_valid W pools ev" if ev: "ev \<in> set sent" for ev
  proof -
    from simulate_path_cases [OF assms(3)] ev
    have "valid_message (wd_is_v3 W) (wd_calc W) (wd_dec W) (snd (sy_market s)) path out n ev" by auto
    then obtain input where "ev = ValidPath ((to_quoter_params (wd_is_v3 W) path)\<lparr>pr_amount_in := input\<rparr>)
        (out - AMOUNT) n" by (auto simp: valid_message_def Let_def)
    with path profit_of_good [OF path(2)] show ?thesis
      by (auto simp: good_valid_def to_quoter_params_eq)
  qed
  moreover have "current_or_pending W ?s = current_or_pending W s"
    by (intro ext) (simp add: current_or_pending_def)
  ultimately show ?thesis using assms(1,2) by (auto simp: run_inv_def)
qed

lemma good_priority_fee:
  assumes "get_gas_fees gs profit = Ok (mf, pf)" and "10900000000000 \<le> unat profit"
  shows "15571428 \<le> unat pf"
proof -
  from assms(1) have p: "unat profit < 2 ^ 129" "pf = ucast (profit div 2) div 350000"
    by (auto simp: get_gas_fees_value split: if_splits)
  have "(10900000000000 :: nat) div 700000 \<le> unat profit div 700000"
    by (rule div_le_mono) (rule assms(2))
  then show ?thesis unfolding p(2) priority_fee_value [OF p(1)] by simp
qed

lemma send_keeps:
  assumes "run_inv W pools s" "sy_valid s = ValidPath params profit n # valid"
    and "send_transaction (wd_sequencer W) (sy_gas s) params profit (sy_sender s) = Ok (sd, tx)"
  shows "run_inv W pools (s\<lparr>sy_valid := valid, sy_sender := sd, sy_sent := sy_sent s @ [tx]\<rparr>)"
proof -
  let ?s = "s\<lparr>sy_valid := valid, sy_sender := sd, sy_sent := sy_sent s @ [tx]\<rparr>"
  obtain t h where tx: "tx = (t, h)" by (cases tx)
  note sent = send_transaction_cases [OF assms(3) [unfolded tx]]
  then obtain mf pf where t: "get_gas_fees (sy_gas s) profit = Ok (mf, pf)"
    "t = \<lparr>tx_to = ts_contract (sy_sender s), tx_nonce = ts_nonce (sy_sender s),
          tx_gas_limit = 2000000, tx_chain_id = 8453, tx_max_fee = mf, tx_priority_fee = pf,
          tx_type = 2, tx_input = Execute_arbitrage (to_flash_swap params)\<rparr>"
    by (auto simp: build_transaction_cases)
  from assms(1,2) obtain path where path: "arbitrage W pools path"
    "pr_pools params = map st_pool (sp_steps path)" "10900000000000 \<le> unat profit"
    by (auto simp: run_inv_def good_valid_def)
  have "good_tx W pools t"
    using path t(2) good_priority_fee [OF t(1) path(3)] assms(1)
    by (auto simp: good_tx_def to_flash_swap_def run_inv_def)
  moreover have "current_or_pending W ?s = current_or_pending W s"
    by (intro ext) (simp add: current_or_pending_def)
  ultimately show ?thesis using assms(1,2) sent t(2)
    by (simp add: run_inv_def tx)
qed

text \<open>The channel of the headers and the gas station do not matter to the invariant.\<close>

lemma run_inv_headers [simp]:
  "run_inv W pools (s\<lparr>sy_streaming := b\<rparr>) = run_inv W pools s"
  "run_inv W pools (s\<lparr>sy_block_rx := rx\<rparr>) = run_inv W pools s"
  "run_inv W pools (s\<lparr>sy_updating := b\<rparr>) = run_inv W pools s"
  "run_inv W pools (s\<lparr>sy_gas_rx := rx\<rparr>) = run_inv W pools s"
  "run_inv W pools (s\<lparr>sy_gas_running := b\<rparr>) = run_inv W pools s"
  "run_inv W pools (s\<lparr>sy_gas := g\<rparr>) = run_inv W pools s"
proof -
  have "current_or_pending W (s\<lparr>sy_streaming := b\<rparr>) = current_or_pending W s"
    "current_or_pending W (s\<lparr>sy_block_rx := rx\<rparr>) = current_or_pending W s"
    "current_or_pending W (s\<lparr>sy_updating := b\<rparr>) = current_or_pending W s"
    "current_or_pending W (s\<lparr>sy_gas_rx := rx\<rparr>) = current_or_pending W s"
    "current_or_pending W (s\<lparr>sy_gas_running := b\<rparr>) = current_or_pending W s"
    "current_or_pending W (s\<lparr>sy_gas := g\<rparr>) = current_or_pending W s"
    by (intro ext; simp add: current_or_pending_def)+
  then show
    "run_inv W pools (s\<lparr>sy_streaming := b\<rparr>) = run_inv W pools s"
    "run_inv W pools (s\<lparr>sy_block_rx := rx\<rparr>) = run_inv W pools s"
    "run_inv W pools (s\<lparr>sy_updating := b\<rparr>) = run_inv W pools s"
    "run_inv W pools (s\<lparr>sy_gas_rx := rx\<rparr>) = run_inv W pools s"
    "run_inv W pools (s\<lparr>sy_gas_running := b\<rparr>) = run_inv W pools s"
    "run_inv W pools (s\<lparr>sy_gas := g\<rparr>) = run_inv W pools s"
    by (simp_all add: run_inv_def)
qed

lemma running_inv:
  assumes "world_ok W" "synced pools" "running W heads pools l s"
  shows "run_inv W pools s"
  using assms(3)
proof induction
  case (start s)
  with assms show ?case by (intro start_workers_inv)
next
  case (step s s')
  note inv = step.IH
  from step.hyps(2) show ?case
  proof cases
    case (market h rx market sent)
    with market_keeps [OF assms(1), of pools "s\<lparr>sy_block_rx := rx\<rparr>"] inv show ?thesis by simp
  next
    case (announce ev unsent)
    with announce_keeps [OF inv] show ?thesis by simp
  next
    case (rates ps n queue se')
    with rates_keeps [OF assms(1) inv] show ?thesis by simp
  next
    case (search ps n se' sent)
    with search_keeps [OF assms(1) inv] show ?thesis by simp
  next
    case (simulate path out n paths bl sent)
    with simulate_keeps [OF inv] show ?thesis by simp
  next
    case (send params profit n valid sd tx)
    with send_keeps [OF inv] show ?thesis by simp
  qed (use inv in simp_all)
qed

lemma fresh_without_messages:
  assumes "run_inv W pools s"
  shows "sy_queue s = [] \<and> sy_unsent s = [] \<longrightarrow>
     fresh_cache (wd_calc W) (snd (sy_market s)) (se_cycles (sy_searcher s)) (se_cache (sy_searcher s))"
proof -
  from assms have "cm.sound (current_or_pending W s) (se_cache (sy_searcher s))"
    by (simp add: run_inv_def)
  then show ?thesis by (auto simp: fresh_cache_sound cm.sound_def current_or_pending_def pending_def)
qed

end
