(* ===== verification/Quiescence.thy ===== *)
theory Quiescence
  imports Pipeline
begin

text \<open>
  Progress of the system of tasks: without new blocks the messages in the channels run out, in a
  number of steps that the messages bound, unless a task panics or does not return on the message
  it takes.
\<close>

subsection \<open>The work left\<close>

text \<open>Each message leads to at most one message of the next channel.\<close>

definition work :: "system \<Rightarrow> nat" where
  "work s = 5 * length (sy_unsent s) + 4 * length (sy_queue s)
     + (if sy_searching s = None then 0 else 3) + 2 * length (sy_paths s) + length (sy_valid s)"

definition quiet :: "system \<Rightarrow> bool" where
  "quiet s \<longleftrightarrow> sy_unsent s = [] \<and> sy_queue s = [] \<and> sy_searching s = None \<and> sy_paths s = []
     \<and> sy_valid s = []"

text \<open>A message is handled.\<close>

definition handles :: "'n world \<Rightarrow> system \<Rightarrow> system \<Rightarrow> bool" where
  "handles W s s' \<longleftrightarrow>
     worker_step W s s' \<and> sy_market s' = sy_market s \<and> sy_gas s' = sy_gas s \<and> work s' < work s"

text \<open>A task that neither returns nor leaves its message: it panics, or loops.\<close>

definition search_fails :: "'n world \<Rightarrow> system \<Rightarrow> bool" where
  "search_fails W s \<longleftrightarrow>
     (\<exists>ps n queue. sy_searching s = None \<and> sy_queue s = PoolsTouched ps n # queue
        \<and> (\<forall>r. search_rates (wd_calc W) (wd_invalidate W) (wd_weth W) (snd (sy_market s)) ps
                (sy_searcher s) \<noteq> Some (Ok r)))
   \<or> (\<exists>ps n. sy_searching s = Some (ps, n)
        \<and> (\<forall>r. search_best (wd_calc W) (wd_order W) (snd (sy_market s)) ps n
                (sy_searcher s) \<noteq> Some (Ok r)))"

definition simulation_fails :: "'n world \<Rightarrow> system \<Rightarrow> bool" where
  "simulation_fails W s \<longleftrightarrow>
     (\<exists>path out n paths. sy_paths s = ArbPath path out n # paths
        \<and> (\<forall>r. simulate_path (wd_is_v3 W) (wd_calc W) (wd_dec W) (wd_sim W) (snd (sy_market s))
                path out n (sy_blacklist s) \<noteq> Some (Ok r)))"

definition sending_fails :: "'n world \<Rightarrow> system \<Rightarrow> bool" where
  "sending_fails W s \<longleftrightarrow>
     (\<exists>params profit n valid. sy_valid s = ValidPath params profit n # valid
        \<and> (\<forall>r. send_transaction (wd_sequencer W) (sy_gas s) params profit (sy_sender s) \<noteq> Ok r))"

lemma search_best_sent:
  assumes "search_best E order db ps n se = Some (Ok (se', sent))"
  shows "length sent \<le> 1"
proof -
  from assms obtain paths where "affected_paths order se ps = Ok paths"
    by (auto simp: search_best_def dbind_eq_Some_Inr)
  with assms show ?thesis
    by (cases "estimated_profitable (se_estimator se) (se_min_profit se) paths")
      (auto simp: search_best_def Let_def split: option.splits prod.splits sum.splits)
qed

lemma simulate_path_sent:
  "simulate_path v3 E dec sim db path out n bl = Some (Ok (bl', sent)) \<Longrightarrow> length sent \<le> 1"
  using simulate_path_cases [of v3 E dec sim db path out n bl bl' sent] by auto

lemma handlesI:
  "worker_step W s s' \<Longrightarrow> sy_market s' = sy_market s \<Longrightarrow> sy_gas s' = sy_gas s \<Longrightarrow> work s' < work s
     \<Longrightarrow> handles W s s'"
  by (simp add: handles_def)

text \<open>A system with work left handles a message, or the task at a channel fails on its head.\<close>

lemma work_left:
  assumes "run_inv W pools s" "\<not> quiet s"
  shows "(\<exists>s'. handles W s s') \<or> search_fails W s \<or> simulation_fails W s \<or> sending_fails W s"
proof -
  from assms have "\<forall>ev \<in> set (sy_queue s). \<exists>ps n. ev = PoolsTouched ps n"
    "\<forall>ev \<in> set (sy_paths s). good_path W pools ev" "\<forall>ev \<in> set (sy_valid s). good_valid W pools ev"
    by (auto simp: run_inv_def)
  with assms(2) consider
      (unsent) ev unsent where "sy_unsent s = ev # unsent"
    | (searching) ps n where "sy_searching s = Some (ps, n)"
    | (queue) ps n queue where "sy_searching s = None" "sy_queue s = PoolsTouched ps n # queue"
    | (paths) path out n paths where "sy_paths s = ArbPath path out n # paths"
    | (valid) params profit n valid where "sy_valid s = ValidPath params profit n # valid"
    by (cases "sy_unsent s"; cases "sy_searching s"; cases "sy_queue s"; cases "sy_paths s";
        cases "sy_valid s")
      (auto simp: quiet_def good_path_def good_valid_def)
  then show ?thesis
  proof cases
    case unsent
    from handlesI [OF worker_step.announce [OF this]] this show ?thesis by (auto simp: work_def)
  next
    case searching
    show ?thesis
    proof (cases "search_fails W s")
      case False
      with searching obtain se' sent where r: "search_best (wd_calc W) (wd_order W)
          (snd (sy_market s)) ps n (sy_searcher s) = Some (Ok (se', sent))"
        unfolding search_fails_def by (metis surj_pair)
      from handlesI [OF worker_step.search [OF searching r]] searching search_best_sent [OF r]
      show ?thesis by (auto simp: work_def)
    qed simp
  next
    case queue
    show ?thesis
    proof (cases "search_fails W s")
      case False
      with queue obtain se' where r: "search_rates (wd_calc W) (wd_invalidate W) (wd_weth W)
          (snd (sy_market s)) ps (sy_searcher s) = Some (Ok se')"
        unfolding search_fails_def by blast
      from handlesI [OF worker_step.rates [OF queue r]] queue show ?thesis by (auto simp: work_def)
    qed simp
  next
    case paths
    show ?thesis
    proof (cases "simulation_fails W s")
      case False
      with paths obtain bl sent where r: "simulate_path (wd_is_v3 W) (wd_calc W) (wd_dec W) (wd_sim W)
          (snd (sy_market s)) path out n (sy_blacklist s) = Some (Ok (bl, sent))"
        unfolding simulation_fails_def by (metis surj_pair)
      from handlesI [OF worker_step.simulate [OF paths r]] paths simulate_path_sent [OF r]
      show ?thesis by (auto simp: work_def)
    qed simp
  next
    case valid
    show ?thesis
    proof (cases "sending_fails W s")
      case False
      with valid obtain sd tx where r: "send_transaction (wd_sequencer W) (sy_gas s) params profit
          (sy_sender s) = Ok (sd, tx)"
        unfolding sending_fails_def by (metis surj_pair)
      from handlesI [OF worker_step.send [OF valid r]] valid show ?thesis by (auto simp: work_def)
    qed simp
  qed
qed

lemma drains:
  assumes "world_ok W" "synced pools" "running W heads pools l s"
  shows "\<exists>n s'. n \<le> work s \<and> (handles W ^^ n) s s' \<and> running W heads pools l s'
     \<and> sy_market s' = sy_market s
     \<and> (quiet s' \<or> search_fails W s' \<or> simulation_fails W s' \<or> sending_fails W s')"
  using assms(3)
proof (induction "work s" arbitrary: s rule: less_induct)
  case less
  note inv = running_inv [OF assms(1,2) less.prems]
  show ?case
  proof (cases "quiet s \<or> search_fails W s \<or> simulation_fails W s \<or> sending_fails W s")
    case True
    with less.prems show ?thesis by (intro exI [of _ 0] exI [of _ s]) auto
  next
    case False
    with work_left [OF inv] obtain s1 where s1: "handles W s s1" by blast
    then have step: "worker_step W s s1" "sy_market s1 = sy_market s" "work s1 < work s"
      by (simp_all add: handles_def)
    from less.hyps [OF step(3) running.step [OF less.prems step(1)]] obtain n s' where
      n: "n \<le> work s1" "(handles W ^^ n) s1 s'" "running W heads pools l s'"
        "sy_market s' = sy_market s1"
        "quiet s' \<or> search_fails W s' \<or> simulation_fails W s' \<or> sending_fails W s'" by blast
    have "(handles W ^^ Suc n) s s'" using s1 n(2) by (rule relpowp_Suc_I2)
    with n step show ?thesis by (intro exI [of _ "Suc n"] exI [of _ s']) auto
  qed
qed

end
