(* ===== verification/BlockRuns.thy ===== *)
theory BlockRuns
  imports Quiescence
begin

text \<open>
  The headers and blocks of a run: what the queues of the broadcast channel hold, what the end of
  the updater's loop means for the rest of the run, and which blocks the database and the messages
  of the tasks stand for.
\<close>

subsection \<open>The queues of headers\<close>

text \<open>A queue holds headers only, but for the notice of a lag at its head, behind which at least
  100 headers wait.\<close>

definition header_queue :: "received list \<Rightarrow> bool" where
  "header_queue rx \<longleftrightarrow>
     (\<exists>hs. rx = block_events hs \<or> rx = Receive_error # block_events hs \<and> 100 \<le> length hs)"

lemma block_events_simps [simp]:
  "block_events [] = []" "block_events (h # hs) = Received (NewBlock h) # block_events hs"
  "block_events (hs @ hs') = block_events hs @ block_events hs'"
  "length (block_events hs) = length hs"
  by (simp_all add: block_events_def stream_new_blocks_def)

lemma block_events_drop: "drop n (block_events hs) = block_events (drop n hs)"
  by (simp add: block_events_def stream_new_blocks_def drop_map)

lemma header_queue_events: "header_queue (block_events hs)"
  by (auto simp: header_queue_def)

lemma header_queue_append:
  assumes "header_queue rx"
  shows "header_queue (rx @ block_events [h])"
proof -
  from assms obtain hs where
    "rx = block_events hs \<or> rx = Receive_error # block_events hs \<and> 100 \<le> length hs"
    by (auto simp: header_queue_def)
  then have "rx @ block_events [h] = block_events (hs @ [h])
      \<or> rx @ block_events [h] = Receive_error # block_events (hs @ [h]) \<and> 100 \<le> length (hs @ [h])"
    by auto
  then show ?thesis unfolding header_queue_def by blast
qed

lemma header_queue_pop: "header_queue (Received ev # rx) \<Longrightarrow> header_queue rx"
  by (auto simp: header_queue_def block_events_def stream_new_blocks_def)

lemma header_queue_lag:
  assumes "header_queue (lost @ kept)" "lost \<noteq> []" "100 \<le> length kept"
  shows "header_queue (Receive_error # kept)"
proof -
  from assms(1) obtain hs where
    "lost @ kept = block_events hs \<or> lost @ kept = Receive_error # block_events hs"
    by (auto simp: header_queue_def)
  then have "kept = block_events (drop (length lost) hs)
      \<or> kept = block_events (drop (length lost - 1) hs)"
  proof
    assume "lost @ kept = block_events hs"
    then have "drop (length lost) (block_events hs) = kept" by (metis append_eq_conv_conj)
    then show ?thesis by (simp add: block_events_drop)
  next
    assume e: "lost @ kept = Receive_error # block_events hs"
    with assms(2) obtain lost' where "lost = Receive_error # lost'" "lost' @ kept = block_events hs"
      by (cases lost) auto
    then have "drop (length lost - 1) (block_events hs) = kept"
      by (metis append_eq_conv_conj length_Cons diff_Suc_1)
    then show ?thesis by (simp add: block_events_drop)
  qed
  then obtain hs' where "kept = block_events hs'" by blast
  with assms(3) show ?thesis by (auto simp: header_queue_def)
qed

lemma header_queues:
  assumes "running W heads pools l s"
  shows "header_queue (sy_block_rx s) \<and> header_queue (sy_gas_rx s)"
  using assms
proof induction
  case (start s)
  then obtain hs hs' where "sy_block_rx s = block_events hs" "sy_gas_rx s = block_events hs'"
    by (auto simp: start_workers_def dbind_eq_Some_Inr Let_def split: prod.splits)
  then show ?case by (simp add: header_queue_events)
next
  case (step s s')
  from step.hyps(2) step.IH show ?case
    by cases (auto simp del: block_events_simps intro: header_queue_append header_queue_pop header_queue_lag)
qed

lemma loop_ends_queue:
  assumes "header_queue rx" "loop_ends streaming rx"
  shows "(\<exists>hs. rx = Receive_error # block_events hs \<and> 100 \<le> length hs) \<or> rx = [] \<and> \<not> streaming"
proof -
  from assms(1) obtain hs where
    "rx = block_events hs \<or> rx = Receive_error # block_events hs \<and> 100 \<le> length hs"
    by (auto simp: header_queue_def)
  then show ?thesis
  proof
    assume "rx = block_events hs"
    with assms(2) show ?thesis by (cases hs) (auto simp: loop_ends_def)
  qed blast
qed

subsection \<open>After the end of the updater's loop\<close>

text \<open>The messages on their way to a transaction.\<close>

definition under_way :: "system \<Rightarrow> nat" where
  "under_way s = length (sy_unsent s) + length (sy_queue s)
     + (if sy_searching s = None then 0 else 1) + length (sy_paths s) + length (sy_valid s)"

definition halted :: "u64 \<times> state_db \<Rightarrow> nat \<Rightarrow> system \<Rightarrow> bool" where
  "halted m n s \<longleftrightarrow>
     \<not> sy_updating s \<and> sy_market s = m \<and> length (sy_sent s) + under_way s \<le> n"

lemma halted_step:
  assumes "worker_step W s s'" "halted m n s"
  shows "halted m n s'"
  using assms(1)
proof cases
  case (search ps k se sent)
  with search_best_sent [OF search(3)] assms(2) show ?thesis by (simp add: halted_def under_way_def)
next
  case (simulate path out k paths bl sent)
  with simulate_path_sent [OF simulate(3)] assms(2) show ?thesis
    by (simp add: halted_def under_way_def)
qed (use assms(2) in \<open>simp_all add: halted_def under_way_def\<close>)

lemma halted_steps: "(worker_step W)\<^sup>*\<^sup>* s t \<Longrightarrow> halted m n s \<Longrightarrow> halted m n t"
  by (induction rule: rtranclp_induct) (auto intro: halted_step)

lemma streams:
  assumes "sy_streaming s"
  shows "(worker_step W)\<^sup>*\<^sup>* s
     (s\<lparr>sy_block_rx := sy_block_rx s @ block_events hs, sy_gas_rx := sy_gas_rx s @ block_events hs\<rparr>)"
proof (induction hs rule: rev_induct)
  case (snoc h hs)
  let ?s = "s\<lparr>sy_block_rx := sy_block_rx s @ block_events hs, sy_gas_rx := sy_gas_rx s @ block_events hs\<rparr>"
  have "worker_step W ?s (s\<lparr>sy_block_rx := sy_block_rx s @ block_events (hs @ [h]),
      sy_gas_rx := sy_gas_rx s @ block_events (hs @ [h])\<rparr>)"
    using worker_step.stream [of ?s W h] assms by (simp del: block_events_simps(2))
  with snoc.IH show ?case by (rule rtranclp.rtrancl_into_rtrancl)
qed simp

lemma running_steps: "(worker_step W)\<^sup>*\<^sup>* s t \<Longrightarrow> running W heads pools l s \<Longrightarrow> running W heads pools l t"
  by (induction rule: rtranclp_induct) (auto intro: running.step)

lemma updater_end:
  assumes "worker_step W s s'" "sy_updating s" "\<not> sy_updating s'"
  shows "s' = s\<lparr>sy_updating := False\<rparr> \<and> loop_ends (sy_streaming s) (sy_block_rx s)"
  using assms by cases simp_all

subsection \<open>The blocks of a run\<close>

text \<open>The number of the block that an event belongs to.\<close>

definition event_block :: "event \<Rightarrow> u64" where
  "event_block ev =
     (case ev of
        NewBlock h \<Rightarrow> hd_number h
      | PoolsTouched ps n \<Rightarrow> n
      | ArbPath path out n \<Rightarrow> n
      | ValidPath params profit n \<Rightarrow> n)"

text \<open>The database holds the blocks \<open>ns\<close> after \<open>m\<close>; the messages of the last of them are
  still to be taken by the searcher, and what follows from a message names its block.\<close>

definition blocks_inv :: "'n world \<Rightarrow> u64 \<Rightarrow> state_db \<Rightarrow> u64 list \<Rightarrow> system \<Rightarrow> bool" where
  "blocks_inv W m db0 ns s \<longleftrightarrow>
     sorted_wrt (<) (m # ns)
     \<and> apply_blocks (wd_client W) ns db0 = Ok (snd (sy_market s))
     \<and> fst (sy_market s) = last (m # ns)
     \<and> suffix (map sent_block (sy_queue s @ sy_unsent s)) (map Some ns)
     \<and> (\<forall>ps n. sy_searching s = Some (ps, n) \<longrightarrow> n \<in> set ns)
     \<and> event_block ` set (sy_paths s @ sy_valid s) \<subseteq> set ns"

lemma search_best_block:
  assumes "search_best E order db ps n se = Some (Ok (se', sent))"
  shows "event_block ` set sent \<subseteq> {n}"
proof -
  from assms obtain paths where "affected_paths order se ps = Ok paths"
    by (auto simp: search_best_def dbind_eq_Some_Inr)
  with assms show ?thesis
    by (cases "estimated_profitable (se_estimator se) (se_min_profit se) paths")
      (auto simp: search_best_def Let_def event_block_def split: option.splits prod.splits sum.splits)
qed

lemma simulate_path_block:
  "simulate_path v3 E dec sim db path out n bl = Some (Ok (bl', sent)) \<Longrightarrow> event_block ` set sent \<subseteq> {n}"
  using simulate_path_cases [of v3 E dec sim db path out n bl bl' sent]
  by (auto simp: valid_message_def event_block_def Let_def)

lemma sorted_wrt_less_last:
  "sorted_wrt (<) xs \<Longrightarrow> x \<in> set xs \<Longrightarrow> (x :: u64) \<le> last xs"
  by (induction xs) (auto split: if_splits intro: order_less_imp_le)

lemma sorted_wrt_less_join:
  assumes "sorted_wrt (<) (m # ns)" "sorted_wrt (<) (last (m # ns) # ns')"
  shows "sorted_wrt (<) ((m :: u64) # ns @ ns')"
proof -
  have "x < y" if "x \<in> set (m # ns)" "y \<in> set ns'" for x y
    using sorted_wrt_less_last [OF assms(1) that(1)] assms(2) that(2) by fastforce
  with assms show ?thesis by (auto simp: sorted_wrt_append)
qed

lemma stream_block_blocks:
  assumes "stream_block client iter h (last (m # ns), db) = Ok ((l', db'), sent)"
    and "sorted_wrt (<) (m # ns)" "apply_blocks client ns db0 = Ok db"
  shows "\<exists>ns'. set ns' \<subseteq> {hd_number h} \<and> sorted_wrt (<) (m # ns @ ns') \<and> l' = last (m # ns @ ns')
     \<and> apply_blocks client (ns @ ns') db0 = Ok db' \<and> map sent_block sent = map Some ns'"
proof (cases "hd_number h \<le> last (m # ns)")
  case True
  with assms show ?thesis by (intro exI [of _ "[]"]) (auto simp: stream_block_def Let_def)
next
  case False
  with assms(1) obtain upd where u: "update_state client (hd_number h) db = Ok (db', upd)"
    "sent = [PoolsTouched (iter upd) (hd_number h)]" "l' = hd_number h"
    by (auto simp: stream_block_def Let_def rbind_eq_Inr)
  have "x \<le> last (m # ns)" if "x \<in> set (m # ns)" for x
    using sorted_wrt_less_last [OF assms(2) that] .
  with False have "\<forall>x \<in> set (m # ns). x < hd_number h" by force
  with assms(2,3) u show ?thesis
    by (intro exI [of _ "[hd_number h]"])
      (auto simp: sorted_wrt_append apply_blocks_append sent_block_def, simp add: apply_blocks_def)
qed

lemma start_blocks:
  assumes "start_workers W heads pools l = Some (Ok s)"
  shows "\<exists>kept db0 db1 m ns. filter_pools (wd_tokens W) (wd_token_order W) (wd_access_list W)
       (wd_node W) (wd_decoders W) (wd_nodedb W) pools 4000 = Ok kept
     \<and> init_state (wd_calc W) (wd_revm W) (wd_commit W) (wd_quoter_code W) (wd_keccak_bytes W)
         (wd_runtime W) (wd_provider W) kept = Ok db0
     \<and> l \<le> m \<and> (\<exists>h \<le> m. Some h \<in> set heads)
     \<and> apply_blocks (wd_client W) (block_range l m) db0 = Ok db1 \<and> blocks_inv W m db1 ns s"
proof -
  let ?st = "stream_blocks (wd_client W) (wd_addr_iter W)"
  from assms obtain kept db0 db1 m rs m1 sent rs' m2 sent' streaming rx grx es cycles tx where
    kept: "filter_pools (wd_tokens W) (wd_token_order W) (wd_access_list W)
       (wd_node W) (wd_decoders W) (wd_nodedb W) pools 4000 = Ok kept"
    and db0: "init_state (wd_calc W) (wd_revm W) (wd_commit W) (wd_quoter_code W) (wd_keccak_bytes W)
         (wd_runtime W) (wd_provider W) kept = Ok db0"
    and caught: "catch_up (wd_client W) heads l db0 = Some (Ok (db1, m))"
    and run: "?st rs (m, db1) = Ok (m1, sent)" "?st rs' m1 = Ok (m2, sent')"
    and s: "s = \<lparr>sy_streaming = True, sy_block_rx = rx, sy_updating = True, sy_gas_rx = grx,
       sy_gas_running = True, sy_market = m2, sy_unsent = [], sy_queue = sent @ sent',
       sy_searcher = searcher_new cycles es, sy_searching = None, sy_paths = [], sy_blacklist = {},
       sy_valid = [], sy_gas = gas_station_new, sy_sender = tx, sy_sent = []\<rparr>"
    by (auto simp: start_workers_def dbind_eq_Some_Inr Let_def split: prod.splits)
  obtain l1 e1 l2 e2 where m: "m1 = (l1, e1)" "m2 = (l2, e2)" by (cases m1, cases m2)
  note r1 = stream_blocks_run [OF run(1) [unfolded m]]
    and r2 = stream_blocks_run [OF run(2) [unfolded m]]
  let ?ns1 = "new_blocks m rs" and ?ns2 = "new_blocks l1 rs'"
  have "sorted_wrt (<) (m # ?ns1 @ ?ns2)"
    using sorted_wrt_less_join [of m ?ns1 ?ns2] new_blocks_increasing [of m rs]
      new_blocks_increasing [of l1 rs'] r1 by simp
  with r1 r2 have "blocks_inv W m db1 (?ns1 @ ?ns2) s"
    by (auto simp: blocks_inv_def s m apply_blocks_append)
  with kept db0 catch_up_blocks [OF caught] show ?thesis by blast
qed

lemma blocks_step:
  assumes "worker_step W s s'" "blocks_inv W m db0 ns s"
  shows "\<exists>ns'. blocks_inv W m db0 ns' s'"
  using assms(1)
proof cases
  case (market rx h market sent)
  obtain db l' db' where m: "sy_market s = (last (m # ns), db)" "market = (l', db')"
    using assms(2) by (cases "sy_market s", cases market) (simp add: blocks_inv_def)
  from assms(2) m have inv: "sorted_wrt (<) (m # ns)" "apply_blocks (wd_client W) ns db0 = Ok db"
    "suffix (map sent_block (sy_queue s)) (map Some ns)"
    using market by (simp_all add: blocks_inv_def)
  from stream_block_blocks [OF _ inv(1,2)] market m obtain ns' where
    "sorted_wrt (<) (m # ns @ ns')" "l' = last (m # ns @ ns')"
    "apply_blocks (wd_client W) (ns @ ns') db0 = Ok db'" "map sent_block sent = map Some ns'"
    by metis
  with inv(3) assms(2) market m have "blocks_inv W m db0 (ns @ ns') s'"
    by (auto simp: blocks_inv_def)
  then show ?thesis ..
next
  case (rates ps n queue se)
  have "suffix (Some n # map sent_block (queue @ sy_unsent s)) (map Some ns)"
    using assms(2) rates by (simp add: blocks_inv_def sent_block_def)
  from suffix_ConsD [OF this] set_mono_suffix [OF this]
  have "suffix (map sent_block (queue @ sy_unsent s)) (map Some ns)" "n \<in> set ns" by auto
  with assms(2) rates have "blocks_inv W m db0 ns s'" by (simp add: blocks_inv_def)
  then show ?thesis ..
next
  case (search ps n se sent)
  with assms(2) have "n \<in> set ns" by (simp add: blocks_inv_def)
  with search_best_block [OF search(3)] assms(2) search have "blocks_inv W m db0 ns s'"
    by (auto simp: blocks_inv_def)
  then show ?thesis ..
next
  case (simulate path out n paths bl sent)
  then have "n \<in> set ns" using assms(2) by (simp add: blocks_inv_def event_block_def)
  with simulate_path_block [OF simulate(3)] assms(2) simulate have "blocks_inv W m db0 ns s'"
    by (auto simp: blocks_inv_def)
  then show ?thesis ..
qed (use assms(2) in \<open>auto simp: blocks_inv_def intro!: exI [of _ ns]\<close>)

lemma running_blocks:
  assumes "running W heads pools l s"
  shows "\<exists>kept db0 db1 m ns. filter_pools (wd_tokens W) (wd_token_order W) (wd_access_list W)
       (wd_node W) (wd_decoders W) (wd_nodedb W) pools 4000 = Ok kept
     \<and> init_state (wd_calc W) (wd_revm W) (wd_commit W) (wd_quoter_code W) (wd_keccak_bytes W)
         (wd_runtime W) (wd_provider W) kept = Ok db0
     \<and> l \<le> m \<and> (\<exists>h \<le> m. Some h \<in> set heads)
     \<and> apply_blocks (wd_client W) (block_range l m) db0 = Ok db1 \<and> blocks_inv W m db1 ns s"
  using assms
proof induction
  case (start s)
  then show ?case by (rule start_blocks)
next
  case (step s s')
  then show ?case using blocks_step [OF step.hyps(2)] by metis
qed

end
