(* ===== verification/ExampleRun.thy ===== *)
theory ExampleRun
  imports BlockRuns
begin

text \<open>
  A run of the whole system on concrete data: two pools with different prices are filtered,
  inserted and searched; a block touches one of them, the profitable cycle is found,
  quoted, optimised and sent. It shows that the properties of runs are not vacuous.
\<close>

subsection \<open>The world\<close>

definition pool_a :: pool where
  "pool_a =
     \<lparr>pl_address = 77, pl_token0 = 10, pl_token1 = 20, pl_decimals0 = 18, pl_decimals1 = 18,
      pl_type = UniswapV2, pl_fee = 0, pl_is_v2 = True, pl_is_v3 = False,
      pl_v2 = Some \<lparr>v2_reserve0 = 100000000000000000000, v2_reserve1 = 200000000000000000000,
                    v2_stable = None\<rparr>,
      pl_v3 = None, pl_variant = VSimple\<rparr>"

definition pool_b :: pool where
  "pool_b =
     \<lparr>pl_address = 78, pl_token0 = 10, pl_token1 = 20, pl_decimals0 = 18, pl_decimals1 = 18,
      pl_type = SushiSwapV2, pl_fee = 0, pl_is_v2 = True, pl_is_v3 = False,
      pl_v2 = Some \<lparr>v2_reserve0 = 100000000000000000000, v2_reserve1 = 100000000000000000000,
                    v2_stable = None\<rparr>,
      pl_v3 = None, pl_variant = VSimple\<rparr>"

lemma pool_ab_fields:
  "pl_address pool_a = 77" "pl_token0 pool_a = 10" "pl_token1 pool_a = 20" "pl_decimals0 pool_a = 18"
  "pl_decimals1 pool_a = 18" "pl_type pool_a = UniswapV2" "pl_fee pool_a = 0" "pl_is_v2 pool_a"
  "\<not> pl_is_v3 pool_a"
  "pl_address pool_b = 78" "pl_token0 pool_b = 10" "pl_token1 pool_b = 20" "pl_decimals0 pool_b = 18"
  "pl_decimals1 pool_b = 18" "pl_type pool_b = SushiSwapV2" "pl_fee pool_b = 0" "pl_is_v2 pool_b"
  "\<not> pl_is_v3 pool_b"
  by (simp_all add: pool_a_def pool_b_def)

text \<open>The tokens come from the cache file.\<close>

definition ex_service :: token_source where
  "ex_service = ex_tokens\<lparr>tk_cache_file := Some (Ok [10, 20])\<rparr>"

lemma ex_service_tokens: "get_top_volume_tokens ex_service n = Ok [10, 20]"
  by (simp add: get_top_volume_tokens_def ex_service_def)

text \<open>Every variable is set to the empty string; the node counts seven transactions.\<close>

definition ex_setup :: sender_setup where
  "ex_setup = \<lparr>su_env = (\<lambda>v. Some []), su_decode_hex = (\<lambda>s. Some []), su_secret_key = (\<lambda>k. True),
     su_client = True, su_warm_up = True, su_parse_url = (\<lambda>s. True),
     su_parse_address = (\<lambda>s. Some 99), su_transaction_count = (\<lambda>a. Some 7)\<rparr>"

lemma ex_sender_new: "transaction_sender_new ex_setup = Ok \<lparr>ts_contract = 99, ts_nonce = 7\<rparr>"
  by (simp add: transaction_sender_new_def ex_setup_def unwrap_answer_def unwrap_check_def)

text \<open>The block that arrives while the workers start: it reports the first pool, with no slot
  of it changed.\<close>

definition ex_block :: header where
  "ex_block = \<lparr>hd_number = 1, hd_base_fee = Some 5, hd_gas_used = 0, hd_gas_limit = 0\<rparr>"

definition ex_world :: "unit world" where
  "ex_world =
     \<lparr>wd_calc = ex_dust_env, wd_revm = ex_revm, wd_commit = (\<lambda>db caller target call. Ok db),
      wd_quoter_code = [], wd_keccak_bytes = (\<lambda>bs. 0), wd_runtime = True,
      wd_provider = ex_provider,
      wd_client = (\<lambda>n. Some [Trace_success (Pre_state_diff [(77, \<lparr>ts_storage = None\<rparr>)])]),
      wd_addr_iter = sorted_list_of_set, wd_edges = incident, wd_hash = (\<lambda>steps. 0),
      wd_weth = 10, wd_invalidate = (\<lambda>c ps. fold (\<lambda>p c. cache_invalidate c p) ps c),
      wd_order = remdups, wd_is_v3 = (\<lambda>ty. False), wd_dec = ex_dust_dec, wd_sim = False,
      wd_next_fee = (\<lambda>used limit base. base), wd_sequencer = ex_sequencer,
      wd_setup = ex_setup, wd_tokens = ex_service,
      wd_token_order = remdups, wd_access_list = (\<lambda>t. [(t, [4])]), wd_node = ex_node,
      wd_decoders = ex_decoders, wd_nodedb = (), wd_streamed = [ex_block], wd_gas_after = 0,
      wd_rates_after = 0, wd_cycles_after = 0\<rparr>"

lemma ex_world_fields:
  "wd_calc ex_world = ex_dust_env" "wd_revm ex_world = ex_revm"
  "wd_commit ex_world = (\<lambda>db caller target call. Ok db)"
  "wd_runtime ex_world" "wd_provider ex_world = ex_provider"
  "wd_client ex_world = (\<lambda>n. Some [Trace_success (Pre_state_diff [(77, \<lparr>ts_storage = None\<rparr>)])])"
  "wd_addr_iter ex_world = sorted_list_of_set" "wd_edges ex_world = incident"
  "wd_hash ex_world = (\<lambda>steps. 0)" "wd_weth ex_world = 10"
  "wd_invalidate ex_world = (\<lambda>c ps. fold (\<lambda>p c. cache_invalidate c p) ps c)"
  "wd_order ex_world = remdups" "wd_is_v3 ex_world = (\<lambda>ty. False)" "wd_dec ex_world = ex_dust_dec"
  "\<not> wd_sim ex_world" "wd_sequencer ex_world = ex_sequencer"
  "wd_setup ex_world = ex_setup" "wd_tokens ex_world = ex_service"
  "wd_token_order ex_world = remdups" "wd_access_list ex_world = (\<lambda>t. [(t, [4])])"
  "wd_node ex_world = ex_node" "wd_decoders ex_world = ex_decoders" "wd_nodedb ex_world = ()"
  "wd_streamed ex_world = [ex_block]" "wd_gas_after ex_world = 0" "wd_rates_after ex_world = 0"
  "wd_cycles_after ex_world = 0"
  by (simp_all add: ex_world_def)

lemma ex_first_sender: "first_sender ex_world = \<lparr>ts_contract = 99, ts_nonce = 7\<rparr>"
  by (simp add: first_sender_def ex_world_fields ex_sender_new)

lemma ex_world_ok: "world_ok ex_world"
proof -
  have "cache_set_law (cn_cache_set ex_dust_env)"
    using ex_set_law by (simp add: ex_dust_env_def ex_env_def)
  moreover have "cn_aero ex_dust_env db' = cn_aero ex_dust_env db" for db db'
    by (simp add: ex_dust_env_def ex_env_def)
  ultimately show ?thesis
    using invalidate_law_fold order_law_remdups edge_order_incident
    by (simp add: world_ok_def ex_world_fields)
qed

lemma ex_synced: "synced [pool_a, pool_b]"
  by (simp add: synced_def pool_ab_fields synced_types_def)

subsection \<open>Starting\<close>

lemma ex_filtered:
  "filter_pools ex_service remdups (\<lambda>t. [(t, [4])]) ex_node ex_decoders () [pool_a, pool_b] 4000 =
     Ok [pool_a, pool_b]"
proof -
  have m: "construct_slot_map (\<lambda>t. [(t, [4])]) [10, 20] = [10 \<mapsto> 4, 20 \<mapsto> 4]"
    by (simp add: construct_slot_map_def implementation_slot_def)
  have t: "token_match [10, 20] pool_a" "token_match [10, 20] pool_b"
    by (simp_all add: token_match_def pool_ab_fields BLACKLIST_def)
  have l: "pool_token_list remdups [pool_a, pool_b] = [10, 20]"
    by (simp add: pool_token_list_def pool_ab_fields)
  have "try_swap ex_node ex_decoders () p r V2Basic x z = Ok (Some AMOUNT)" for p r x z
    by (simp add: try_swap_def setup_router_calldata_def ex_node_def ex_decoders_def
        decode_swap_return_def)
  then have "filter_pool ex_node ex_decoders [10 \<mapsto> 4, 20 \<mapsto> 4] p () = Ok ((), True)"
    if "p = pool_a \<or> p = pool_b" for p
    using that
    by (elim disjE) (simp_all add: filter_pool_def pool_ab_fields router_of_def lower_bound_value
        ex_node_def AMOUNT_def)
  then show ?thesis by (simp add: filter_pools_def filter_by_swap_def ex_service_tokens t l m)
qed

lemma ex_insert_storage:
  assumes "db_provider db = ex_provider"
  shows "\<exists>db'. insert_account_storage ex_revm db a k v it = (Ok (), db') \<and> db_provider db' = ex_provider"
  using assms
  by (cases "db_accounts db a")
    (simp_all add: insert_account_storage_def basic_def basic_ref_def insert_slot_def
      insert_account_info_def put_account_def ex_provider_def)

lemma ex_warm_up:
  assumes "db_provider db = ex_provider"
  shows "\<exists>db'. warm_up_pool ex_dust_env ex_revm (\<lambda>db caller target call. Ok db) slot p db = Ok db'
     \<and> db_provider db' = ex_provider"
proof -
  from ex_insert_storage [OF assms] obtain db' where
    "insert_account_storage ex_revm db (pl_token0 p) slot 10000000000000000000 OnChain = (Ok (), db')"
    "db_provider db' = ex_provider" by blast
  then show ?thesis by (simp add: warm_up_pool_def ex_dust_env_def)
qed

lemma ex_populate:
  assumes "db_provider db = ex_provider" and "p = pool_a \<or> p = pool_b"
  shows "\<exists>db'. populate_pool kc ex_revm p db = Ok db' \<and> db_provider db' = ex_provider"
proof -
  from assms(2) obtain v2 where p: "pl_is_v2 p" "pl_v2 p = Some v2"
    by (auto simp: pool_a_def pool_b_def)
  have "has_account (add_pool ex_revm db p) (pl_address p)"
    using assms(1) by (simp add: add_pool_has_account basic_ref_def ex_provider_def)
  from sr.put_all_has [OF this] obtain db' where db': "insert_v2 ex_revm db p = Ok db'"
    unfolding insert_v2_eq p by auto
  moreover from this have "db_provider db' = ex_provider"
    using assms(1) p
    by (auto simp: insert_v2_def insert_reserves_def insert_token0_def insert_token1_def Let_def
        rbind_eq_Inr insert_slot_def put_account_def add_pool_fields)
  ultimately show ?thesis using p by (simp add: populate_pool_def)
qed

text \<open>The database after the initialisation, by what it reads.\<close>

definition ex_reads :: "state_db \<Rightarrow> bool" where
  "ex_reads db \<longleftrightarrow>
     db_pools db \<supseteq> {77, 78} \<and> get_pool db 77 = Ok pool_a \<and> get_pool db 78 = Ok pool_b
     \<and> get_reserves db 77 = Ok (100000000000000000000, 200000000000000000000)
     \<and> get_reserves db 78 = Ok (100000000000000000000, 100000000000000000000)"

lemma ex_init:
  "\<exists>db. init_state ex_dust_env ex_revm (\<lambda>db caller target call. Ok db) code kb True ex_provider
      [pool_a, pool_b] = Ok db \<and> ex_reads db"
proof -
  let ?commit = "\<lambda>db caller target call. Ok db"
  let ?db0 = "\<lparr>db_accounts = Map.empty, db_contracts = [rv_keccak_empty ex_revm \<mapsto> rv_default_code ex_revm],
              db_block_hashes = Map.empty, db_pools = {}, db_pool_info = Map.empty,
              db_provider = ex_provider\<rparr>"
  define info where "info = \<lparr>ai_balance = 0, ai_nonce = 0, ai_code_hash = kb code, ai_code = Some code\<rparr>"
  define slot where "slot = hashed_slot (cn_keccak ex_dust_env) 3 (ucast quote_caller)"
  define db1 where "db1 = insert_account_info ex_revm ?db0 quoter_address info Custom"
  have "db_provider db1 = ex_provider"
    by (simp add: db1_def insert_account_info_def put_account_def)
  from ex_warm_up [OF this, of slot pool_a] obtain db2 where db2:
    "warm_up_pool ex_dust_env ex_revm ?commit slot pool_a db1 = Ok db2" "db_provider db2 = ex_provider"
    by blast
  from ex_warm_up [OF db2(2), of slot pool_b] obtain db3 where db3:
    "warm_up_pool ex_dust_env ex_revm ?commit slot pool_b db2 = Ok db3" "db_provider db3 = ex_provider"
    by blast
  have warm: "warm_up_database ex_dust_env ex_revm ?commit code kb [pool_a, pool_b] ?db0 = Ok db3"
    using db2(1) db3(1)
    by (simp add: warm_up_database_def slot_def [symmetric] info_def [symmetric] db1_def [symmetric])
  let ?kc = "cn_keccak ex_dust_env"
  from ex_populate [OF db3(2), of pool_a ?kc] obtain db4 where db4:
    "populate_pool ?kc ex_revm pool_a db3 = Ok db4" "db_provider db4 = ex_provider" by auto
  from ex_populate [OF db4(2), of pool_b ?kc] obtain db5 where db5:
    "populate_pool ?kc ex_revm pool_b db4 = Ok db5" by auto
  have pop: "populate_db_with_pools ?kc ex_revm [pool_a, pool_b] db3 = Ok db5"
    using db4(1) db5 by (simp add: populate_db_with_pools_def)
  have "state_db_new ex_revm True ex_provider = Some ?db0" by (simp add: state_db_new_def)
  with warm pop have "init_state ex_dust_env ex_revm ?commit code kb True ex_provider [pool_a, pool_b] =
      Ok db5"
    by (simp add: init_state_def)
  moreover have "ex_reads db5"
  proof -
    from populate_db_effect [OF pop] have t: "tracking_pool db5 77" "get_pool db5 77 = Ok pool_a"
      "tracking_pool db5 78" "get_pool db5 78 = Ok pool_b"
      by (simp_all add: pool_ab_fields)
    have v: "pl_v2 pool_a = Some \<lparr>v2_reserve0 = 100000000000000000000,
        v2_reserve1 = 200000000000000000000, v2_stable = None\<rparr>"
      "pl_v2 pool_b = Some \<lparr>v2_reserve0 = 100000000000000000000,
        v2_reserve1 = 100000000000000000000, v2_stable = None\<rparr>"
      by (simp_all add: pool_a_def pool_b_def)
    from populate_db_effect [OF pop] have
      "get_reserves db5 77 = Ok (100000000000000000000, 200000000000000000000)"
      "get_reserves db5 78 = Ok (100000000000000000000, 100000000000000000000)"
      by (simp_all add: pool_ab_fields v)
    with t show ?thesis by (simp add: ex_reads_def tracking_pool_def)
  qed
  ultimately show ?thesis by blast
qed

subsection \<open>Quotes and rates\<close>

lemma ex_reads_zto:
  assumes "ex_reads db"
  shows "zero_to_one db 77 t = Some (t = 10)" "zero_to_one db 78 t = Some (t = 10)"
  using assms by (auto simp: ex_reads_def get_pool_def zero_to_one_def pool_ab_fields)

lemma ex_run_quotes:
  assumes "ex_reads db"
  shows "compute_amount_out E db AMOUNT 77 10 UniswapV2 0 = Some (Ok 1993980120018203)"
    and "compute_amount_out E db 1993980120018203 77 20 UniswapV2 0 = Some (Ok 993989209585377)"
    and "compute_amount_out E db AMOUNT 78 10 SushiSwapV2 0 = Some (Ok 996990060009101)"
    and "compute_amount_out E db 996990060009101 78 20 SushiSwapV2 0 = Some (Ok 993989209585377)"
    and "compute_amount_out E db 1993980120018203 78 20 SushiSwapV2 0 = Some (Ok 1987958659076193)"
  using assms
  by (simp_all add: compute_amount_out_def uniswap_v2_out_def ex_reads_zto [OF assms]
      ex_reads_def AMOUNT_def udiv_def Let_def)

lemma ex_run_rates:
  "calculate_rate AMOUNT 1993980120018203 18 18 = Ok 1993980120018203000"
  "calculate_rate 1993980120018203 993989209585377 18 18 = Ok 498495044963789756"
  "calculate_rate AMOUNT 996990060009101 18 18 = Ok 996990060009101000"
  "calculate_rate 996990060009101 993989209585377 18 18 = Ok 996990089927580013"
  by (simp_all add: calculate_rate_def scale_to_rate_def checked_ratio_def checked_mul_def
      checked_div_def AMOUNT_def)

definition ex_rates_known :: "estimator \<Rightarrow> bool" where
  "ex_rates_known es \<longleftrightarrow>
     rate_of es 77 10 = Some 1993980120018203000 \<and> rate_of es 77 20 = Some 498495044963789756
     \<and> rate_of es 78 10 = Some 996990060009101000 \<and> rate_of es 78 20 = Some 996990089927580013"

lemma rate_of_aggregated [simp]: "rate_of (es\<lparr>es_aggregated := g\<rparr>) a t = rate_of es a t"
  by (rule rate_of_cong) simp

lemma rate_of_decimals [simp]: "rate_of (es\<lparr>es_decimals := g\<rparr>) a t = rate_of es a t"
  by (rule rate_of_cong) simp

lemma rate_of_weth_based [simp]: "rate_of (es\<lparr>es_weth_based := g\<rparr>) a t = rate_of es a t"
  by (rule rate_of_cong) simp

lemma ex_process:
  assumes "ex_reads db"
  shows "\<exists>st'. process_weth_based E db 10 pool_a st = Some (Ok st') \<and>
      (\<forall>a t. rate_of (ep_es st') a t =
         (if a = 77 \<and> t = 20 then Some 498495044963789756
          else if a = 77 \<and> t = 10 then Some 1993980120018203000 else rate_of (ep_es st) a t))"
    and "\<exists>st'. process_weth_based E db 10 pool_b st = Some (Ok st') \<and>
      (\<forall>a t. rate_of (ep_es st') a t =
         (if a = 78 \<and> t = 20 then Some 996990089927580013
          else if a = 78 \<and> t = 10 then Some 996990060009101000 else rate_of (ep_es st) a t))"
proof -
  have d: "ucast (18 :: u8) = (18 :: u32)" by simp
  note s = process_weth_based_def process_eth_pool_def pool_ab_fields compute_pool_output_def
    ex_run_quotes [OF assms] ex_run_rates decimals_or_18_def rate_of_insert Let_def d
  show "\<exists>st'. process_weth_based E db 10 pool_a st = Some (Ok st') \<and>
      (\<forall>a t. rate_of (ep_es st') a t =
         (if a = 77 \<and> t = 20 then Some 498495044963789756
          else if a = 77 \<and> t = 10 then Some 1993980120018203000 else rate_of (ep_es st) a t))"
    by (simp add: s)
  show "\<exists>st'. process_weth_based E db 10 pool_b st = Some (Ok st') \<and>
      (\<forall>a t. rate_of (ep_es st') a t =
         (if a = 78 \<and> t = 20 then Some 996990089927580013
          else if a = 78 \<and> t = 10 then Some 996990060009101000 else rate_of (ep_es st) a t))"
    by (simp add: s)
qed

lemma rate_of_average [simp]: "rate_of (average_rates st) a t = rate_of (ep_es st) a t"
  by (rule rate_of_cong) (simp add: average_rates_def)

lemma ex_run_processed:
  assumes "ex_reads db"
  shows "\<exists>es'. process_pools E db 10 [pool_a, pool_b] es = Some (Ok es') \<and> ex_rates_known es'"
    and "ex_rates_known es \<Longrightarrow>
      \<exists>es'. update_rates E db 10 [77] es = Some (Ok es') \<and> ex_rates_known es'"
proof -
  let ?st = "\<lambda>es. \<lparr>ep_es = es, ep_alts = {}, ep_counts = Map.empty\<rparr>"
  have w: "is_weth_pool 10 pool_a" "is_weth_pool 10 pool_b"
    by (simp_all add: is_weth_pool_def pool_ab_fields)
  from ex_process(1) [OF assms, of E "?st es"] obtain st1 where st1:
    "process_weth_based E db 10 pool_a (?st es) = Some (Ok st1)"
    "\<forall>a t. rate_of (ep_es st1) a t =
         (if a = 77 \<and> t = 20 then Some 498495044963789756
          else if a = 77 \<and> t = 10 then Some 1993980120018203000 else rate_of es a t)" by auto
  from ex_process(2) [OF assms, of E st1] obtain st2 where st2:
    "process_weth_based E db 10 pool_b st1 = Some (Ok st2)"
    "\<forall>a t. rate_of (ep_es st2) a t =
         (if a = 78 \<and> t = 20 then Some 996990089927580013
          else if a = 78 \<and> t = 10 then Some 996990060009101000 else rate_of (ep_es st1) a t)"
    by blast
  have "process_pools E db 10 [pool_a, pool_b] es = Some (Ok (average_rates st2))"
    using st1(1) st2(1) w by (simp add: process_pools_def)
  moreover have "ex_rates_known (average_rates st2)"
    using st1(2) st2(2) by (simp add: ex_rates_known_def)
  ultimately show "\<exists>es'. process_pools E db 10 [pool_a, pool_b] es = Some (Ok es') \<and> ex_rates_known es'"
    by blast
  assume es: "ex_rates_known es"
  have "get_pools db [77] = Ok [pool_a]" using assms by (simp add: get_pools_def ex_reads_def)
  with st1(1) w have "update_rates E db 10 [77] es = Some (Ok (average_rates st1))"
    by (simp add: update_rates_def process_pools_def)
  moreover have "ex_rates_known (average_rates st1)"
    using st1(2) es by (simp add: ex_rates_known_def)
  ultimately show "\<exists>es'. update_rates E db 10 [77] es = Some (Ok es') \<and> ex_rates_known es'" by blast
qed

subsection \<open>Cycles\<close>

definition cycle_ab :: swap_path where
  "cycle_ab = \<lparr>sp_steps = [pool_step pool_a 10 20, pool_step pool_b 20 10], sp_hash = 0\<rparr>"

definition cycle_ba :: swap_path where
  "cycle_ba = \<lparr>sp_steps = [pool_step pool_b 10 20, pool_step pool_a 20 10], sp_hash = 0\<rparr>"

lemma ex_run_cycles:
  "generate_cycles incident (\<lambda>steps. 0) 10 [pool_a, pool_b] = Some (Ok [cycle_ab, cycle_ba])"
proof -
  let ?g = "\<lparr>gr_nodes = [10, 20], gr_edges = [(0, 1, pool_a), (0, 1, pool_b)]\<rparr>"
  have "build_graph [pool_a, pool_b] = Ok ?g" by code_simp
  moreover have "find_node ?g 10 = Some 0" by code_simp
  moreover have "find_all_arbitrage_paths incident ?g 0 2 = Some [sp_steps cycle_ab, sp_steps cycle_ba]"
    by code_simp
  ultimately show ?thesis by (simp add: generate_cycles_def cycle_ab_def cycle_ba_def)
qed

lemma ex_start:
  "\<exists>db es. start_workers ex_world [Some 0] [pool_a, pool_b] 0 =
     Some (Ok \<lparr>sy_streaming = True, sy_block_rx = block_events [ex_block], sy_updating = True,
               sy_gas_rx = block_events [ex_block], sy_gas_running = True, sy_market = (0, db), sy_unsent = [], sy_queue = [], sy_searcher = searcher_new [cycle_ab, cycle_ba] es,
               sy_searching = None, sy_paths = [], sy_blacklist = {}, sy_valid = [], sy_gas = gas_station_new,
               sy_sender = \<lparr>ts_contract = 99, ts_nonce = 7\<rparr>, sy_sent = []\<rparr>)
     \<and> ex_reads db \<and> ex_rates_known es"
proof -
  obtain db where db: "init_state ex_dust_env ex_revm (\<lambda>db caller target call. Ok db)
      (wd_quoter_code ex_world) (wd_keccak_bytes ex_world) True ex_provider [pool_a, pool_b] = Ok db"
    "ex_reads db" using ex_init by blast
  obtain es where es: "process_pools ex_dust_env db 10 [pool_a, pool_b] estimator_new = Some (Ok es)"
    "ex_rates_known es" using ex_run_processed(1) [OF db(2)] by blast
  show ?thesis
    using db es
    by (intro exI [of _ db] exI [of _ es])
      (simp add: start_workers_def ex_world_fields ex_filtered ex_run_cycles ex_sender_new)
qed

subsection \<open>Running\<close>

lemma ex_market:
  assumes "ex_reads db"
  shows "stream_block (wd_client ex_world) (wd_addr_iter ex_world) ex_block (0, db) =
     Ok ((1, db), [PoolsTouched [77] 1])"
proof -
  have "77 \<in> db_pools db" using assms by (simp add: ex_reads_def)
  then have "update_state (wd_client ex_world) 1 db = Ok (db, {77})"
    by (simp add: ex_world_fields update_state_eq apply_update_def update_all_slots_def tracking_pool_def)
  then show ?thesis
    by (simp add: stream_block_def ex_block_def ex_world_fields)
qed

lemma ex_estimates:
  assumes "ex_rates_known es"
  shows "estimate_output_amount es cycle_ab = 1987978419170754"
    and "estimate_output_amount es cycle_ba = 496994604792688"
  using assms
  by (simp_all add: estimate_output_amount_def cycle_ab_def cycle_ba_def pool_step_def pool_ab_fields
      ex_rates_known_def estimate_steps_rate AMOUNT_def checked_ratio_def checked_mul_def
      checked_div_def del: estimate_steps.simps(2))

lemma ex_calculate:
  assumes "ex_reads db" and "\<And>x k. cache_get c x k = None"
  shows "\<exists>c'. calculate_output ex_dust_env db cycle_ab c = Some (Ok 1987958659076193, c')
     \<and> cache_get c' AMOUNT 77 = Some 1993980120018203"
proof -
  have set: "cache_set_law (cn_cache_set ex_dust_env)"
    using ex_world_ok by (simp add: world_ok_def ex_world_fields)
  have "step_output ex_dust_env db (pool_step pool_a 10 20) AMOUNT = Some (Ok 1993980120018203)"
    "step_output ex_dust_env db (pool_step pool_b 20 10) 1993980120018203 = Some (Ok 1987958659076193)"
    by (simp_all add: step_output_def pool_step_def pool_ab_fields ex_run_quotes [OF assms(1)])
  with set assms(2) show ?thesis
    by (simp add: calculate_output_def cycle_ab_def pool_step_def pool_ab_fields cache_set_law_def Let_def)
qed

lemma ex_search:
  assumes "ex_reads db" and "ex_rates_known es"
  shows "\<exists>se se'. search_rates ex_dust_env (wd_invalidate ex_world) 10 db [77]
       (searcher_new [cycle_ab, cycle_ba] es) = Some (Ok se)
     \<and> search_best ex_dust_env remdups db [77] 1 se =
         Some (Ok (se', [ArbPath cycle_ab 1987958659076193 1]))
     \<and> cache_get (se_cache se') AMOUNT 77 = Some 1993980120018203"
proof -
  let ?s = "searcher_new [cycle_ab, cycle_ba] es" and ?inv = "wd_invalidate ex_world"
  obtain es' where es': "update_rates ex_dust_env db 10 [77] es = Some (Ok es')" "ex_rates_known es'"
    using ex_run_processed(2) [OF assms] by blast
  let ?se = "?s\<lparr>se_cache := ?inv (se_cache ?s) [77], se_estimator := es'\<rparr>"
  have aff: "affected_paths remdups ?se [77] = Ok [cycle_ab, cycle_ba]"
    by (simp add: affected_paths_def touched_indices_def searcher_new_def index_paths_def
        push_index_def path_refs_def cycle_ab_def cycle_ba_def pool_step_def pool_ab_fields map_filter_simps)
  have prof: "estimated_profitable es' (se_min_profit ?s) [cycle_ab, cycle_ba] =
      [(cycle_ab, 1987978419170754)]"
    by (simp add: estimated_profitable_def map_filter_simps ex_estimates [OF es'(2)] searcher_new_def
        min_profit_value Let_def)
  have "cache_get (?inv (se_cache ?s) [77]) x k = None" for x k
    by (simp add: ex_world_fields searcher_new_def calculator_cache_def cache_get_def cache_new_def
        cache_invalidate_def)
  then obtain c where calc: "calculate_output ex_dust_env db cycle_ab (?inv (se_cache ?s) [77]) =
      Some (Ok 1987958659076193, c)" "cache_get c AMOUNT 77 = Some 1993980120018203"
    using ex_calculate [OF assms(1)] by blast
  have min: "se_min_profit ?s \<le> 1987958659076193" by (simp add: searcher_new_def min_profit_value)
  have "se_estimator ?s = es" by (simp add: searcher_new_def)
  with es'(1) have "search_rates ex_dust_env ?inv 10 db [77] ?s = Some (Ok ?se)"
    by (simp add: search_rates_def)
  moreover have "search_best ex_dust_env remdups db [77] 1 ?se =
      Some (Ok (?se\<lparr>se_cache := c\<rparr>, [ArbPath cycle_ab 1987958659076193 1]))"
    unfolding search_best_def aff by (simp add: prof calc(1) min)
  ultimately show ?thesis using calc(2) by (intro exI conjI) (assumption | simp)+
qed

lemma ex_simulate:
  "simulate_path (\<lambda>ty. False) ex_dust_env ex_dust_dec False db path out n {} =
     Some (Ok ({}, [ValidPath (to_quoter_params (\<lambda>ty. False) path) (out - AMOUNT) n]))"
  using ex_dust_run [of "\<lambda>ty. False" path out n db] by (auto simp: dbind_eq_Some_Inr)

lemma ex_send:
  assumes "unat profit < 2 ^ 128"
  shows "\<exists>sender tx. send_transaction ex_sequencer gas_station_new params profit st = Ok (sender, (tx, None))"
  using assms
  by (simp add: send_transaction_def build_transaction_def get_gas_fees_value ex_sequencer_def Let_def)

text \<open>The states of the run, by the parts that change.\<close>

definition ex_state ::
  "header list \<Rightarrow> u64 \<times> state_db \<Rightarrow> event list \<Rightarrow> event list \<Rightarrow> searcher \<Rightarrow> (address list \<times> u64) option \<Rightarrow>
     event list \<Rightarrow> event list \<Rightarrow> transaction_sender \<Rightarrow> (transaction_request \<times> b256 option) list \<Rightarrow>
     system"
where
  "ex_state hs m unsent queue se sg paths valid sd sent =
     \<lparr>sy_streaming = True, sy_block_rx = block_events hs, sy_updating = True,
      sy_gas_rx = block_events [ex_block], sy_gas_running = True, sy_market = m, sy_unsent = unsent, sy_queue = queue, sy_searcher = se, sy_searching = sg,
      sy_paths = paths, sy_blacklist = {}, sy_valid = valid, sy_gas = gas_station_new,
      sy_sender = sd, sy_sent = sent\<rparr>"

abbreviation ex_running :: "system \<Rightarrow> bool" where
  "ex_running \<equiv> running ex_world [Some 0] [pool_a, pool_b] 0"

abbreviation ex_path_message :: event where
  "ex_path_message \<equiv> ArbPath cycle_ab 1987958659076193 1"

text \<open>From the start to the found path.\<close>

lemma ex_found:
  "\<exists>db se. ex_running (ex_state [] (1, db) [] [] se None [ex_path_message] []
        \<lparr>ts_contract = 99, ts_nonce = 7\<rparr> [])
     \<and> cache_get (se_cache se) AMOUNT 77 = Some 1993980120018203"
proof -
  let ?sd = "\<lparr>ts_contract = 99, ts_nonce = 7\<rparr>" and ?touched = "PoolsTouched [77] 1"
  obtain db es where start: "start_workers ex_world [Some 0] [pool_a, pool_b] 0 =
     Some (Ok (ex_state [ex_block] (0, db) [] [] (searcher_new [cycle_ab, cycle_ba] es) None [] [] ?sd []))"
    and reads: "ex_reads db" "ex_rates_known es" using ex_start unfolding ex_state_def by blast
  obtain se se' where se: "search_rates ex_dust_env (wd_invalidate ex_world) 10 db [77]
       (searcher_new [cycle_ab, cycle_ba] es) = Some (Ok se)"
      "search_best ex_dust_env remdups db [77] 1 se = Some (Ok (se', [ex_path_message]))"
    and cache: "cache_get (se_cache se') AMOUNT 77 = Some 1993980120018203"
    using ex_search [OF reads] by blast
  let ?se0 = "searcher_new [cycle_ab, cycle_ba] es"
  let ?s0 = "ex_state [ex_block] (0, db) [] [] ?se0 None [] [] ?sd []"
    and ?s1 = "ex_state [] (1, db) [?touched] [] ?se0 None [] [] ?sd []"
    and ?s2 = "ex_state [] (1, db) [] [?touched] ?se0 None [] [] ?sd []"
    and ?s3 = "ex_state [] (1, db) [] [] se (Some ([77], 1)) [] [] ?sd []"
    and ?s4 = "ex_state [] (1, db) [] [] se' None [ex_path_message] [] ?sd []"
  have "worker_step ex_world ?s0 ?s1"
    using worker_step.market [of ?s0 ex_block "[]" ex_world] ex_market [OF reads(1)]
    by (simp add: ex_state_def)
  moreover have "worker_step ex_world ?s1 ?s2"
    using worker_step.announce [of ?s1 ?touched "[]" ex_world] by (simp add: ex_state_def)
  moreover have "worker_step ex_world ?s2 ?s3"
    using worker_step.rates [of ?s2 "[77]" 1 "[]" ex_world] se(1)
    by (simp add: ex_state_def ex_world_fields)
  moreover have "worker_step ex_world ?s3 ?s4"
    using worker_step.search [of ?s3 "[77]" 1 ex_world] se(2)
    by (simp add: ex_state_def ex_world_fields)
  moreover have "ex_running ?s0" using start by (rule running.start)
  ultimately have "ex_running ?s4" by (blast intro: running.step)
  with cache show ?thesis by blast
qed

text \<open>The whole run: one block leads to one path and to one transaction, and the queues are
  empty again.\<close>

lemma ex_run:
  "\<exists>s s' tx. ex_running s \<and> sy_paths s = [ex_path_message]
     \<and> ex_running s' \<and> quiet s' \<and> sy_sent s' = [(tx, None)]
     \<and> cache_get (se_cache (sy_searcher s')) AMOUNT 77 = Some 1993980120018203"
proof -
  let ?sd = "\<lparr>ts_contract = 99, ts_nonce = 7\<rparr>"
  obtain db se where found: "ex_running (ex_state [] (1, db) [] [] se None [ex_path_message] [] ?sd [])"
    and cache: "cache_get (se_cache se) AMOUNT 77 = Some 1993980120018203" using ex_found by blast
  let ?params = "to_quoter_params (\<lambda>ty. False) cycle_ab" and ?profit = "1987958659076193 - AMOUNT"
  have "unat ?profit < 2 ^ 128" by (simp add: AMOUNT_def)
  then obtain sender tx where send: "send_transaction ex_sequencer gas_station_new ?params ?profit ?sd =
      Ok (sender, (tx, None))"
    using ex_send by blast
  let ?s4 = "ex_state [] (1, db) [] [] se None [ex_path_message] [] ?sd []"
    and ?s5 = "ex_state [] (1, db) [] [] se None [] [ValidPath ?params ?profit 1] ?sd []"
    and ?s6 = "ex_state [] (1, db) [] [] se None [] [] sender [(tx, None)]"
  have "worker_step ex_world ?s4 ?s5"
    using worker_step.simulate [of ?s4 cycle_ab 1987958659076193 1 "[]" ex_world]
      ex_simulate [of db cycle_ab 1987958659076193 1]
    by (simp add: ex_state_def ex_world_fields)
  moreover have "worker_step ex_world ?s5 ?s6"
    using worker_step.send [of ?s5 ?params ?profit 1 "[]" ex_world] send
    by (simp add: ex_state_def ex_world_fields)
  ultimately have "ex_running ?s6" using found by (blast intro: running.step)
  with cache found show ?thesis
    by (intro exI [of _ ?s4] exI [of _ ?s6] exI [of _ tx]) (simp add: ex_state_def quiet_def)
qed

text \<open>Another run: 100 further headers arrive before the updater takes the first one.\<close>

lemma ex_lag:
  "\<exists>s. ex_running s \<and> sy_updating s \<and> sy_streaming s \<and> fst (sy_market s) = 0
     \<and> sy_block_rx s = Receive_error # block_events (replicate 100 ex_block)
     \<and> worker_step ex_world s (s\<lparr>sy_updating := False\<rparr>)"
proof -
  obtain db es where start: "start_workers ex_world [Some 0] [pool_a, pool_b] 0 =
     Some (Ok (ex_state [ex_block] (0, db) [] [] (searcher_new [cycle_ab, cycle_ba] es) None [] []
        \<lparr>ts_contract = 99, ts_nonce = 7\<rparr> []))"
    using ex_start unfolding ex_state_def by blast
  let ?s0 = "ex_state [ex_block] (0, db) [] [] (searcher_new [cycle_ab, cycle_ba] es) None [] []
     \<lparr>ts_contract = 99, ts_nonce = 7\<rparr> []" and ?hs = "replicate 100 ex_block"
  let ?s1 = "?s0\<lparr>sy_block_rx := sy_block_rx ?s0 @ block_events ?hs,
     sy_gas_rx := sy_gas_rx ?s0 @ block_events ?hs\<rparr>"
  let ?s2 = "?s1\<lparr>sy_block_rx := Receive_error # block_events ?hs\<rparr>"
  have "sy_streaming ?s0" by (simp add: ex_state_def)
  from running_steps [OF streams [OF this] running.start [OF start]] have "ex_running ?s1" .
  moreover have "worker_step ex_world ?s1 ?s2"
    by (rule worker_step.lag [where lost = "block_events [ex_block]"]) (simp_all add: ex_state_def)
  ultimately have "ex_running ?s2" by (rule running.step)
  moreover have "worker_step ex_world ?s2 (?s2\<lparr>sy_updating := False\<rparr>)"
    by (rule worker_step.updater_ends) (simp_all add: ex_state_def loop_ends_def)
  ultimately show ?thesis by (intro exI [of _ ?s2]) (simp add: ex_state_def)
qed

end
