(* ===== verification/EvmReads.thy ===== *)
theory EvmReads
  imports StateDB
begin

text \<open>
  What the EVM does to the database (\<^verbatim>\<open>state_db/blockstate_db.rs\<close>, the trait \<open>Database\<close>): it asks
  for accounts, code, slots and block hashes, the answers fill the cache, and an error of one of
  the methods ends the run. A program is a tree of questions; \<open>fills\<close> is the step relation of the
  cache, and every read is a sequence of such steps.
\<close>

subsection \<open>Programs that ask a source\<close>

datatype (dead 'q, dead 'a, dead 'r) reader =
    Finished "'r res"
  | Ask 'q "'a \<Rightarrow> ('q, 'a, 'r) reader"

primrec run_reader ::
  "('q \<Rightarrow> 's \<Rightarrow> 'a res \<times> 's) \<Rightarrow> ('q, 'a, 'r) reader \<Rightarrow> 's \<Rightarrow> 'r res \<times> 's"
where
  "run_reader read (Finished r) = (\<lambda>s. (r, s))"
| "run_reader read (Ask q k) = (\<lambda>s. case read q s of
      (Inl e, s') \<Rightarrow> (Inl e, s')
    | (Inr a, s') \<Rightarrow> run_reader read (k a) s')"

text \<open>The same program over answers that are fixed beforehand.\<close>

primrec eval_reader :: "('q \<Rightarrow> 'a res) \<Rightarrow> ('q, 'a, 'r) reader \<Rightarrow> 'r res" where
  "eval_reader V (Finished r) = r"
| "eval_reader V (Ask q k) = (case V q of Inl e \<Rightarrow> Inl e | Inr a \<Rightarrow> eval_reader V (k a))"

text \<open>The questions of a run that were answered, with their answers.\<close>

primrec asked ::
  "('q \<Rightarrow> 's \<Rightarrow> 'a res \<times> 's) \<Rightarrow> ('q, 'a, 'r) reader \<Rightarrow> 's \<Rightarrow> ('q \<times> 'a) list"
where
  "asked read (Finished r) = (\<lambda>s. [])"
| "asked read (Ask q k) = (\<lambda>s. case read q s of
      (Inl e, s') \<Rightarrow> []
    | (Inr a, s') \<Rightarrow> (q, a) # asked read (k a) s')"

lemma run_reader_keeps:
  assumes "\<And>q s. f (snd (read q s)) = f s"
  shows "f (snd (run_reader read p s)) = f s"
proof (induction p arbitrary: s)
  case (Ask q k)
  obtain r s' where r: "read q s = (r, s')" by force
  with assms [of q s] have "f s' = f s" by simp
  with Ask r show ?case by (cases r) simp_all
qed simp

text \<open>
  A source with a cache: every answer is that of a view, which the reads do not change, and an
  answered question is from then on \<open>held\<close>, whatever else is read.
\<close>

locale read_source =
  fixes read :: "'q \<Rightarrow> 's \<Rightarrow> 'a res \<times> 's"
    and view :: "'s \<Rightarrow> 'q \<Rightarrow> 'a res"
  assumes read_answer: "fst (read q s) = view s q"
    and read_view: "view (snd (read q s)) = view s"
begin

lemma run_view: "view (snd (run_reader read p s)) = view s"
  by (rule run_reader_keeps) (rule read_view)

lemma run_answer: "fst (run_reader read p s) = eval_reader (view s) p"
proof (induction p arbitrary: s)
  case (Ask q k)
  obtain r s' where r: "read q s = (r, s')" by force
  with read_answer [of q s] read_view [of q s] have "view s q = r" "view s' = view s" by simp_all
  with Ask r show ?case by (cases r) simp_all
qed simp

end

locale read_cache = read_source +
  fixes held :: "'q \<Rightarrow> 'a \<Rightarrow> 's \<Rightarrow> bool"
  assumes read_held: "read q s = (Ok a, s') \<Longrightarrow> held q a s'"
    and held_stays: "held q a s \<Longrightarrow> held q a (snd (read q' s))"
    and held_answers: "held q a s \<Longrightarrow> read q s = (Ok a, s)"
begin

lemma run_held_stays: "held q a s \<Longrightarrow> held q a (snd (run_reader read p s))"
proof (induction p arbitrary: s)
  case (Ask q' k)
  obtain r s' where r: "read q' s = (r, s')" by force
  with held_stays [OF Ask.prems, of q'] have "held q a s'" by simp
  with Ask r show ?case by (cases r) simp_all
qed simp

lemma asked_held: "(q, a) \<in> set (asked read p s) \<Longrightarrow> held q a (snd (run_reader read p s))"
proof (induction p arbitrary: s)
  case (Ask q' k)
  obtain r s' where r: "read q' s = (r, s')" by force
  show ?case
  proof (cases r)
    case (Inr b)
    with r read_held have "held q' b s'" by simp
    with Ask r Inr show ?thesis using run_held_stays by auto
  qed (use Ask r in simp)
qed simp

lemma run_replays:
  assumes "run_reader read p s = (Ok r, s')" and "\<forall>(q, a) \<in> set (asked read p s). held q a t"
  shows "run_reader read p t = (Ok r, t)"
  using assms
proof (induction p arbitrary: s)
  case (Ask q k)
  then obtain a s1 where "read q s = (Ok a, s1)" by (auto split: prod.splits sum.splits)
  with Ask have "run_reader read (k a) t = (Ok r, t)" "held q a t" by auto
  then show ?case by (simp add: held_answers)
qed simp

end

subsection \<open>The database as a source\<close>

datatype db_query = Q_basic address | Q_code b256 | Q_storage address u256 | Q_hash u64

datatype db_answer =
    A_basic "account_info option" | A_code bytecode | A_storage u256 | A_hash b256

definition db_read :: "revm \<Rightarrow> db_query \<Rightarrow> state_db \<Rightarrow> db_answer res \<times> state_db" where
  "db_read R q db =
     (case q of
        Q_basic a \<Rightarrow> map_prod (map_sum id A_basic) id (basic R db a)
      | Q_code h \<Rightarrow> map_prod (map_sum id A_code) id (code_by_hash R db h)
      | Q_storage a k \<Rightarrow> map_prod (map_sum id A_storage) id (storage R db a k)
      | Q_hash n \<Rightarrow> map_prod (map_sum id A_hash) id (block_hash db n))"

text \<open>What the methods answer, as functions of the database only.\<close>

definition account_view :: "revm \<Rightarrow> state_db \<Rightarrow> address \<Rightarrow> account_info option res" where
  "account_view R db a =
     (case db_accounts db a of Some acc \<Rightarrow> Ok (Some (ac_info acc)) | None \<Rightarrow> basic_ref R db a)"

definition storage_view :: "revm \<Rightarrow> state_db \<Rightarrow> address \<Rightarrow> u256 \<Rightarrow> u256 res" where
  "storage_view R db a k =
     slot_or (cached_slot db a k)
       (rbind (provider_read db a k) (\<lambda>v. rbind (account_view R db a) (\<lambda>_. Ok v)))"

definition db_view :: "revm \<Rightarrow> state_db \<Rightarrow> db_query \<Rightarrow> db_answer res" where
  "db_view R db q =
     (case q of
        Q_basic a \<Rightarrow> map_sum id A_basic (account_view R db a)
      | Q_code h \<Rightarrow> map_sum id A_code (code_by_hash_ref R db h)
      | Q_storage a k \<Rightarrow> map_sum id A_storage (storage_view R db a k)
      | Q_hash n \<Rightarrow> map_sum id A_hash (block_hash_ref db n))"

fun db_held :: "db_query \<Rightarrow> db_answer \<Rightarrow> state_db \<Rightarrow> bool" where
  "db_held (Q_basic a) (A_basic info) db \<longleftrightarrow>
     info \<noteq> None \<and> map_option ac_info (db_accounts db a) = info"
| "db_held (Q_code h) (A_code code) db \<longleftrightarrow> db_contracts db h = Some code"
| "db_held (Q_storage a k) (A_storage v) db \<longleftrightarrow> map_option sl_value (cached_slot db a k) = Some v"
| "db_held (Q_hash n) (A_hash h) db \<longleftrightarrow> db_block_hashes db n = Some h"
| "db_held _ _ db \<longleftrightarrow> False"

subsection \<open>Filling the cache\<close>

text \<open>The ways in which a read changes the database, each for something that is not cached.\<close>

inductive fills :: "revm \<Rightarrow> state_db \<Rightarrow> state_db \<Rightarrow> bool" for R where
  fill_account: "db_accounts db a = None \<Longrightarrow> basic_ref R db a = Ok (Some info) \<Longrightarrow>
     fills R db (insert_account_info R db a info OnChain)"
| fill_slot: "db_accounts db a = Some acc \<Longrightarrow> ac_storage acc k = None \<Longrightarrow>
     provider_read db a k = Ok v \<Longrightarrow> fills R db (put_account db a (put_slot acc k v OnChain))"
| fill_code: "db_contracts db h = None \<Longrightarrow>
     fills R db (db\<lparr>db_contracts := (db_contracts db)(h \<mapsto> rv_default_code R)\<rparr>)"
| fill_hash: "db_block_hashes db n = None \<Longrightarrow> block_hash_ref db n = Ok h \<Longrightarrow>
     fills R db (db\<lparr>db_block_hashes := (db_block_hashes db)(n \<mapsto> h)\<rparr>)"

lemma insert_account_info_parts [simp]:
  "db_accounts (insert_account_info R db a info it) =
     (db_accounts db)(a \<mapsto> (new_account R it)\<lparr>ac_info := info\<rparr>)"
  "db_contracts (insert_account_info R db a info it) = db_contracts db"
  "db_block_hashes (insert_account_info R db a info it) = db_block_hashes db"
  by (simp_all add: insert_account_info_def)

lemma basic_fills_cache: "(fills R)\<^sup>*\<^sup>* db (snd (basic R db a))"
  by (auto simp: basic_def intro: fill_account split: option.split sum.split)

lemma basic_answer: "fst (basic R db a) = account_view R db a"
  by (auto simp: basic_def account_view_def split: option.split sum.split)

lemma ensure_account_answer:
  "fst (ensure_account R db a) = rbind (account_view R db a) (\<lambda>_. Ok ())"
  by (auto simp: ensure_account_def account_view_def basic_def split: option.split sum.split)

lemma ensure_account_fills_cache: "(fills R)\<^sup>*\<^sup>* db (snd (ensure_account R db a))"
  using basic_ref_not_None [of R db a]
  by (auto simp: ensure_account_def basic_def intro: fill_account split: option.split sum.split)

lemma ensure_account_no_slot:
  assumes "ensure_account R db a = (Inr (), db1)" and "cached_slot db a k = None"
  obtains acc where "db_accounts db1 a = Some acc" "ac_storage acc k = None"
    "db_provider db1 = db_provider db"
  using assms basic_ref_not_None [of R db a]
  by (auto simp: ensure_account_def basic_def cached_slot_def split: option.splits sum.splits
      if_splits)

lemma storage_answer: "fst (storage R db a k) = storage_view R db a k"
proof (cases "cached_slot db a k")
  case None
  obtain r db1 where e: "ensure_account R db a = (r, db1)" by force
  with ensure_account_answer [of R db a] have "r = rbind (account_view R db a) (\<lambda>_. Ok ())" by simp
  with None e show ?thesis
    by (cases "provider_read db a k"; cases "account_view R db a")
      (simp_all add: storage_def storage_view_def storage_ref_eq Let_def)
qed (simp add: storage_def storage_view_def)

lemma storage_fills_cache: "(fills R)\<^sup>*\<^sup>* db (snd (storage R db a k))"
proof -
  obtain r db' where s: "storage R db a k = (r, db')" by force
  then have "(fills R)\<^sup>*\<^sup>* db db'"
  proof (cases rule: storage_cases)
    case (fetched v acc db1)
    obtain acc' where acc: "db_accounts db1 a = Some acc'" "ac_storage acc' k = None"
      "db_provider db1 = db_provider db"
      using ensure_account_no_slot [OF fetched(4,1)] .
    have "provider_read db1 a k = Ok v"
      using fetched(1,2) provider_read_cong [OF acc(3)] by (simp add: storage_ref_eq)
    with acc fetched have "fills R db1 db'" by (auto intro: fill_slot)
    moreover from ensure_account_fills_cache [of R db a] fetched have "(fills R)\<^sup>*\<^sup>* db db1" by simp
    ultimately show ?thesis by simp
  qed simp_all
  with s show ?thesis by simp
qed

lemma db_read_fills: "(fills R)\<^sup>*\<^sup>* db (snd (db_read R q db))"
proof (cases q)
  case (Q_basic a)
  then show ?thesis using basic_fills_cache [of R db a] by (simp add: db_read_def)
next
  case (Q_code h)
  then show ?thesis
    by (auto simp: db_read_def code_by_hash_def code_by_hash_ref_def intro: fill_code split: option.split)
next
  case (Q_storage a k)
  then show ?thesis using storage_fills_cache [of R db a k] by (simp add: db_read_def)
next
  case (Q_hash n)
  then show ?thesis
    by (auto simp: db_read_def block_hash_def intro: fill_hash split: option.split sum.split)
qed

lemma db_read_answer: "fst (db_read R q db) = db_view R db q"
  by (cases q) (auto simp: db_read_def db_view_def basic_answer storage_answer code_by_hash_def
      code_by_hash_ref_def block_hash_def block_hash_ref_def split: option.split sum.split)

text \<open>What filling the cache leaves as it is.\<close>

lemma fills_frame:
  assumes "fills R db db'"
  shows "db_provider db' = db_provider db" "db_pools db' = db_pools db"
    "db_pool_info db' = db_pool_info db"
    "cached_slot db a k = Some sl \<Longrightarrow> cached_slot db' a k = Some sl"
    "db_held q v db \<Longrightarrow> db_held q v db'"
  using assms
  by (induction; cases "(q, v, db)" rule: db_held.cases; auto simp: cached_slot_def split: option.splits)+

lemma fills_storage_ref: "fills R db db' \<Longrightarrow> storage_ref db' b j = storage_ref db b j"
  by (induction rule: fills.induct)
    (auto simp: storage_ref_insert_account_info storage_ref_put_slot storage_ref_eq provider_read_def
      cached_slot_def split: option.split)

lemma fills_account_view: "fills R db db' \<Longrightarrow> account_view R db' b = account_view R db b"
  by (induction rule: fills.induct)
    (auto simp: account_view_def basic_ref_def split: option.split)

lemma fills_storage_view:
  assumes "fills R db db'"
  shows "storage_view R db' b j = storage_view R db b j"
proof -
  note v = fills_account_view [OF assms] provider_read_cong [OF fills_frame(1) [OF assms]]
  show ?thesis
  proof (cases "cached_slot db' b j = cached_slot db b j")
    case True
    then show ?thesis by (simp add: storage_view_def v)
  next
    case False
    with assms show ?thesis
      by (induction rule: fills.induct)
        (auto simp: storage_view_def cached_slot_def account_view_def split: if_splits)
  qed
qed

lemma fills_code_view: "fills R db db' \<Longrightarrow> code_by_hash_ref R db' h = code_by_hash_ref R db h"
  by (induction rule: fills.induct) (auto simp: code_by_hash_ref_def)

lemma fills_hash_view: "fills R db db' \<Longrightarrow> block_hash_ref db' n = block_hash_ref db n"
  by (induction rule: fills.induct) (auto simp: block_hash_ref_def cong: option.case_cong)

lemma fills_view: "fills R db db' \<Longrightarrow> db_view R db' = db_view R db"
  by (intro ext) (simp add: db_view_def fills_account_view fills_storage_view fills_code_view
      fills_hash_view split: db_query.split)

text \<open>The same for any number of fills.\<close>

lemma fills_star:
  assumes "(fills R)\<^sup>*\<^sup>* db db'" and "\<And>d d'. fills R d d' \<Longrightarrow> f d' = f d"
  shows "f db' = f db"
  using assms(1) by induction (simp_all add: assms(2))

lemma read_keeps:
  "(\<And>d d'. fills R d d' \<Longrightarrow> f d' = f d) \<Longrightarrow> f (snd (db_read R q db)) = f db"
  using db_read_fills by (rule fills_star)

lemma fills_star_held: "(fills R)\<^sup>*\<^sup>* db db' \<Longrightarrow> db_held q a db \<Longrightarrow> db_held q a db'"
  by (induction rule: rtranclp_induct) (auto intro: fills_frame(5))

lemma fills_star_cached_slot:
  "(fills R)\<^sup>*\<^sup>* db db' \<Longrightarrow> cached_slot db a k = Some sl \<Longrightarrow> cached_slot db' a k = Some sl"
  by (induction rule: rtranclp_induct) (auto intro: fills_frame(4))

interpretation dr: read_cache "db_read R" "db_view R" db_held for R
proof
  show "fst (db_read R q db) = db_view R db q" for q db by (rule db_read_answer)
  show "db_view R (snd (db_read R q db)) = db_view R db" for q db
    by (rule read_keeps) (rule fills_view)
  show "db_held q a (snd (db_read R q' db))" if "db_held q a db" for q a db q'
    using db_read_fills that by (rule fills_star_held)
  show "db_read R q db = (Ok a, db)" if "db_held q a db" for q a db
    using that by (cases "(q, a, db)" rule: db_held.cases)
      (auto simp: db_read_def basic_def code_by_hash_def storage_def block_hash_def)
  show "db_held q a db'" if r: "db_read R q db = (Ok a, db')" for q a db db'
  proof (cases q)
    case (Q_basic b)
    with r show ?thesis using basic_ref_not_None [of R db b]
      by (auto simp: db_read_def basic_def split: option.splits sum.splits)
  next
    case (Q_code h)
    with r show ?thesis by (auto simp: db_read_def code_by_hash_def split: option.splits sum.splits)
  next
    case (Q_storage b k)
    with r obtain v where "storage R db b k = (Ok v, db')" "a = A_storage v"
      by (cases "storage R db b k"; cases "fst (storage R db b k)") (auto simp: db_read_def)
    moreover from this(1) have "map_option sl_value (cached_slot db' b k) = Some v"
      by (cases rule: storage_cases) auto
    ultimately show ?thesis by (simp add: Q_storage)
  next
    case (Q_hash n)
    with r show ?thesis by (auto simp: db_read_def block_hash_def split: option.splits sum.splits)
  qed
qed

lemma run_keeps:
  "(\<And>d d'. fills R d d' \<Longrightarrow> f d' = f d) \<Longrightarrow> f (snd (run_reader (db_read R) p db)) = f db"
  by (rule run_reader_keeps) (rule read_keeps)

lemma run_fills: "(fills R)\<^sup>*\<^sup>* db (snd (run_reader (db_read R) p db))"
proof (induction p arbitrary: db)
  case (Ask q k)
  obtain r db1 where r: "db_read R q db = (r, db1)" by force
  with db_read_fills [of R db q] have "(fills R)\<^sup>*\<^sup>* db db1" by simp
  with Ask r show ?case by (cases r) (auto intro: rtranclp_trans)
qed simp

subsection \<open>Databases with the same reads\<close>

definition same_reads :: "revm \<Rightarrow> state_db \<Rightarrow> state_db \<Rightarrow> bool" where
  "same_reads R db db' \<longleftrightarrow>
     db_view R db' = db_view R db \<and> storage_ref db' = storage_ref db \<and>
     db_pools db' = db_pools db \<and> db_pool_info db' = db_pool_info db \<and>
     (\<forall>a k sl. cached_slot db a k = Some sl \<longrightarrow> cached_slot db' a k = Some sl)"

lemma same_reads_refl [simp, intro]: "same_reads R db db"
  by (simp add: same_reads_def)

lemma same_reads_trans [trans]: "same_reads R a b \<Longrightarrow> same_reads R b c \<Longrightarrow> same_reads R a c"
  by (simp add: same_reads_def)

lemma fills_same_reads:
  assumes "(fills R)\<^sup>*\<^sup>* db db'"
  shows "same_reads R db db'"
proof -
  have "db_view R db' = db_view R db" using assms by (rule fills_star) (rule fills_view)
  moreover have "storage_ref db' a k = storage_ref db a k" for a k
    using assms by (rule fills_star) (rule fills_storage_ref)
  moreover have "db_pools db' = db_pools db" "db_pool_info db' = db_pool_info db"
    using assms by (rule fills_star; simp add: fills_frame)+
  ultimately show ?thesis
    unfolding same_reads_def using fills_star_cached_slot [OF assms] by blast
qed

lemma run_same_reads: "same_reads R db (snd (run_reader (db_read R) p db))"
  by (rule fills_same_reads) (rule run_fills)

end
