(* ===== verification/EvmRuns.thy ===== *)
theory EvmRuns
  imports EvmReads Simulator ChainView
begin

text \<open>
  The EVM on the mutable database. \<^verbatim>\<open>quoter.rs\<close>, \<^verbatim>\<open>curve.rs\<close>, \<^verbatim>\<open>maverick.rs\<close> and
  \<^verbatim>\<open>market_state.rs\<close> build it with \<open>with_db(&mut *db)\<close>. Here it is the parameter \<open>evm\<close>, a program
  of questions for each call; the operations thread the database through. What the other
  theories leave out by \<open>cn_transact\<close>, which returns a result only, is shown to make no
  difference, and what a cached answer means for later blocks is shown at the end.
\<close>

subsection \<open>Transactions\<close>

type_synonym evm = "address \<Rightarrow> address \<Rightarrow> evm_call \<Rightarrow>
  (db_query, db_answer, exec_result \<times> (address \<times> evm_account) list) reader"

definition transact_db ::
  "revm \<Rightarrow> evm \<Rightarrow> state_db \<Rightarrow> address \<Rightarrow> address \<Rightarrow> evm_call \<Rightarrow>
     (exec_result \<times> (address \<times> evm_account) list) res \<times> state_db"
where
  "transact_db R evm db caller target call = run_reader (db_read R) (evm caller target call) db"

definition transact_commit_db :: "revm \<Rightarrow> evm \<Rightarrow> committer" where
  "transact_commit_db R evm db caller target call =
     (case transact_db R evm db caller target call of
        (Inl e, db) \<Rightarrow> Inl e
      | (Inr (result, changes), db) \<Rightarrow> Ok (commit R db changes))"

text \<open>What the other theories take for the EVM: the result alone.\<close>

definition with_evm :: "revm \<Rightarrow> evm \<Rightarrow> calc_env \<Rightarrow> calc_env" where
  "with_evm R evm E =
     E\<lparr>cn_transact := (\<lambda>db caller target call.
         map_sum id fst (fst (transact_db R evm db caller target call)))\<rparr>"

definition curve_out_db ::
  "revm \<Rightarrow> evm \<Rightarrow> calc_env \<Rightarrow> state_db \<Rightarrow> u256 \<Rightarrow> u256 \<Rightarrow> u256 \<Rightarrow> address \<Rightarrow> u256 res \<times> state_db"
where
  "curve_out_db R evm E db index_in index_out amount_in pool =
     (case transact_db R evm db 1 pool (Get_dy index_in index_out amount_in) of (r, db) \<Rightarrow>
        (rbind (unwrap_res r) (\<lambda>(result, _).
           case result of
             Success value \<Rightarrow> (case cn_decode1 E value of Some a \<Rightarrow> Ok a | None \<Rightarrow> Ok 0)
           | _ \<Rightarrow> Ok 0), db))"

definition maverick_v2_out_db ::
  "revm \<Rightarrow> evm \<Rightarrow> calc_env \<Rightarrow> state_db \<Rightarrow> u256 \<Rightarrow> address \<Rightarrow> bool \<Rightarrow> i32 \<Rightarrow> u256 res \<times> state_db"
where
  "maverick_v2_out_db R evm E db amount_in pool zero_for_one tick_limit =
     (case uint_to amount_in of
        Inl e \<Rightarrow> (Inl e, db)
      | Inr amount \<Rightarrow>
          (case transact_db R evm db 1 maverick_quoter
                  (Calculate_swap pool amount zero_for_one False tick_limit) of (r, db) \<Rightarrow>
             (rbind (unwrap_res r) (\<lambda>(result, _).
                case result of
                  Success value \<Rightarrow>
                    (case cn_decode3 E value of Some out \<Rightarrow> Ok (fst (snd out)) | None \<Rightarrow> Ok 0)
                | _ \<Rightarrow> Ok 0), db)))"

definition compute_amount_out_db ::
  "revm \<Rightarrow> evm \<Rightarrow> calc_env \<Rightarrow> state_db \<Rightarrow> u256 \<Rightarrow> address \<Rightarrow> address \<Rightarrow> pool_type \<Rightarrow> u32 \<Rightarrow>
     (u256 res \<times> state_db) option"
where
  "compute_amount_out_db R evm E db input_amount pool_address token_in pool_type fee =
     (if pool_type \<in> {MaverickV1, MaverickV2}
      then Some (maverick_v2_out_db R evm E db input_amount pool_address True 0)
      else if pool_type \<in> {CurveTwoCrypto, CurveTriCrypto}
      then Some (curve_out_db R evm E db 0 1 input_amount pool_address)
      else map_option (\<lambda>r. (r, db))
             (compute_amount_out E db input_amount pool_address token_in pool_type fee))"

fun debug_steps_db ::
  "revm \<Rightarrow> evm \<Rightarrow> calc_env \<Rightarrow> state_db \<Rightarrow> swap_step list \<Rightarrow> u256 \<Rightarrow> u256 list \<Rightarrow>
     (u256 list res \<times> state_db) option"
where
  "debug_steps_db R evm E db [] amount path_calc = Some (Ok path_calc, db)"
| "debug_steps_db R evm E db (s # ss) amount path_calc =
     (case compute_amount_out_db R evm E db amount (st_pool s) (st_token_in s) (st_protocol s) (st_fee s) of
        None \<Rightarrow> None
      | Some (Inl e, db) \<Rightarrow> Some (Inl e, db)
      | Some (Inr output_amount, db) \<Rightarrow>
          debug_steps_db R evm E db ss output_amount (path_calc @ [output_amount]))"

fun calc_steps_db ::
  "revm \<Rightarrow> evm \<Rightarrow> calc_env \<Rightarrow> state_db \<Rightarrow> swap_step list \<Rightarrow> u256 \<Rightarrow> cache \<Rightarrow>
     ((u256 res \<times> cache) \<times> state_db) option"
where
  "calc_steps_db R evm E db [] amount c = Some ((Ok amount, c), db)"
| "calc_steps_db R evm E db (s # ss) amount c =
     (case cache_get c amount (st_pool s) of
        Some cached_amount \<Rightarrow>
          if cached_amount = 0 then Some ((Ok 0, c), db)
          else calc_steps_db R evm E db ss cached_amount c
      | None \<Rightarrow>
          (case compute_amount_out_db R evm E db amount (st_pool s) (st_token_in s) (st_protocol s)
                  (st_fee s) of
             None \<Rightarrow> None
           | Some (Inl e, db) \<Rightarrow> Some ((Inl e, c), db)
           | Some (Inr output_amount, db) \<Rightarrow>
               (let c = cn_cache_set E c amount (st_pool s) output_amount
                in if output_amount = 0 then Some ((Ok 0, c), db)
                   else calc_steps_db R evm E db ss output_amount c)))"

definition calculate_output_db ::
  "revm \<Rightarrow> evm \<Rightarrow> calc_env \<Rightarrow> state_db \<Rightarrow> swap_path \<Rightarrow> cache \<Rightarrow>
     ((u256 res \<times> cache) \<times> state_db) option"
where
  "calculate_output_db R evm E db path c = calc_steps_db R evm E db (sp_steps path) AMOUNT c"

subsection \<open>Quotes\<close>

definition quote_path_db ::
  "revm \<Rightarrow> evm \<Rightarrow> amounts_decoder \<Rightarrow> state_db \<Rightarrow> swap_params \<Rightarrow> u256 list res \<times> state_db"
where
  "quote_path_db R evm dec db quote_params =
     (case transact_db R evm db quote_caller quoter_address (Quote_arbitrage quote_params) of (r, db) \<Rightarrow>
        (rbind (unwrap_res r) (\<lambda>(result, _).
           case result of
             Success value \<Rightarrow> (case dec value of Some amount \<Rightarrow> Ok amount | None \<Rightarrow> err Decode_failed)
           | Revert output \<Rightarrow> err Simulation_reverted
           | Halt \<Rightarrow> err Simulation_failed), db))"

text \<open>The lock is taken for every quote anew: \<open>others n\<close> is what other tasks do to the database
  before the quote with \<open>n\<close> rounds left.\<close>

fun optimize_loop_db ::
  "revm \<Rightarrow> evm \<Rightarrow> amounts_decoder \<Rightarrow> (nat \<Rightarrow> state_db \<Rightarrow> state_db) \<Rightarrow> state_db \<Rightarrow> swap_params \<Rightarrow>
     nat \<Rightarrow> u256 \<Rightarrow> u256 \<Rightarrow> u256 \<Rightarrow> (u256 \<times> u256) res \<times> state_db"
where
  "optimize_loop_db R evm dec others db params 0 curr_input best_input best_output =
     (Ok (best_input, best_output), db)"
| "optimize_loop_db R evm dec others db params (Suc n) curr_input best_input best_output =
     (let curr_input = curr_input + 200000000000000;
          params = params\<lparr>pr_amount_in := curr_input\<rparr>
      in case quote_path_db R evm dec (others n db) params of
           (Inl (Panic p), db) \<Rightarrow> (panic p, db)
         | (Inl (Error e), db) \<Rightarrow> (Ok (best_input, best_output), db)
         | (Inr amounts, db) \<Rightarrow>
             (case last_amount amounts of
                Inl e \<Rightarrow> (Inl e, db)
              | Inr output \<Rightarrow>
                  if curr_input < output \<and> best_output < output
                  then optimize_loop_db R evm dec others db params n curr_input curr_input output
                  else (Ok (best_input, best_output), db)))"

definition optimize_input_db ::
  "revm \<Rightarrow> evm \<Rightarrow> amounts_decoder \<Rightarrow> (nat \<Rightarrow> state_db \<Rightarrow> state_db) \<Rightarrow> state_db \<Rightarrow> swap_params \<Rightarrow>
     u256 \<Rightarrow> (u256 \<times> u256) res \<times> state_db"
where
  "optimize_input_db R evm dec others db params initial_out =
     optimize_loop_db R evm dec others db params 50 AMOUNT AMOUNT initial_out"

definition simulate_path_db ::
  "revm \<Rightarrow> evm \<Rightarrow> (nat \<Rightarrow> state_db \<Rightarrow> state_db) \<Rightarrow> (pool_type \<Rightarrow> bool) \<Rightarrow> calc_env \<Rightarrow> amounts_decoder \<Rightarrow>
     bool \<Rightarrow> state_db \<Rightarrow> swap_path \<Rightarrow> u256 \<Rightarrow> u64 \<Rightarrow> u64 set \<Rightarrow>
     ((u64 set \<times> event list) res \<times> state_db) option"
where
  "simulate_path_db R evm others is_v3 E dec sim db arb_path expected_out block_number blacklisted_paths =
     (let converted_path = to_quoter_params is_v3 arb_path
      in if sp_hash arb_path \<notin> blacklisted_paths then
           (case quote_path_db R evm dec db converted_path of
              (Inl (Panic p), db) \<Rightarrow> Some (panic p, db)
            | (Inl (Error quote_err), db) \<Rightarrow>
                Some (Ok (insert (sp_hash arb_path) blacklisted_paths, []), db)
            | (Inr quote, db) \<Rightarrow>
                (case last_amount quote of
                   Inl e \<Rightarrow> Some (Inl e, db)
                 | Inr last_quote \<Rightarrow>
                     if sim then
                       (if last_quote = expected_out then Some (Ok (blacklisted_paths, []), db)
                        else (case debug_steps_db R evm E db (sp_steps arb_path) AMOUNT [AMOUNT] of
                                None \<Rightarrow> None
                              | Some (Inl e, db) \<Rightarrow> Some (Inl e, db)
                              | Some (Inr calc, db) \<Rightarrow> Some (Ok (blacklisted_paths, []), db)))
                     else if last_quote < 1000000000000000000 then
                       (case optimize_input_db R evm dec others db converted_path last_quote of
                          (Inl e, db) \<Rightarrow> Some (Inl e, db)
                        | (Inr optimized_amounts, db) \<Rightarrow>
                            (let profit = expected_out - AMOUNT;
                                 converted_path = converted_path\<lparr>pr_amount_in := fst optimized_amounts\<rparr>
                             in Some (Ok (blacklisted_paths,
                                          [ValidPath converted_path profit block_number]), db)))
                     else Some (Ok (blacklisted_paths, []), db)))
         else Some (Ok (blacklisted_paths, []), db))"

subsection \<open>The result without the database\<close>

lemma transact_same_reads: "same_reads R db (snd (transact_db R evm db caller target call))"
  by (simp add: transact_db_def run_same_reads)

lemma transact_answer:
  "fst (transact_db R evm db caller target call) = eval_reader (db_view R db) (evm caller target call)"
  by (simp add: transact_db_def dr.run_answer)

lemma with_evm_fields:
  "cn_transact (with_evm R evm E) db caller target call =
     map_sum id fst (fst (transact_db R evm db caller target call))"
  "cn_math (with_evm R evm E) = cn_math E" "cn_keccak (with_evm R evm E) = cn_keccak E"
  "cn_aero (with_evm R evm E) = cn_aero E" "cn_balancer (with_evm R evm E) = cn_balancer E"
  "cn_decode1 (with_evm R evm E) = cn_decode1 E" "cn_decode3 (with_evm R evm E) = cn_decode3 E"
  "cn_cache_set (with_evm R evm E) = cn_cache_set E"
  by (simp_all add: with_evm_def)

lemma transact_depends:
  "same_reads R db db' \<Longrightarrow>
     cn_transact (with_evm R evm E) db' = cn_transact (with_evm R evm E) db"
  by (intro ext) (simp add: with_evm_fields transact_answer same_reads_def)

text \<open>The result of a transaction, once with and once without the changes.\<close>

lemma rbind_result:
  "rbind (unwrap_res (map_sum id fst r)) f = rbind (unwrap_res r) (\<lambda>(result, _). f result)"
  by (cases r rule: sum.exhaust) (auto simp: unwrap_res_def split: fault.split)

lemma curve_out_db_result:
  "fst (curve_out_db R evm E db i j x p) = curve_out (with_evm R evm E) db i j x p"
  unfolding curve_out_def with_evm_fields
  by (simp add: curve_out_db_def rbind_result split: prod.split)

lemma maverick_v2_out_db_result:
  "fst (maverick_v2_out_db R evm E db x p z l) = maverick_v2_out (with_evm R evm E) db x p z l"
  unfolding maverick_v2_out_def with_evm_fields
  by (cases "uint_to x :: u128 res")
    (simp_all add: maverick_v2_out_db_def rbind_result split: prod.split)

lemma quote_path_db_result:
  "fst (quote_path_db R evm dec db params) = quote_path (with_evm R evm E) dec db params"
  by (simp add: quote_path_db_def quote_path_def with_evm_fields rbind_result split: prod.split)

lemma evm_out_same_reads:
  "same_reads R db (snd (curve_out_db R evm E db i j x p))"
  "same_reads R db (snd (maverick_v2_out_db R evm E db x p z l))"
  "same_reads R db (snd (quote_path_db R evm dec db params))"
  using transact_same_reads
  by (auto simp: curve_out_db_def maverick_v2_out_db_def quote_path_db_def split: prod.split sum.split)
    (metis snd_conv)+

lemma quote_path_depends:
  "same_reads R db db' \<Longrightarrow>
     quote_path (with_evm R evm E) dec db' params = quote_path (with_evm R evm E) dec db params"
  by (simp add: quote_path_def transact_depends)

subsection \<open>Calculations on the mutable database\<close>

text \<open>The pool types whose calculation reads the slots 0, 4 and 14 from the cache and panics when
  they are not there: an EVM read can put them there.\<close>

definition v3_type :: "pool_type \<Rightarrow> bool" where
  "v3_type t \<longleftrightarrow> t \<in> {UniswapV3, SushiSwapV3, BaseSwapV3, Slipstream, PancakeSwapV3,
     AlienBaseV3, SwapBasedV3, DackieSwapV3}"

definition v3_cached :: "state_db \<Rightarrow> swap_step list \<Rightarrow> bool" where
  "v3_cached db ss \<longleftrightarrow> (\<forall>s \<in> set ss. v3_type (st_protocol s) \<longrightarrow>
     (\<forall>k \<in> {0, 4, 14}. cached_slot db (st_pool s) k \<noteq> None))"

text \<open>What is asked of the getters the database lacks: they see what the other reads see.\<close>

definition aero_reads :: "revm \<Rightarrow> calc_env \<Rightarrow> bool" where
  "aero_reads R E \<longleftrightarrow> (\<forall>db db'. same_reads R db db' \<longrightarrow> cn_aero E db' = cn_aero E db)"

lemma cached_value_slot:
  "cached_slot db a k = Some sl \<Longrightarrow> cached_value db a k = Ok (sl_value sl)"
  by (simp add: cached_value_def cached_slot_def split: option.splits)

lemma v3_cached_agree:
  assumes "same_reads R db db'" and "\<forall>k \<in> {0, 4, 14}. cached_slot db p k \<noteq> None"
  shows "reads_agree db db' p"
proof -
  have "cached_value db' p k = cached_value db p k" if k: "k \<in> {0, 4, 14}" for k
  proof -
    from assms(2) k obtain sl where "cached_slot db p k = Some sl" by fast
    moreover with assms(1) have "cached_slot db' p k = Some sl" by (simp add: same_reads_def)
    ultimately show ?thesis by (simp add: cached_value_slot)
  qed
  with assms(1) show ?thesis by (simp add: reads_agree_def same_reads_def)
qed

lemma same_reads_outputs:
  assumes "same_reads R db db'"
  shows "uniswap_v2_out db' x p t f = uniswap_v2_out db x p t f"
    and "aerodrome_out I db' x t p = aerodrome_out I db x t p"
  using assms
  by (simp_all add: same_reads_def uniswap_v2_out_def aerodrome_out_def get_reserves_def
      get_token0_def zero_to_one_def)

lemma compute_depends:
  assumes "same_reads R db db'" and "aero_reads R E"
    and "v3_type ty \<longrightarrow> (\<forall>k \<in> {0, 4, 14}. cached_slot db p k \<noteq> None)"
  shows "compute_amount_out (with_evm R evm E) db' x p t ty fee =
    compute_amount_out (with_evm R evm E) db x p t ty fee"
proof -
  have a: "cn_aero (with_evm R evm E) db' = cn_aero (with_evm R evm E) db"
    using assms(1,2) by (simp add: aero_reads_def with_evm_fields)
  show ?thesis
  proof (cases "v3_type ty")
    case True
    then have "native ty" by (auto simp: v3_type_def native_def)
    with v3_cached_agree [OF assms(1)] assms(3) True a show ?thesis by (intro agree_compute) auto
  next
    case False
    then show ?thesis
      by (cases ty) (simp_all add: v3_type_def compute_amount_out_def same_reads_outputs [OF assms(1)]
        a maverick_v2_out_def curve_out_def transact_depends [OF assms(1)])
  qed
qed

lemma compute_no_evm:
  assumes "native ty"
  shows "compute_amount_out (with_evm R evm E) db x p t ty fee = compute_amount_out E db x p t ty fee"
  using assms by (cases ty) (simp_all add: native_def compute_amount_out_def with_evm_fields)

lemma compute_amount_out_db_result:
  "map_option fst (compute_amount_out_db R evm E db x p t ty fee) =
     compute_amount_out (with_evm R evm E) db x p t ty fee"
proof (cases "native ty")
  case True
  from compute_no_evm [OF this] show ?thesis
    using True by (auto simp: compute_amount_out_db_def native_def option.map_comp comp_def option.map_ident)
next
  case False
  then show ?thesis
    by (cases ty) (simp_all add: native_def compute_amount_out_db_def compute_amount_out_def
      curve_out_db_result maverick_v2_out_db_result)
qed

lemma compute_amount_out_db_same:
  "compute_amount_out_db R evm E db x p t ty fee = Some (r, db') \<Longrightarrow> same_reads R db db'"
  using evm_out_same_reads(1,2)
  by (auto simp: compute_amount_out_db_def split: if_splits) (metis snd_conv)+

lemma v3_cached_same: "same_reads R db db' \<Longrightarrow> v3_cached db ss \<Longrightarrow> v3_cached db' ss"
  by (fastforce simp: v3_cached_def same_reads_def)

text \<open>One step of a path, on a database that reads like the first one.\<close>

lemma compute_step:
  assumes "same_reads R db0 db" and "aero_reads R E" and "v3_cached db0 (s # ss)"
  obtains (loops) "compute_amount_out_db R evm E db x (st_pool s) (st_token_in s) (st_protocol s)
      (st_fee s) = None" "step_output (with_evm R evm E) db0 s x = None"
  | (returns) r db' where "compute_amount_out_db R evm E db x (st_pool s) (st_token_in s)
      (st_protocol s) (st_fee s) = Some (r, db')" "step_output (with_evm R evm E) db0 s x = Some r"
      "same_reads R db0 db'" "v3_cached db0 ss"
proof -
  let ?c = "compute_amount_out_db R evm E db x (st_pool s) (st_token_in s) (st_protocol s) (st_fee s)"
  have "compute_amount_out (with_evm R evm E) db x (st_pool s) (st_token_in s) (st_protocol s) (st_fee s)
      = step_output (with_evm R evm E) db0 s x"
    unfolding step_output_def using assms by (intro compute_depends) (auto simp: v3_cached_def)
  with compute_amount_out_db_result [of R evm E db x "st_pool s" "st_token_in s" "st_protocol s" "st_fee s"]
  have out: "map_option fst ?c = step_output (with_evm R evm E) db0 s x" by simp
  have v3: "v3_cached db0 ss" using assms(3) by (simp add: v3_cached_def)
  show ?thesis
  proof (cases ?c)
    case None
    with out loops show ?thesis by simp
  next
    case (Some q)
    obtain r db' where q: "q = (r, db')" by force
    from compute_amount_out_db_same [OF Some [unfolded q]] assms(1) have "same_reads R db0 db'"
      by (blast intro: same_reads_trans)
    with returns Some q out v3 show ?thesis by simp
  qed
qed

lemma debug_steps_threaded:
  assumes "same_reads R db0 db" and "aero_reads R E" and "v3_cached db0 ss"
  shows "map_option fst (debug_steps_db R evm E db ss x acc) = debug_steps (with_evm R evm E) db0 ss x acc
     \<and> (\<forall>r db'. debug_steps_db R evm E db ss x acc = Some (r, db') \<longrightarrow> same_reads R db0 db')"
  using assms(1,3)
proof (induction ss arbitrary: db x acc)
  case (Cons s ss)
  from Cons.prems(1) assms(2) Cons.prems(2) show ?case
  proof (cases rule: compute_step [where evm = evm and x = x])
    case (returns r db')
    with Cons.IH [OF returns(3,4)] show ?thesis by (cases r) simp_all
  qed simp
qed simp

lemma calc_steps_threaded:
  assumes "same_reads R db0 db" and "aero_reads R E" and "v3_cached db0 ss"
  shows "map_option fst (calc_steps_db R evm E db ss x c) = calc_steps (with_evm R evm E) db0 ss x c
     \<and> (\<forall>r db'. calc_steps_db R evm E db ss x c = Some (r, db') \<longrightarrow> same_reads R db0 db')"
  using assms(1,3)
proof (induction ss arbitrary: db x c)
  case (Cons s ss)
  have v3: "v3_cached db0 ss" using Cons.prems(2) by (simp add: v3_cached_def)
  show ?case
  proof (cases "cache_get c x (st_pool s)")
    case None
    from Cons.prems(1) assms(2) Cons.prems(2) show ?thesis
    proof (cases rule: compute_step [where evm = evm and x = x])
      case (returns r db')
      with None Cons.IH [OF returns(3,4)] show ?thesis
        by (cases r) (simp_all add: Let_def with_evm_fields)
    qed (simp add: None)
  next
    case (Some v)
    with Cons.IH [OF Cons.prems(1) v3] Cons.prems(1) show ?thesis by simp
  qed
qed simp

lemma quote_path_threaded:
  assumes "same_reads R db0 db"
  obtains r db' where "quote_path_db R evm dec db params = (r, db')"
    "quote_path (with_evm R evm E) dec db0 params = r" "same_reads R db0 db'"
proof -
  obtain r db' where q: "quote_path_db R evm dec db params = (r, db')" by force
  with quote_path_db_result [of R evm dec db params E] quote_path_depends [OF assms, of evm E dec params]
  have "quote_path (with_evm R evm E) dec db0 params = r" by simp
  moreover from evm_out_same_reads(3) [of R db evm dec params] q assms have "same_reads R db0 db'"
    by (auto intro: same_reads_trans)
  ultimately show ?thesis using q that by blast
qed

lemma optimize_loop_threaded:
  assumes "\<And>n d. same_reads R d (others n d)" and "same_reads R db0 db"
  shows "fst (optimize_loop_db R evm dec others db params n x b out) =
       optimize_loop (with_evm R evm E) dec db0 params n x b out
     \<and> same_reads R db0 (snd (optimize_loop_db R evm dec others db params n x b out))"
  using assms(2)
proof (induction n arbitrary: db params x b out)
  case (Suc n)
  let ?x = "x + 200000000000000"
  have "same_reads R db0 (others n db)" using Suc.prems assms(1) by (blast intro: same_reads_trans)
  then obtain r db' where q: "quote_path_db R evm dec (others n db) (params\<lparr>pr_amount_in := ?x\<rparr>) = (r, db')"
    "quote_path (with_evm R evm E) dec db0 (params\<lparr>pr_amount_in := ?x\<rparr>) = r" "same_reads R db0 db'"
    by (rule quote_path_threaded)
  show ?case
  proof (cases r)
    case (Inl f)
    with q show ?thesis by (cases f) (simp_all add: Let_def)
  next
    case (Inr amounts)
    with q Suc.IH [OF q(3)] show ?thesis
      by (cases "last_amount amounts") (simp_all add: Let_def)
  qed
qed simp

text \<open>
  C13: The calculation of a path on the mutable database, where Curve and Maverick steps run the EVM:
  with the V3 pools of the path in the cache it gives what it gives with an EVM that returns its
  result only, leaves the same cache of outputs, and a database with the same reads.
\<close>

theorem calculate_output_threaded:
  assumes "aero_reads R E" and "v3_cached db (sp_steps path)"
  shows "map_option fst (calculate_output_db R evm E db path c) =
       calculate_output (with_evm R evm E) db path c
     \<and> (\<forall>r db'. calculate_output_db R evm E db path c = Some (r, db') \<longrightarrow> same_reads R db db')"
  unfolding calculate_output_db_def calculate_output_def
  by (rule calc_steps_threaded [OF same_reads_refl assms])

text \<open>An EVM that returns the low byte of slot 3 of token 10, and a path through a pool of each
  kind.\<close>

definition ex_evm :: evm where
  "ex_evm caller target call = Ask (Q_storage 10 3) (\<lambda>a. Finished (case a of
     A_storage v \<Rightarrow> Ok (Success [ucast v], []) | _ \<Rightarrow> err Transport_error))"

definition ex_byte_env :: calc_env where
  "ex_byte_env = ex_env\<lparr>cn_decode1 := (\<lambda>bs. Some (ucast (hd bs)))\<rparr>"

definition ex_byte_dec :: amounts_decoder where
  "ex_byte_dec bs = Some [ucast (hd bs)]"

definition ex_curve_path :: swap_path where
  "ex_curve_path = ex_path [ex_step 10 20, ex_step 20 10\<lparr>st_protocol := CurveTwoCrypto\<rparr>]"

lemma ex_evm_answer:
  "eval_reader (db_view ex_revm ex_v2_db) (ex_evm caller target call) = Ok (Success [8], [])"
  by (simp add: ex_evm_def db_view_def storage_view_def cached_slot_def provider_read_def
      account_view_def basic_ref_def ex_v2_db_def ex_with_def ex_pool_def ex_defs)

lemma ex_aero_reads: "aero_reads R ex_byte_env" "aero_reads R ex_env"
  by (simp_all add: aero_reads_def ex_byte_env_def ex_env_def)

lemma ex_curve_output:
  "\<exists>c. calculate_output (with_evm ex_revm ex_evm ex_byte_env) ex_v2_db ex_curve_path calculator_cache =
     Some (Ok 8, c)"
proof -
  let ?E = "with_evm ex_revm ex_evm ex_byte_env"
  let ?c = "ex_set calculator_cache AMOUNT 77 1999999"
  have st: "st_pool (ex_step a b) = 77" for a b by (simp add: ex_step_def)
  have c: "cn_cache_set ?E = ex_set" by (simp add: with_evm_fields ex_byte_env_def ex_env_def)
  have m: "cache_get calculator_cache x p = None" for x p
    by (simp add: calculator_cache_def cache_new_def cache_get_def)
  have m': "cache_get ?c 1999999 77 = None"
    using ex_set_law m by (simp add: cache_set_law_def AMOUNT_def)
  have s1: "step_output ?E ex_v2_db (ex_step 10 20) AMOUNT = Some (Ok 1999999)"
    by (simp add: step_output_def compute_amount_out_def ex_step_def uniswap_v2_out_def
        ex_v2_db_reads AMOUNT_def udiv_def Let_def)
  have s2: "step_output ?E ex_v2_db (ex_step 20 10\<lparr>st_protocol := CurveTwoCrypto\<rparr>) x = Some (Ok 8)" for x
    by (simp add: step_output_def compute_amount_out_def ex_step_def curve_out_def with_evm_fields
        transact_answer ex_evm_answer ex_byte_env_def)
  show ?thesis
    by (simp add: calculate_output_def ex_curve_path_def ex_path_def m m' s1 s2 st c Let_def)
qed

theorem calculate_output_threaded_witness:
  "\<exists>c db'. calculate_output_db ex_revm ex_evm ex_byte_env ex_v2_db ex_curve_path calculator_cache =
       Some ((Ok 8, c), db') \<and> same_reads ex_revm ex_v2_db db'"
proof -
  have "v3_cached ex_v2_db (sp_steps ex_curve_path)"
    by (simp add: v3_cached_def v3_type_def ex_curve_path_def ex_path_def ex_step_def)
  note t = calculate_output_threaded [OF ex_aero_reads(1) this, of ex_revm ex_evm calculator_cache]
  obtain c where "calculate_output (with_evm ex_revm ex_evm ex_byte_env) ex_v2_db ex_curve_path
      calculator_cache = Some (Ok 8, c)" using ex_curve_output by blast
  with t show ?thesis by auto
qed

text \<open>
  C7: The simulator on the mutable database. Every quote fills the cache, the lock is free between
  the quotes, and other tasks may read in the meantime; yet the simulation of a path answers what
  it answers with an EVM that returns its result only, for any EVM, and leaves a database with
  the same reads behind. In simulation mode this takes that the V3 pools of the path have their
  slots 0, 4 and 14 in the cache, for an EVM read puts them there.
\<close>

theorem simulate_path_threaded:
  fixes progs :: "nat \<Rightarrow> (db_query, db_answer, unit) reader"
  assumes "others = (\<lambda>n d. snd (run_reader (db_read R) (progs n) d))" and "aero_reads R E"
    and "sim \<longrightarrow> v3_cached db (sp_steps path)"
  shows "map_option fst (simulate_path_db R evm others is_v3 E dec sim db path out n bl) =
       simulate_path is_v3 (with_evm R evm E) dec sim db path out n bl
     \<and> (\<forall>r db'. simulate_path_db R evm others is_v3 E dec sim db path out n bl = Some (r, db') \<longrightarrow>
          same_reads R db db')"
proof -
  have others: "same_reads R d (others n d)" for n d by (simp add: assms(1) run_same_reads)
  obtain r db1 where q: "quote_path_db R evm dec db (to_quoter_params is_v3 path) = (r, db1)"
    "quote_path (with_evm R evm E) dec db (to_quoter_params is_v3 path) = r" "same_reads R db db1"
    using quote_path_threaded [OF same_reads_refl] .
  show ?thesis
  proof (cases r)
    case (Inl f)
    with q show ?thesis by (cases f) (simp_all add: simulate_path_db_def simulate_path_def Let_def)
  next
    case (Inr amounts)
    show ?thesis
    proof (cases "last_amount amounts")
      case (Inl f)
      with Inr q show ?thesis by (simp add: simulate_path_db_def simulate_path_def Let_def)
    next
      case last: (Inr v)
      show ?thesis
      proof (cases sim)
        case True
        with debug_steps_threaded [OF q(3) assms(2), of "sp_steps path" evm AMOUNT "[AMOUNT]"] assms(3)
        have d: "debug_calculation (with_evm R evm E) db path =
            map_option fst (debug_steps_db R evm E db1 (sp_steps path) AMOUNT [AMOUNT])"
          "\<forall>r db'. debug_steps_db R evm E db1 (sp_steps path) AMOUNT [AMOUNT] = Some (r, db') \<longrightarrow>
             same_reads R db db'" by (simp_all add: debug_calculation_def)
        show ?thesis using True q Inr last d(2)
          by (auto simp: simulate_path_db_def simulate_path_def Let_def d(1) split: option.splits sum.splits)
      next
        case False
        let ?p = "to_quoter_params is_v3 path"
        obtain ro db2 where o: "optimize_input_db R evm dec others db1 ?p v = (ro, db2)" by force
        with optimize_loop_threaded [where others = others, OF others q(3), of evm dec ?p 50 AMOUNT AMOUNT v E]
        have "optimize_input (with_evm R evm E) dec db ?p v = ro" "same_reads R db db2"
          by (simp_all add: optimize_input_def optimize_input_db_def)
        with False q Inr last o show ?thesis
          by (cases ro) (auto simp: simulate_path_db_def simulate_path_def Let_def)
      qed
    qed
  qed
qed

text \<open>A path that is sent, while another task reads slot 1 of token 20.\<close>

theorem simulate_path_threaded_witness:
  "\<exists>params db'. simulate_path_db ex_revm ex_evm
       (\<lambda>n d. snd (run_reader (db_read ex_revm) (Ask (Q_storage 20 1) (\<lambda>_. Finished (Ok ()))) d))
       (\<lambda>_. False) ex_env ex_byte_dec False ex_v2_db ex_curve_path 1100000000000000 4 {} =
     Some (Ok ({}, [ValidPath params 100000000000000 4]), db') \<and> same_reads ex_revm ex_v2_db db'"
proof -
  let ?E = "with_evm ex_revm ex_evm ex_env" and ?p = "to_quoter_params (\<lambda>_. False) ex_curve_path"
  let ?sim = "simulate_path_db ex_revm ex_evm
       (\<lambda>n d. snd (run_reader (db_read ex_revm) (Ask (Q_storage 20 1) (\<lambda>_. Finished (Ok ()))) d))
       (\<lambda>_. False) ex_env ex_byte_dec False ex_v2_db ex_curve_path 1100000000000000 4 {}"
  have q: "quote_path ?E ex_byte_dec ex_v2_db params = Ok [8]" for params
    by (simp add: quote_path_def with_evm_fields transact_answer ex_evm_answer ex_byte_dec_def)
  have "optimize_loop ?E ex_byte_dec ex_v2_db ?p (Suc n) AMOUNT AMOUNT 8 = Ok (AMOUNT, 8)" for n
    by (simp add: q last_amount_def Let_def)
  from this [of 49] have "optimize_input ?E ex_byte_dec ex_v2_db ?p 8 = Ok (AMOUNT, 8)"
    by (simp add: optimize_input_def)
  then have "simulate_path (\<lambda>_. False) ?E ex_byte_dec False ex_v2_db ex_curve_path 1100000000000000 4 {} =
      Some (Ok ({}, [ValidPath (?p\<lparr>pr_amount_in := AMOUNT\<rparr>) 100000000000000 4]))"
    by (simp add: simulate_path_def q last_amount_def Let_def AMOUNT_def)
  moreover have "map_option fst ?sim = simulate_path (\<lambda>_. False) ?E ex_byte_dec False ex_v2_db
        ex_curve_path 1100000000000000 4 {}
     \<and> (\<forall>r db'. ?sim = Some (r, db') \<longrightarrow> same_reads ex_revm ex_v2_db db')"
    by (rule simulate_path_threaded [OF refl ex_aero_reads(2)]) simp
  ultimately show ?thesis by auto
qed



subsection \<open>What a block does to a cached answer\<close>

text \<open>A question whose answer the blocks do not replace: all but the slots they report for tracked
  pools.\<close>

fun unreported :: "client \<Rightarrow> u64 list \<Rightarrow> state_db \<Rightarrow> db_query \<Rightarrow> bool" where
  "unreported client ns db (Q_storage a k) \<longleftrightarrow> (a \<in> db_pools db \<longrightarrow>
     (\<forall>n \<in> set ns. \<forall>rs. client n = Some rs \<longrightarrow> k \<notin> fst ` set (reported (posts rs) a)))"
| "unreported client ns db _ \<longleftrightarrow> True"

lemma update_slot_held:
  assumes "db_held q v db" and "\<And>k. q = Q_storage a k \<Longrightarrow> k \<noteq> fst kv"
  shows "db_held q v (update_slot a kv db)"
  using assms
  by (cases "(q, v, db)" rule: db_held.cases)
    (auto simp: update_slot_def cached_slot_def split: option.splits)

lemma update_slots_held:
  assumes "db_held q v db" and "\<And>k. q = Q_storage a k \<Longrightarrow> k \<notin> fst ` set kvs"
  shows "db_held q v (fold (update_slot a) kvs db)"
  using assms
proof (induction kvs arbitrary: db)
  case (Cons kv kvs)
  have "db_held q v (update_slot a kv db)"
    using Cons.prems by (intro update_slot_held) auto
  with Cons show ?case by simp
qed simp

lemma apply_updates_held:
  assumes "rfold apply_update ps (db, upd) = Ok (db', upd')" and "db_held q v db"
    and "\<And>a k. q = Q_storage a k \<Longrightarrow> a \<in> db_pools db \<Longrightarrow> k \<notin> fst ` set (reported ps a)"
  shows "db_held q v db' \<and> db_pools db' = db_pools db"
  using assms
proof (induction ps arbitrary: db upd)
  case (Cons p ps)
  obtain a ts where p: "p = (a, ts)" by force
  let ?kvs = "case ts_storage ts of None \<Rightarrow> [] | Some kvs \<Rightarrow> kvs"
  have rep: "reported (p # ps) b = (if b = a then ?kvs else []) @ reported ps b" for b
    by (simp add: reported_def p)
  obtain db1 upd1 where s: "apply_update p (db, upd) = Ok (db1, upd1)"
    "rfold apply_update ps (db1, upd1) = Ok (db', upd')"
    using Cons.prems(1) by (auto simp: rbind_eq_Inr)
  have "db_held q v db1 \<and> db_pools db1 = db_pools db"
  proof (cases "a \<in> db_pools db")
    case True
    with s(1) have u: "update_all_slots db a ts = Ok db1"
      by (simp add: p apply_update_def tracking_pool_def rbind_eq_Inr)
    then have "db1 = fold (update_slot a) ?kvs db"
      by (auto simp: update_all_slots_def split: option.splits)
    moreover have "k \<notin> fst ` set ?kvs" if "q = Q_storage a k" for k
      using Cons.prems(3) [OF that True]
      by (simp only: rep refl if_True set_append image_Un Un_iff de_Morgan_disj simp_thms)
    ultimately show ?thesis
      using update_slots_held [OF Cons.prems(2), of a ?kvs] update_all_slots_fields(1) [OF u] by simp
  next
    case False
    with s(1) Cons.prems(2) show ?thesis by (simp add: p apply_update_def tracking_pool_def)
  qed
  moreover have "k \<notin> fst ` set (reported ps b)" if "q = Q_storage b k" "b \<in> db_pools db" for b k
    using Cons.prems(3) [OF that]
    by (simp only: rep set_append image_Un Un_iff de_Morgan_disj simp_thms)
  ultimately show ?case using Cons.IH [OF s(2)] by auto
qed simp

lemma apply_blocks_held:
  assumes "apply_blocks client ns db = Ok db'" and "db_held q v db" and "unreported client ns db q"
  shows "db_held q v db'"
  using assms
proof (induction ns arbitrary: db)
  case (Cons n ns)
  then obtain db1 upd where u: "update_state client n db = Ok (db1, upd)"
    "apply_blocks client ns db1 = Ok db'" by (auto simp: apply_blocks_def rbind_eq_Inr)
  then obtain rs where rs: "client n = Some rs" "rfold apply_update (posts rs) (db, {}) = Ok (db1, upd)"
    by (auto simp: update_state_eq split: option.splits)
  have "k \<notin> fst ` set (reported (posts rs) a)" if "q = Q_storage a k" "a \<in> db_pools db" for a k
    using Cons.prems(3) that rs(1) by auto
  with apply_updates_held [OF rs(2) Cons.prems(2)] have h: "db_held q v db1" "db_pools db1 = db_pools db"
    by blast+
  have "unreported client ns db1 q"
    using Cons.prems(3) h(2) by (cases q) auto
  with Cons.IH [OF u(2) h(1)] show ?case .
qed (simp add: apply_blocks_def)

lemma held_provider: "db_held q v (db\<lparr>db_provider := prov\<rparr>) = db_held q v db"
  by (cases "(q, v, db)" rule: db_held.cases) (simp_all add: cached_slot_def)

text \<open>
  C8: A successful quote freezes what it has read. The blocks the updater applies later replace only
  slots of tracked pools; so a quote that has read none of the reported ones gives the same
  amounts again after these blocks, whatever the node would answer by then, and asks the node
  nothing. Balances of the tokens are slots of the token contracts, which are not tracked.
\<close>

theorem quote_frozen:
  assumes "quote_path_db R evm dec db params = (Ok amounts, db1)"
    and "apply_blocks client ns db1 = Ok db2"
    and "\<forall>(q, a) \<in> set (asked (db_read R) (evm quote_caller quoter_address (Quote_arbitrage params)) db).
      unreported client ns db1 q"
  shows "quote_path_db R evm dec (db2\<lparr>db_provider := prov\<rparr>) params =
    (Ok amounts, db2\<lparr>db_provider := prov\<rparr>)"
proof -
  let ?p = "evm quote_caller quoter_address (Quote_arbitrage params)"
  let ?db2 = "db2\<lparr>db_provider := prov\<rparr>"
  from assms(1) obtain res where res: "run_reader (db_read R) ?p db = (Ok res, db1)"
    "\<And>d. transact_db R evm d quote_caller quoter_address (Quote_arbitrage params) = (Ok res, d) \<Longrightarrow>
       quote_path_db R evm dec d params = (Ok amounts, d)"
    by (auto simp: quote_path_db_def transact_db_def rbind_eq_Inr split: prod.splits)
  have "db_held q a ?db2" if q: "(q, a) \<in> set (asked (db_read R) ?p db)" for q a
  proof -
    from dr.asked_held [OF q] res(1) have "db_held q a db1" by simp
    with apply_blocks_held [OF assms(2)] assms(3) q show ?thesis by (auto simp: held_provider)
  qed
  then have "run_reader (db_read R) ?p ?db2 = (Ok res, ?db2)"
    by (intro dr.run_replays [OF res(1)]) auto
  then show ?thesis by (intro res(2)) (simp add: transact_db_def)
qed

text \<open>The balance of the token in slot 3 is 8 and becomes 99 in the block, in which pool 77 changes
  too. The quote after the block still computes with 8, although the node says 99.\<close>

definition ex_token_traces :: "trace_result list" where
  "ex_token_traces = [Trace_success (Pre_state_diff [(10, \<lparr>ts_storage = Some [(3, 99)]\<rparr>),
     (77, \<lparr>ts_storage = Some [(8, pack_reserves 9 300 400)]\<rparr>)])]"

definition ex_quote_params :: swap_params where
  "ex_quote_params = \<lparr>pr_pools = [77], pr_versions = [0], pr_amount_in = AMOUNT\<rparr>"

theorem quote_frozen_witness:
  "\<exists>db1 db2. quote_path_db ex_revm ex_evm ex_byte_dec ex_v2_db ex_quote_params = (Ok [8], db1)
     \<and> reported (posts ex_token_traces) 10 = [(3, 99)]
     \<and> update_state (\<lambda>n. Some ex_token_traces) 7 db1 = Ok (db2, {77})
     \<and> fst (quote_path_db ex_revm ex_evm ex_byte_dec
          (db2\<lparr>db_provider := ex_provider\<lparr>rpc_storage := \<lambda>a k. Some 99\<rparr>\<rparr>) ex_quote_params) = Ok [8]"
proof -
  let ?client = "\<lambda>n :: u64. Some ex_token_traces"
  let ?prov = "ex_provider\<lparr>rpc_storage := \<lambda>a k. Some 99\<rparr>"
  obtain r db1 where q: "quote_path_db ex_revm ex_evm ex_byte_dec ex_v2_db ex_quote_params = (r, db1)"
    "quote_path (with_evm ex_revm ex_evm ex_env) ex_byte_dec ex_v2_db ex_quote_params = r" "same_reads ex_revm ex_v2_db db1"
    using quote_path_threaded [OF same_reads_refl] .
  then have r: "r = Ok [8]"
    by (simp add: quote_path_def with_evm_fields transact_answer ex_evm_answer ex_byte_dec_def)
  have pools: "db_pools db1 = {77}" using q(3) by (simp add: same_reads_def ex_v2_db_fields)
  obtain db2 upd where u: "update_state ?client 7 db1 = Ok (db2, upd)"
    using update_state_Ok [of ?client 7 db1] by auto
  with apply_updates [of "posts ex_token_traces" db1 "{}"] pools have "upd = {77}"
    by (auto simp: update_state_eq ex_token_traces_def)
  moreover have "fst (quote_path_db ex_revm ex_evm ex_byte_dec (db2\<lparr>db_provider := ?prov\<rparr>) ex_quote_params) = Ok [8]"
  proof -
    have b: "apply_blocks ?client [7] db1 = Ok db2" using u by (simp add: apply_blocks_def)
    have "\<forall>(q', a) \<in> set (asked (db_read ex_revm)
          (ex_evm quote_caller quoter_address (Quote_arbitrage ex_quote_params)) ex_v2_db).
        unreported ?client [7] db1 q'"
      using pools by (auto simp: ex_evm_def split: prod.splits sum.splits)
    from quote_frozen [OF q(1) [unfolded r] b this, of ?prov] show ?thesis by simp
  qed
  moreover have "reported (posts ex_token_traces) 10 = [(3, 99)]"
    by (simp add: ex_token_traces_def reported_def)
  ultimately show ?thesis using q(1) r u by blast
qed

end
