(* ===== verification/MarketLife.thy ===== *)
theory MarketLife
  imports EvmRuns
begin

text \<open>
  The life of the database of the market state (\<^verbatim>\<open>market_state.rs\<close>): the initialisation with the
  EVM on the mutable database, and then, in any order, the blocks of the updater and the reads of
  the EVM runs of all other tasks.
\<close>

subsection \<open>Initialisation on the mutable database\<close>

definition warm_up_pool_db :: "revm \<Rightarrow> evm \<Rightarrow> u256 \<Rightarrow> pool \<Rightarrow> state_db \<Rightarrow> state_db res" where
  "warm_up_pool_db R evm balance_slot p db =
     (let ten_units = 10000000000000000000;
          (r, db) = insert_account_storage R db (pl_token0 p) balance_slot ten_units OnChain
      in rbind (unwrap_res r) (\<lambda>_.
         rbind (unwrap_res (transact_commit_db R evm db quote_caller (pl_token0 p)
                  (Approve quoter_address 1000000000000000000))) (\<lambda>db.
         let quote_path = \<lparr>pr_pools = [pl_address p], pr_versions = [if pl_is_v3 p then 1 else 0],
                           pr_amount_in = AMOUNT\<rparr>;
             (r, db) = transact_db R evm db quote_caller quoter_address
                         (Abi_bytes (Quote_arbitrage quote_path))
         in rbind (unwrap_res r) (\<lambda>_. Ok db))))"

definition warm_up_database_db ::
  "revm \<Rightarrow> evm \<Rightarrow> keccak \<Rightarrow> bytecode \<Rightarrow> (bytecode \<Rightarrow> b256) \<Rightarrow> pool list \<Rightarrow> state_db \<Rightarrow> state_db res"
where
  "warm_up_database_db R evm kc quoter_bytecode keccak_bytes pools db =
     (let balance_slot = hashed_slot kc 3 (ucast quote_caller);
          quoter_acc_info = \<lparr>ai_balance = 0, ai_nonce = 0,
            ai_code_hash = keccak_bytes quoter_bytecode, ai_code = Some quoter_bytecode\<rparr>;
          db = insert_account_info R db quoter_address quoter_acc_info Custom
      in rfold (warm_up_pool_db R evm balance_slot) pools db)"

definition init_state_db ::
  "revm \<Rightarrow> evm \<Rightarrow> keccak \<Rightarrow> bytecode \<Rightarrow> (bytecode \<Rightarrow> b256) \<Rightarrow> bool \<Rightarrow> provider \<Rightarrow> pool list \<Rightarrow>
     state_db res"
where
  "init_state_db R evm kc quoter_bytecode keccak_bytes have_runtime prov pools =
     rbind (unwrap_opt (state_db_new R have_runtime prov)) (\<lambda>db.
     rbind (warm_up_database_db R evm kc quoter_bytecode keccak_bytes pools db) (\<lambda>db.
       populate_db_with_pools kc R pools db))"

text \<open>The warm-up tracks no pool.\<close>

lemma transact_fields:
  "db_pools (snd (transact_db R evm db caller target call)) = db_pools db"
  "db_pool_info (snd (transact_db R evm db caller target call)) = db_pool_info db"
  using transact_same_reads [of R db evm caller target call] by (simp_all add: same_reads_def)

lemma transact_commit_fields:
  assumes "transact_commit_db R evm db caller target call = Ok db'"
  shows "db_pools db' = db_pools db \<and> db_pool_info db' = db_pool_info db"
proof -
  obtain r d where t: "transact_db R evm db caller target call = (r, d)" by force
  then have d: "db_pools d = db_pools db" "db_pool_info d = db_pool_info db"
    using transact_fields [of R evm db caller target call] by simp_all
  from assms t obtain result changes where "r = Ok (result, changes)" "db' = commit R d changes"
    by (cases r) (auto simp: transact_commit_db_def)
  with d show ?thesis by (simp add: commit_fields)
qed

lemma warm_up_pool_fields:
  assumes "warm_up_pool_db R evm slot p db = Ok db'"
  shows "db_pools db' = db_pools db \<and> db_pool_info db' = db_pool_info db"
proof -
  obtain r d where i: "insert_account_storage R db (pl_token0 p) slot 10000000000000000000 OnChain = (r, d)"
    by force
  let ?call = "Abi_bytes (Quote_arbitrage \<lparr>pr_pools = [pl_address p],
    pr_versions = [if pl_is_v3 p then 1 else 0], pr_amount_in = AMOUNT\<rparr>)"
  from assms i obtain d1 where c: "transact_commit_db R evm d quote_caller (pl_token0 p)
      (Approve quoter_address 1000000000000000000) = Ok d1"
    by (auto simp: warm_up_pool_db_def Let_def rbind_eq_Inr)
  obtain r' d2 where t: "transact_db R evm d1 quote_caller quoter_address ?call = (r', d2)" by force
  with assms i c have db': "db' = d2" by (auto simp: warm_up_pool_db_def Let_def rbind_eq_Inr)
  from insert_account_storage_fields [of R db "pl_token0 p" slot 10000000000000000000 OnChain] i
  have "db_pools d = db_pools db \<and> db_pool_info d = db_pool_info db" by simp
  moreover from transact_fields [of R evm d1 quote_caller quoter_address ?call] t
  have "db_pools d2 = db_pools d1" "db_pool_info d2 = db_pool_info d1" by simp_all
  ultimately show ?thesis using transact_commit_fields [OF c] db' by simp
qed

lemma warm_up_database_fields:
  assumes "warm_up_database_db R evm kc code kb ps db = Ok db'"
  shows "db_pools db' = db_pools db \<and> db_pool_info db' = db_pool_info db"
  by (rule rfold_invariant [OF assms [unfolded warm_up_database_db_def Let_def]])
    (auto dest: warm_up_pool_fields)

subsection \<open>What populating leaves in the cache\<close>

text \<open>A pool whose slots 0, 4 and 14 are in the cache, where the V3 calculation finds them.\<close>

definition v3_warm :: "state_db \<Rightarrow> address \<Rightarrow> bool" where
  "v3_warm db a \<longleftrightarrow> (\<forall>k \<in> {0, 4, 14}. cached_slot db a k \<noteq> None)"

lemma cached_value_Ok: "cached_value db a k = Ok v \<Longrightarrow> cached_slot db a k \<noteq> None"
  by (auto simp: cached_value_def cached_slot_def rbind_eq_Inr)

lemma put_all_cached:
  assumes "sr.put_all a kvs db = Inr db'"
  shows "k \<in> fst ` set kvs \<Longrightarrow> cached_slot db' a k \<noteq> None"
    and "b \<noteq> a \<Longrightarrow> cached_slot db b j \<noteq> None \<Longrightarrow> cached_slot db' b j \<noteq> None"
proof -
  note g = cv.get_put_all [OF assms]
  show "cached_slot db' a k \<noteq> None" if "k \<in> fst ` set kvs"
  proof -
    from that have "map_of (rev kvs) k \<noteq> None" by (simp add: map_of_eq_None_iff)
    then obtain v where "map_of (rev kvs) k = Some v" by blast
    with g [of a k] have "cached_value db' a k = Ok v" by simp
    then show ?thesis by (rule cached_value_Ok)
  qed
  show "cached_slot db' b j \<noteq> None" if "b \<noteq> a" "cached_slot db b j \<noteq> None"
  proof -
    from that(2) obtain sl where "cached_slot db b j = Some sl" by auto
    with g [of b j] that(1) have "cached_value db' b j = Ok (sl_value sl)" by (simp add: cached_value_slot)
    then show ?thesis by (rule cached_value_Ok)
  qed
qed

lemma populate_v3_warm:
  assumes "populate_pool kc R p db = Ok db'" and "pl_is_v3 p" "\<not> pl_is_v2 p"
  shows "v3_warm db' (pl_address p)"
proof -
  from assms have i: "insert_v3 kc R db p = Ok db'" by (simp add: populate_pool_def)
  then obtain v3 where v3: "pl_v3 p = Some v3" by (auto simp: insert_v3_def Let_def rbind_eq_Inr)
  obtain sp where "sr.put_all (pl_address p) (v3_slots kc sp v3) (add_pool R db p) = Inr db'"
    using insert_v3_slots [OF i v3] .
  from put_all_cached(1) [OF this] show ?thesis by (simp add: v3_warm_def v3_slots_def)
qed

lemma populate_keeps_warm:
  assumes "populate_pool kc R p db = Ok db'" and "a \<noteq> pl_address p" and "v3_warm db a"
  shows "v3_warm db' a"
proof (cases "pl_is_v2 p \<or> pl_is_v3 p")
  case True
  with assms(1) obtain kvs where w: "sr.put_all (pl_address p) kvs (add_pool R db p) = Inr db'"
    by (rule populate_pool_put_all)
  have "cached_slot (add_pool R db p) a k = cached_slot db a k" for k
    using assms(2) by (simp add: cached_slot_def add_pool_accounts)
  with put_all_cached(2) [OF w assms(2)] assms(3) show ?thesis by (simp add: v3_warm_def)
next
  case False
  with assms show ?thesis by (simp add: populate_pool_def)
qed

lemma populate_db_warm:
  assumes "populate_db_with_pools kc R ps db = Ok db'" and "distinct (map pl_address ps)"
    and "p \<in> set ps" "pl_is_v3 p" "\<not> pl_is_v2 p"
  shows "v3_warm db' (pl_address p)"
proof -
  from assms(3) obtain xs ys where ps: "ps = xs @ p # ys" by (meson split_list)
  with assms(2) have new: "pl_address p \<notin> pl_address ` set ys" by auto
  from assms(1) ps obtain db1 db2 where one: "populate_pool kc R p db1 = Ok db2"
    and later: "rfold (populate_pool kc R) ys db2 = Ok db'"
    by (auto simp: populate_db_with_pools_def rfold_append rbind_eq_Inr)
  show ?thesis
  proof (rule rfold_invariant [OF later])
    show "v3_warm db2 (pl_address p)" using populate_v3_warm [OF one] assms(4,5) .
    show "v3_warm t (pl_address p)" if "x \<in> set ys" "v3_warm s (pl_address p)"
        "populate_pool kc R x s = Inr t" for x s t
      using populate_keeps_warm [OF that(3) _ that(2)] that(1) new by auto
  qed
qed

subsection \<open>The life of the database\<close>

text \<open>What the market state of a bot can be after its start: blocks of the updater and the reads of
  EVM runs, in any order.\<close>

inductive market_db ::
  "revm \<Rightarrow> client \<Rightarrow> (state_db res) \<Rightarrow> state_db \<Rightarrow> bool"
  for R client start
where
  started: "start = Ok db \<Longrightarrow> market_db R client start db"
| block: "market_db R client start db \<Longrightarrow> update_state client n db = Ok (db', updated) \<Longrightarrow>
     market_db R client start db'"
| evm_reads: "market_db R client start db \<Longrightarrow>
     market_db R client start (snd (run_reader (db_read R) (program :: (db_query, db_answer, unit) reader) db))"

lemma update_slot_cached:
  "cached_slot db b k \<noteq> None \<Longrightarrow> cached_slot (update_slot a kv db) b k \<noteq> None"
  by (auto simp: update_slot_def cached_slot_def split: option.splits)

lemma update_slots_cached:
  "cached_slot db b k \<noteq> None \<Longrightarrow> cached_slot (fold (update_slot a) kvs db) b k \<noteq> None"
proof (induction kvs arbitrary: db)
  case (Cons kv kvs)
  from Cons.IH [OF update_slot_cached [OF Cons.prems]] show ?case by simp
qed simp

lemma update_all_slots_cached:
  assumes "update_all_slots db a ts = Ok db'" and "cached_slot db b k \<noteq> None"
  shows "cached_slot db' b k \<noteq> None"
proof (cases "ts_storage ts")
  case (Some kvs)
  with assms(1) have "db' = fold (update_slot a) kvs db" by (simp add: update_all_slots_def)
  with update_slots_cached [OF assms(2)] show ?thesis by simp
qed (use assms in \<open>simp add: update_all_slots_def\<close>)

lemma update_state_cached:
  assumes "update_state client n db = Ok (db', upd)" and "cached_slot db b k \<noteq> None"
  shows "cached_slot db' b k \<noteq> None"
proof -
  from assms(1) obtain rs where r: "rfold apply_update (posts rs) (db, {}) = Ok (db', upd)"
    by (auto simp: update_state_eq split: option.splits)
  have "cached_slot (fst (db', upd)) b k \<noteq> None"
  proof (rule rfold_invariant [OF r])
    show "cached_slot (fst (db, {})) b k \<noteq> None" using assms(2) by simp
    fix p s t assume s: "cached_slot (fst s) b k \<noteq> None" and step: "apply_update p s = Ok t"
    obtain a ts where p: "p = (a, ts)" by force
    obtain d u where d: "s = (d, u)" by force
    from step show "cached_slot (fst t) b k \<noteq> None"
    proof (cases "tracking_pool d a")
      case True
      with step obtain d1 where "update_all_slots d a ts = Ok d1" "fst t = d1"
        by (auto simp: apply_update_def p d rbind_eq_Inr)
      with update_all_slots_cached s d show ?thesis by auto
    next
      case False
      with step s show ?thesis by (simp add: apply_update_def p d)
    qed
  qed
  then show ?thesis by simp
qed

lemma update_state_pools:
  assumes "update_state client n db = Ok (db', upd)"
  shows "db_pools db' = db_pools db"
proof -
  from assms obtain rs where "client n = Some rs" by (auto simp: update_state_eq split: option.splits)
  with update_state_reads [of client n db] assms show ?thesis by auto
qed

lemma market_db_keeps:
  assumes "market_db R client (Ok db0) db"
  shows "db_pools db = db_pools db0 \<and> db_pool_info db = db_pool_info db0
     \<and> (\<forall>a. v3_warm db0 a \<longrightarrow> v3_warm db a)"
  using assms
proof induction
  case (block db n db' updated)
  then show ?case
    using update_state_pools [OF block(2)] update_state_pool_info [OF block(2)]
      update_state_cached [OF block(2)] by (simp add: v3_warm_def)
next
  case (evm_reads db program)
  have "same_reads R db (snd (run_reader (db_read R) program db))" by (rule run_same_reads)
  with evm_reads(2) show ?case by (auto simp: same_reads_def v3_warm_def)
qed simp

lemma init_state_db_ready:
  assumes "init_state_db R evm kc code kb rt prov pools = Ok db" and "distinct (map pl_address pools)"
  shows "db_pools db = pl_address ` {p \<in> set pools. pl_is_v2 p \<or> pl_is_v3 p}
     \<and> (\<forall>p \<in> set pools. (pl_is_v2 p \<or> pl_is_v3 p \<longrightarrow> get_pool db (pl_address p) = Ok p)
          \<and> (pl_is_v3 p \<and> \<not> pl_is_v2 p \<longrightarrow> v3_warm db (pl_address p)))"
proof -
  from assms(1) obtain db0 db1 where new: "state_db_new R rt prov = Some db0"
    and warm: "warm_up_database_db R evm kc code kb pools db0 = Ok db1"
    and pop: "populate_db_with_pools kc R pools db1 = Ok db"
    by (auto simp: init_state_db_def rbind_eq_Inr)
  from new have "db_pools db0 = {}" by (auto simp: state_db_new_def split: if_splits)
  with warm_up_database_fields [OF warm] have none: "db_pools db1 = {}" by simp
  note e = populate_db_effect [OF pop assms(2)]
  have "a \<in> db_pools db \<longleftrightarrow> a \<in> pl_address ` {p \<in> set pools. pl_is_v2 p \<or> pl_is_v3 p}" for a
  proof (cases "a \<in> pl_address ` set pools")
    case False
    with populate_rest [OF pop this] none show ?thesis by auto
  next
    case True
    then obtain p where p: "p \<in> set pools" "a = pl_address p" by auto
    then obtain xs ys where ps: "pools = xs @ p # ys" by (meson split_list)
    with assms(2) have new: "a \<notin> pl_address ` set xs" "a \<notin> pl_address ` set ys" using p(2) by auto
    from pop ps obtain d1 d2 where "populate_db_with_pools kc R xs db1 = Ok d1"
      "populate_pool kc R p d1 = Ok d2" "populate_db_with_pools kc R ys d2 = Ok db"
      by (auto simp: populate_db_with_pools_def rfold_append rbind_eq_Inr)
    note r = populate_rest [OF this(1) new(1)] populate_rest [OF this(3) new(2)] this(2)
    show ?thesis
    proof (cases "pl_is_v2 p \<or> pl_is_v3 p")
      case True
      with e p show ?thesis by (auto simp: tracking_pool_def)
    next
      case False
      with r(3) have "d2 = d1" by (simp add: populate_pool_def)
      with r(1,2) none have "a \<notin> db_pools db" by simp
      moreover have "p' = p" if "p' \<in> set pools" "pl_address p' = a" for p'
        using assms(2) that p by (simp add: distinct_map inj_on_def)
      ultimately show ?thesis using False by blast
    qed
  qed
  with e populate_db_warm [OF pop assms(2)] show ?thesis by blast
qed

text \<open>
  C6: The database is ready when the start succeeds, whatever the EVM did in the warm-up, and stays
  so for the whole life of the bot: exactly the V2 and V3 pools are tracked, each under its own
  data, and every V3 pool has the slots in the cache that its calculation reads without asking the
  provider. So neither \<^verbatim>\<open>get_pool\<close> nor the \<open>unwrap\<close> of \<^verbatim>\<open>slot0\<close> and \<^verbatim>\<open>liquidity\<close> panics on a
  given pool.
\<close>

theorem market_db_ready:
  assumes "market_db R client (init_state_db R evm kc code kb rt prov pools) db"
    and "distinct (map pl_address pools)"
  shows "db_pools db = pl_address ` {p \<in> set pools. pl_is_v2 p \<or> pl_is_v3 p}
     \<and> (\<forall>p \<in> set pools. pl_is_v2 p \<or> pl_is_v3 p \<longrightarrow> get_pool db (pl_address p) = Ok p)
     \<and> (\<forall>p \<in> set pools. pl_is_v3 p \<and> \<not> pl_is_v2 p \<longrightarrow>
          (\<exists>cell. slot0 db (pl_address p) = slot0_of_cell cell) \<and> (\<exists>l. liquidity db (pl_address p) = Ok l))"
proof -
  from assms(1) have "\<exists>db0. init_state_db R evm kc code kb rt prov pools = Ok db0"
    by induction auto
  then obtain db0 where s: "init_state_db R evm kc code kb rt prov pools = Ok db0" by blast
  note r = init_state_db_ready [OF s assms(2)] and k = market_db_keeps [OF assms(1) [unfolded s]]
  have reads: "(\<exists>cell. slot0 db a = slot0_of_cell cell) \<and> (\<exists>l. liquidity db a = Ok l)" if "v3_warm db a" for a
  proof -
    from that obtain s0 s4 where "cached_slot db a 0 = Some s0" "cached_slot db a 4 = Some s4"
      by (auto simp: v3_warm_def)
    then show ?thesis by (auto simp: slot0_def liquidity_def cached_value_slot)
  qed
  have pools: "db_pools db = db_pools db0" and info: "db_pool_info db = db_pool_info db0" using k by auto
  show ?thesis
  proof (intro conjI ballI impI)
    show "db_pools db = pl_address ` {p \<in> set pools. pl_is_v2 p \<or> pl_is_v3 p}" using r pools by simp
    show "get_pool db (pl_address p) = Ok p" if "p \<in> set pools" "pl_is_v2 p \<or> pl_is_v3 p" for p
      using r that by (auto simp: get_pool_def info)
    fix p assume p: "p \<in> set pools" "pl_is_v3 p \<and> \<not> pl_is_v2 p"
    with r k have "v3_warm db (pl_address p)" by blast
    with reads show "\<exists>cell. slot0 db (pl_address p) = slot0_of_cell cell"
      "\<exists>l. liquidity db (pl_address p) = Ok l" by blast+
  qed
qed

text \<open>The provider of the examples answers everything, so nothing fails over it.\<close>

lemma ex_transact:
  assumes "db_provider d = ex_provider"
  shows "\<exists>v d'. transact_db ex_revm ex_evm d caller target call = (Ok (Success [v], []), d')
     \<and> db_provider d' = ex_provider"
proof -
  obtain r d' where t: "transact_db ex_revm ex_evm d caller target call = (r, d')" by force
  have "\<exists>w. storage_view ex_revm d 10 3 = Ok w"
    using assms by (cases "cached_slot d 10 3"; cases "db_accounts d 10")
      (simp_all add: storage_view_def provider_read_def account_view_def basic_ref_def ex_provider_def)
  with transact_answer [of ex_revm ex_evm d caller target call] t
  have "\<exists>v. r = Ok (Success [v], [])" by (auto simp: ex_evm_def db_view_def)
  moreover have "db_provider (snd (transact_db ex_revm ex_evm d caller target call)) = db_provider d"
    unfolding transact_db_def by (rule run_keeps) (rule fills_frame(1))
  ultimately show ?thesis using t assms by auto
qed

lemma ex_market_insert:
  assumes "db_provider d = ex_provider"
  shows "\<exists>d'. insert_account_storage ex_revm d a k v it = (Ok (), d') \<and> db_provider d' = ex_provider"
  using assms
  by (cases "db_accounts d a")
    (simp_all add: insert_account_storage_def basic_def basic_ref_def ex_provider_def insert_slot_def)

lemma ex_market_warm_up:
  assumes "db_provider d = ex_provider"
  shows "\<exists>d'. warm_up_pool_db ex_revm ex_evm slot p d = Ok d' \<and> db_provider d' = ex_provider"
proof -
  obtain d1 where d1: "insert_account_storage ex_revm d (pl_token0 p) slot 10000000000000000000 OnChain =
      (Ok (), d1)" "db_provider d1 = ex_provider" using ex_market_insert [OF assms] by blast
  obtain v d2 where d2: "transact_db ex_revm ex_evm d1 quote_caller (pl_token0 p)
      (Approve quoter_address 1000000000000000000) = (Ok (Success [v], []), d2)" "db_provider d2 = ex_provider"
    using ex_transact [OF d1(2)] by blast
  let ?call = "Abi_bytes (Quote_arbitrage \<lparr>pr_pools = [pl_address p],
    pr_versions = [if pl_is_v3 p then 1 else 0], pr_amount_in = AMOUNT\<rparr>)"
  obtain w d3 where d3: "transact_db ex_revm ex_evm d2 quote_caller quoter_address ?call =
      (Ok (Success [w], []), d3)" "db_provider d3 = ex_provider" using ex_transact [OF d2(2)] by blast
  have "transact_commit_db ex_revm ex_evm d1 quote_caller (pl_token0 p)
      (Approve quoter_address 1000000000000000000) = Ok d2"
    using d2(1) by (simp add: transact_commit_db_def commit_def)
  with d1(1) d3 show ?thesis by (simp add: warm_up_pool_db_def Let_def)
qed

lemma ex_populate_v3:
  assumes "db_provider d = ex_provider"
  shows "\<exists>d'. populate_pool ex_keccak ex_revm ex_v3_pool d = Ok d'"
proof -
  have h: "has_account (add_pool ex_revm d ex_v3_pool) 77"
    using assms by (simp add: add_pool_has_account ex_v3_pool_def ex_pool_def basic_ref_def ex_provider_def)
  have sp: "uint_to (v3_sqrt_price ex_v3) = Ok (5000 :: u160)"
    by (simp add: uint_to_def ex_v3_def)
  from sr.put_all_has [OF h, of "v3_slots ex_keccak 5000 ex_v3"] sp
  have "\<exists>d'. insert_v3 ex_keccak ex_revm d ex_v3_pool = Ok d'"
    by (auto simp: insert_v3_def Let_def rbind_eq_Inr insert_slot0_eq insert_liquidity_def
      insert_tick_spacing_Inr insert_ticks_eq insert_bitmap_eq v3_slots_def put_all_append
      sr.put_all_simps ex_v3_pool_def ex_pool_def ex_v3_def)
  then show ?thesis by (auto simp: populate_pool_def) (simp_all add: ex_v3_pool_def)
qed

definition ex_start :: "state_db res" where
  "ex_start = init_state_db ex_revm ex_evm ex_keccak [96] (\<lambda>c. 1) True ex_provider [ex_v3_pool]"

lemma ex_start_Ok: "\<exists>db. ex_start = Ok db"
proof -
  let ?d = "insert_account_info ex_revm ex_db quoter_address
    \<lparr>ai_balance = 0, ai_nonce = 0, ai_code_hash = 1, ai_code = Some [96]\<rparr> Custom"
  have "db_provider ?d = ex_provider" by (simp add: ex_db_def)
  from ex_market_warm_up [OF this, of "hashed_slot ex_keccak 3 (ucast quote_caller)" ex_v3_pool] obtain d1 where
    d1: "warm_up_database_db ex_revm ex_evm ex_keccak [96] (\<lambda>c. 1) [ex_v3_pool] ex_db = Ok d1"
      "db_provider d1 = ex_provider" by (auto simp: warm_up_database_db_def Let_def)
  with ex_populate_v3 [OF d1(2)] show ?thesis
    by (auto simp: ex_start_def init_state_db_def ex_db_new populate_db_with_pools_def)
qed

text \<open>A V3 pool: its start, an EVM run that reads, and a block that reports a slot of it.\<close>

theorem market_db_ready_witness:
  "\<exists>db. market_db ex_revm (\<lambda>n. Some ex_traces) ex_start db \<and> db_pools db = {77}
     \<and> get_pool db 77 = Ok ex_v3_pool \<and> (\<exists>l. liquidity db 77 = Ok l)"
proof -
  let ?client = "\<lambda>n :: u64. Some ex_traces"
  obtain db0 where "ex_start = Ok db0" using ex_start_Ok by blast
  then have "market_db ex_revm ?client ex_start db0" by (rule started)
  then have m: "market_db ex_revm ?client ex_start
      (snd (run_reader (db_read ex_revm) (Ask (Q_storage 20 1) (\<lambda>_. Finished (Ok ()))) db0))"
    by (rule evm_reads)
  obtain r where "update_state ?client 7
      (snd (run_reader (db_read ex_revm) (Ask (Q_storage 20 1) (\<lambda>_. Finished (Ok ()))) db0)) = Ok r"
    using update_state_Ok [of ?client 7, OF option.distinct(2)] by blast
  then obtain db2 upd where u: "update_state ?client 7
      (snd (run_reader (db_read ex_revm) (Ask (Q_storage 20 1) (\<lambda>_. Finished (Ok ()))) db0)) = Ok (db2, upd)"
    by (cases r) blast
  have m2: "market_db ex_revm ?client ex_start db2" using m u by (rule block)
  have f: "pl_address ex_v3_pool = 77" "pl_is_v3 ex_v3_pool" "\<not> pl_is_v2 ex_v3_pool"
    by (simp_all add: ex_v3_pool_def ex_pool_def)
  have "db_pools db2 = pl_address ` {p \<in> set [ex_v3_pool]. pl_is_v2 p \<or> pl_is_v3 p}
     \<and> (\<forall>p \<in> set [ex_v3_pool]. pl_is_v2 p \<or> pl_is_v3 p \<longrightarrow> get_pool db2 (pl_address p) = Ok p)
     \<and> (\<forall>p \<in> set [ex_v3_pool]. pl_is_v3 p \<and> \<not> pl_is_v2 p \<longrightarrow>
          (\<exists>cell. slot0 db2 (pl_address p) = slot0_of_cell cell) \<and> (\<exists>l. liquidity db2 (pl_address p) = Ok l))"
    by (rule market_db_ready [OF m2 [unfolded ex_start_def]]) simp
  with m2 f show ?thesis by (intro exI [of _ db2]) auto
qed

end
