(* ===== verification/Spec2Isabelle.thy ===== *)
theory Spec2Isabelle
  imports ExampleRun MarketLife
begin

text \<open>
  \<^bold>\<open>BaseBuster\<close>, an arbitrage bot for the Base chain: a verification library over the Rust code
  in \<^verbatim>\<open>src/\<close>.

  \<^bold>\<open>The program.\<close> \<^verbatim>\<open>main.rs\<close> synchronises the pools of eleven exchanges and hands them to
  \<^verbatim>\<open>ignition.rs\<close>, which filters them (\<^verbatim>\<open>filter.rs\<close>), loads them into a database in the format
  of the EVM (\<^verbatim>\<open>market_state.rs\<close>, \<^verbatim>\<open>state_db/\<close>), estimates exchange rates (\<^verbatim>\<open>estimator.rs\<close>),
  enumerates the cycles of WETH (\<^verbatim>\<open>graph.rs\<close>) and starts four tasks that talk over channels
  (\<^verbatim>\<open>events.rs\<close>): the state updater applies the trace of every block (\<^verbatim>\<open>tracing.rs\<close>) to the
  database and announces the touched pools; the searcher (\<^verbatim>\<open>searcher.rs\<close>) recalculates the
  best cycle through them with the calculator (\<^verbatim>\<open>calculation/\<close>) and its cache (\<^verbatim>\<open>cache.rs\<close>); the
  simulator (\<^verbatim>\<open>simulator.rs\<close>, \<^verbatim>\<open>quoter.rs\<close>) quotes it in an EVM and optimises its input; the
  sender (\<^verbatim>\<open>tx_sender.rs\<close>, \<^verbatim>\<open>gas_station.rs\<close>) makes and posts the transaction.

  \<^bold>\<open>The theories\<close>, in the order of their imports:

  \<^item> \<open>Prelude\<close>: words, results (\<open>res\<close>: \<open>Inl\<close> a panic or an error, \<open>Inr\<close> a value), lists.
  \<^item> \<open>Pools\<close>: pools, swap paths, contract parameters, events (\<^verbatim>\<open>swap.rs\<close>, \<^verbatim>\<open>events.rs\<close>).
  \<^item> \<open>Cache\<close>: \<^verbatim>\<open>cache.rs\<close>, and the locale of a memo table that it interprets.
  \<^item> \<open>StateDB\<close>, \<open>V2DB\<close>, \<open>V3DB\<close>: \<^verbatim>\<open>state_db/blockstate_db.rs\<close>, \<^verbatim>\<open>v2_db.rs\<close>, \<^verbatim>\<open>v3_db.rs\<close>.
  \<^item> \<open>Uniswap\<close>, \<open>Aerodrome\<close>, \<open>Balancer\<close>, \<open>Calculator\<close>: \<^verbatim>\<open>calculation/\<close>.
  \<^item> \<open>Estimator\<close>, \<open>Graph\<close>, \<open>Searcher\<close>, \<open>Quoter\<close>, \<open>Simulator\<close>: the files of these names.
  \<^item> \<open>MarketState\<close>: \<^verbatim>\<open>market_state.rs\<close>, \<^verbatim>\<open>tracing.rs\<close>, \<^verbatim>\<open>stream.rs\<close>; \<open>ChainView\<close>: the abstract chain that
    the market state refines.
  \<^item> \<open>EvmReads\<close>: what the EVM does to the cache of the database, as a step relation, with the locale
    of a cached source of answers; \<open>EvmRuns\<close>: quoter, calculator and simulator again, with the database
    threaded through every EVM run; \<open>MarketLife\<close>: the start with the EVM on the mutable database
    and every later state of the market.
  \<^item> \<open>GasStation\<close>, \<open>TxSender\<close>, \<open>HistoryDB\<close>; \<open>PoolFilter\<close> is \<^verbatim>\<open>filter.rs\<close>.
  \<^item> \<open>Pipeline\<close>: \<^verbatim>\<open>start_workers\<close> of \<^verbatim>\<open>ignition.rs\<close> and the step relation of the tasks;
    \<open>Quiescence\<close>: their progress; \<open>BlockRuns\<close>: the headers in their channel, the end of the
    updater, and the blocks a run stands for.
  \<^item> \<open>ExampleRun\<close>: a concrete run from the start to a sent transaction.

  \<^bold>\<open>Conventions.\<close> A struct is a record and its methods are functions over it, with the state
  passed explicitly. Integers keep their width (\<open>u256 = 256 word\<close>) and wrap around as in a
  release build. A panic (\<open>unwrap\<close>, an index out of range, an assertion, a division by zero)
  is the value \<open>Inl (Panic _)\<close>, an error of \<open>Result\<close> is \<open>Inl (Error _)\<close>. A loop that need not
  end is \<open>partial_function (option)\<close>: not returning is \<open>None\<close>. Iterating a hash set or hash
  map takes the order from a parameter, of which only the law is asked that it lists the
  elements.

  \<^bold>\<open>Bounds.\<close> The search for cycles is recursive with fuel \<open>max_hops + 1\<close>; \<open>cycles_fuel\<close> shows
  that it is never used up, because each call lengthens the path that \<open>max_hops\<close> bounds. The
  Newton loop of Aerodrome has the 255 rounds of the code, the optimiser its 50, the receipt
  monitor its 10. The loop of Uniswap V3 is a partial function; \<open>uniswap_v3_out_returns\<close> proves
  that it ends.

  \<^bold>\<open>What the lemmas show.\<close> Of the database: reads through the cache and reads of the reference
  agree, insertions read back, a commit and a trace change exactly what they report, tracked
  pools are those with data. Of the calculations: exactness, bounds and rounding of the
  formulas, every panic with its condition, termination of the loops. Across tracing, database and
  calculation: a quote after a block is the formula on what the block reports. Of the EVM on the
  database: whatever it reads, its results are those of a view that its reads do not change, so
  that simulator and calculator may be taken to work on a fixed database; but what it has read
  stays, and no block replaces it but for the slots of tracked pools. Of the calculator: a
  valid cache is never observable, except that its key forgets the direction. Of estimator
  and graph: the rates and cycles are exactly the specified ones. Of the tasks: which blocks
  are applied, which path is sent, with which input, fee and nonce. Below, of the system of
  all tasks: the cache of the searcher is stale only for pools whose message is still under way,
  only cycles of WETH whose calculated output clears the minimal profit lead to transactions, the
  database and the messages stand for blocks applied in order, without new blocks the channels run
  empty, and the updater ends for good when it lags behind the headers.

  \<^bold>\<open>Parameters.\<close> The repository does not compile: \<^verbatim>\<open>Cache::set\<close>, \<^verbatim>\<open>Calculator::invalidate_cache\<close>,
  \<^verbatim>\<open>get_fee\<close>, \<^verbatim>\<open>get_decimals\<close>, \<^verbatim>\<open>get_stable\<close> and \<^verbatim>\<open>PoolManager\<close> are called and nowhere defined.
  They are parameters with their expected laws as hypotheses (\<open>cache_set_law\<close>,
  \<open>invalidate_law\<close>), as are the EVM, \<^verbatim>\<open>uniswap_v3_math\<close>, \<^verbatim>\<open>keccak256\<close>, the RPC provider, the
  hash of a path, the wallet, the sequencer and the databases of \<^verbatim>\<open>node_db\<close> and \<^verbatim>\<open>reth\<close>.

  \<^bold>\<open>Not modelled.\<close> \<^verbatim>\<open>bytecode.rs\<close> is contract code, the Solidity contracts are another
  language; of the bindings \<^verbatim>\<open>gen_.rs\<close> the arguments of the calls the bot makes are modelled,
  their ABI encoding is not. The system of all tasks (\<open>Pipeline\<close>) uses the EVM that returns a
  result only, which \<open>EvmRuns\<close> justifies. Logging, serialisation of requests and the reading of
  environment variables are left out. The first
  half of \<^verbatim>\<open>quoter.rs\<close>, the second half of \<^verbatim>\<open>tx_sender.rs\<close> and the tests are comments or tests.
  Quoting in the EVM reads through the database and fills its cache; \<open>EvmRuns\<close> proves that its results
  and all later reads are those of the database left as it is, which \<open>Pipeline\<close> therefore does.

  \<^bold>\<open>Granularity.\<close> In \<open>Pipeline\<close> the updater takes two steps per block, the searcher two and every other
  task one per message; a step of the searcher or of the simulator sees one state of the database,
  while the code locks it anew for each pool it reads or quote it makes. Blocks that the updater
  handles while rates and cycles are computed fall between these computations. What the node
  answers, the provider of the database and the traces, is fixed for a run; \<open>quote_frozen\<close> is
  without this assumption. Of the broadcast channel of \<^verbatim>\<open>tokio\<close> the
  documented behaviour is used: each receiver gets the headers in order, and one that falls
  behind by more than the capacity may get an error in the place of the oldest, with at least 100
  left. A panic of a task is a step it cannot take.
\<close>

subsection \<open>The running system\<close>

text \<open>
  C1: The cache of the searcher in a run, however the tasks interleave: whatever it holds is what
  the calculator answers on the present database for one of the ways in which the cycles use
  the pool, unless a message in the channel, or one that the updater is about to send, still
  announces the pool. When there is no such message, no entry is stale.
\<close>

theorem cache_never_stale:
  assumes "world_ok W" "synced pools" "running W heads pools l s"
    and "cache_get (se_cache (sy_searcher s)) x p = Some v"
  shows "(pending (sy_queue s @ sy_unsent s) p
      \<or> fresh_quote (wd_calc W) (snd (sy_market s)) (se_cycles (sy_searcher s)) p x v)
    \<and> (sy_queue s = [] \<and> sy_unsent s = [] \<longrightarrow>
        fresh_cache (wd_calc W) (snd (sy_market s)) (se_cycles (sy_searcher s)) (se_cache (sy_searcher s)))"
proof -
  from running_inv [OF assms(1-3)]
  have sound: "cm.sound (current_or_pending W s) (se_cache (sy_searcher s))"
    by (simp add: run_inv_def)
  from cm.soundD [OF sound assms(4)] fresh_without_messages [OF running_inv [OF assms(1-3)]]
  show ?thesis by (simp add: current_or_pending_def)
qed

theorem cache_never_stale_witness:
  "\<exists>s. running ex_world [Some 0] [pool_a, pool_b] 0 s
     \<and> cache_get (se_cache (sy_searcher s)) AMOUNT 77 = Some 1993980120018203
     \<and> fresh_cache ex_dust_env (snd (sy_market s)) (se_cycles (sy_searcher s)) (se_cache (sy_searcher s))"
proof -
  obtain s where s: "running ex_world [Some 0] [pool_a, pool_b] 0 s" "quiet s"
    "cache_get (se_cache (sy_searcher s)) AMOUNT 77 = Some 1993980120018203"
    using ex_run by blast
  from cache_never_stale [OF ex_world_ok ex_synced s(1,3)] s show ?thesis
    by (auto simp: ex_world_fields quiet_def)
qed

text \<open>
  C2: What is sent in a run: every transaction calls the arbitrage contract with the pools of a
  cycle of WETH through two of the pools handed to \<^verbatim>\<open>start_workers\<close>, of different types and
  with a common token; it offers a priority fee of at least 15571428; and the nonces are
  consecutive from that of the start, in the order of sending.
\<close>

theorem only_arbitrage_sent:
  assumes "world_ok W" "synced pools" "running W heads pools l s"
  shows "(\<forall>(tx, h) \<in> set (sy_sent s). \<exists>p q t params.
        p \<in> set pools \<and> q \<in> set pools \<and> t \<noteq> wd_weth W \<and> pl_type p \<noteq> pl_type q
      \<and> trades p (wd_weth W) t \<and> trades q t (wd_weth W)
      \<and> tx_input tx = Execute_arbitrage params \<and> fs_pools params = [pl_address p, pl_address q]
      \<and> tx_to tx = ts_contract (first_sender W) \<and> 15571428 \<le> unat (tx_priority_fee tx))
    \<and> map (tx_nonce \<circ> fst) (sy_sent s) =
        map (\<lambda>i. ts_nonce (first_sender W) + of_nat i) [0..<length (sy_sent s)]"
proof -
  from running_inv [OF assms]
  have sent: "\<forall>tx \<in> set (sy_sent s). good_tx W pools (fst tx)"
    and nonces: "map (tx_nonce \<circ> fst) (sy_sent s) =
        map (\<lambda>i. ts_nonce (first_sender W) + of_nat i) [0..<length (sy_sent s)]"
    by (simp_all add: run_inv_def)
  from nonces sent show ?thesis
    by (fastforce simp: good_tx_def arbitrage_def pool_step_def)
qed

theorem only_arbitrage_sent_witness:
  "\<exists>s tx params. running ex_world [Some 0] [pool_a, pool_b] 0 s \<and> sy_sent s = [(tx, None)]
     \<and> tx_nonce tx = 7 \<and> tx_input tx = Execute_arbitrage params
     \<and> set (fs_pools params) \<subseteq> {77, 78}"
proof -
  obtain s tx where s: "running ex_world [Some 0] [pool_a, pool_b] 0 s" "sy_sent s = [(tx, None)]"
    using ex_run by blast
  from only_arbitrage_sent [OF ex_world_ok ex_synced s(1)] s(2) obtain p q params where
    "p \<in> {pool_a, pool_b}" "q \<in> {pool_a, pool_b}" "tx_input tx = Execute_arbitrage params"
    "fs_pools params = [pl_address p, pl_address q]" "tx_nonce tx = 7"
    by (auto simp: ex_world_fields ex_first_sender)
  with s show ?thesis by (intro exI [of _ s] exI [of _ tx] exI [of _ params]) (auto simp: pool_ab_fields)
qed

text \<open>
  C29: The messages between searcher and simulator in a run: each carries a cycle of WETH and an
  output above the flash loan with its fee and one percent, so the subtraction of \<open>AMOUNT\<close>
  with which the simulator computes the profit never wraps around, and the profit is at
  least 1.09 percent of \<open>AMOUNT\<close>.
\<close>

theorem profit_never_wraps:
  assumes "world_ok W" "synced pools" "running W heads pools l s" "ev \<in> set (sy_paths s)"
  shows "\<exists>path out n. ev = ArbPath path out n \<and> arbitrage W pools path
     \<and> unat (out - AMOUNT) = unat out - unat AMOUNT \<and> 10900000000000 \<le> unat out - unat AMOUNT"
proof -
  from running_inv [OF assms(1-3)] assms(4) obtain path out n where
    ev: "ev = ArbPath path out n" "arbitrage W pools path" "1010900000000000 \<le> out"
    by (auto simp: run_inv_def good_path_def)
  from ev(3) have u: "1010900000000000 \<le> unat out" by (simp add: word_le_nat_alt)
  then have "AMOUNT \<le> out" by (simp add: word_le_nat_alt)
  then have "unat (out - AMOUNT) = unat out - unat AMOUNT" by (rule unat_sub)
  with ev u show ?thesis by simp
qed

theorem profit_never_wraps_witness:
  "\<exists>s. running ex_world [Some 0] [pool_a, pool_b] 0 s
     \<and> sy_paths s = [ArbPath cycle_ab 1987958659076193 1] \<and> arbitrage ex_world [pool_a, pool_b] cycle_ab"
proof -
  obtain s where s: "running ex_world [Some 0] [pool_a, pool_b] 0 s"
    "sy_paths s = [ArbPath cycle_ab 1987958659076193 1]" using ex_run by blast
  with profit_never_wraps [OF ex_world_ok ex_synced s(1), of "ArbPath cycle_ab 1987958659076193 1"]
  show ?thesis by auto
qed

text \<open>
  C28: The blocks of a run. The database holds the initial one with whole blocks applied, each at most
  once and in increasing order: the range that catching up covered and then \<open>ns\<close>. The messages
  that the searcher has not yet taken, sent or about to be sent, are those of the last blocks of
  \<open>ns\<close>, in their order; and what the searcher is working on and every path on its way to the
  sender names a block of \<open>ns\<close>, so nothing is searched or sent for a block that the database
  does not hold.
\<close>

theorem blocks_announced_in_order:
  assumes "running W heads pools l s"
  shows "\<exists>kept db0 m ns. filter_pools (wd_tokens W) (wd_token_order W) (wd_access_list W)
       (wd_node W) (wd_decoders W) (wd_nodedb W) pools 4000 = Ok kept
     \<and> init_state (wd_calc W) (wd_revm W) (wd_commit W) (wd_quoter_code W) (wd_keccak_bytes W)
         (wd_runtime W) (wd_provider W) kept = Ok db0
     \<and> l \<le> m \<and> (\<exists>h \<le> m. Some h \<in> set heads) \<and> sorted_wrt (<) (m # ns)
     \<and> apply_blocks (wd_client W) (block_range l m @ ns) db0 = Ok (snd (sy_market s))
     \<and> fst (sy_market s) = last (m # ns)
     \<and> suffix (map sent_block (sy_queue s @ sy_unsent s)) (map Some ns)
     \<and> (\<forall>ps n. sy_searching s = Some (ps, n) \<longrightarrow> n \<in> set ns)
     \<and> event_block ` set (sy_paths s @ sy_valid s) \<subseteq> set ns"
proof -
  from running_blocks [OF assms] obtain kept db0 db1 m ns where
    k: "filter_pools (wd_tokens W) (wd_token_order W) (wd_access_list W)
         (wd_node W) (wd_decoders W) (wd_nodedb W) pools 4000 = Ok kept"
      "init_state (wd_calc W) (wd_revm W) (wd_commit W) (wd_quoter_code W) (wd_keccak_bytes W)
         (wd_runtime W) (wd_provider W) kept = Ok db0"
      "l \<le> m" "\<exists>h \<le> m. Some h \<in> set heads"
    and caught: "apply_blocks (wd_client W) (block_range l m) db0 = Ok db1"
    and inv: "blocks_inv W m db1 ns s" by blast
  from caught inv have "apply_blocks (wd_client W) (block_range l m @ ns) db0 = Ok (snd (sy_market s))"
    by (simp add: apply_blocks_append blocks_inv_def)
  with k inv show ?thesis unfolding blocks_inv_def by blast
qed

theorem blocks_announced_in_order_witness:
  "\<exists>s db0 m ns. running ex_world [Some 0] [pool_a, pool_b] 0 s
     \<and> sy_paths s = [ArbPath cycle_ab 1987958659076193 1] \<and> 1 \<in> set ns \<and> sorted_wrt (<) (m # ns)
     \<and> apply_blocks (wd_client ex_world) (block_range 0 m @ ns) db0 = Ok (snd (sy_market s))"
proof -
  obtain s where s: "running ex_world [Some 0] [pool_a, pool_b] 0 s"
    "sy_paths s = [ArbPath cycle_ab 1987958659076193 1]" using ex_run by blast
  from blocks_announced_in_order [OF s(1)] obtain db0 m ns where
    "sorted_wrt (<) (m # ns)" "event_block ` set (sy_paths s @ sy_valid s) \<subseteq> set ns"
    "apply_blocks (wd_client ex_world) (block_range 0 m @ ns) db0 = Ok (snd (sy_market s))" by blast
  with s show ?thesis
    by (intro exI [of _ s] exI [of _ db0] exI [of _ m] exI [of _ ns]) (simp add: event_block_def)
qed

text \<open>
  C27: The end of the updater. Its loop over the headers ends in a run only because it lags, with at
  least 100 headers still waiting behind the notice, or because the subscription is over; never at
  a foreign event. Nothing starts it again: in every later state, whatever headers still
  arrive, the database is the one of the end, and the tasks send at most one transaction for each
  message that was under way. So one lag leaves the bot without effect for good.
\<close>

theorem lag_ends_updates:
  assumes "running W heads pools l s" "worker_step W s s'" "sy_updating s" "\<not> sy_updating s'"
    and "(worker_step W)\<^sup>*\<^sup>* s' t"
  shows "((\<exists>hs. sy_block_rx s = Receive_error # block_events hs \<and> 100 \<le> length hs)
        \<or> sy_block_rx s = [] \<and> \<not> sy_streaming s)
     \<and> \<not> sy_updating t \<and> sy_market t = sy_market s
     \<and> length (sy_sent t) \<le> length (sy_sent s) + under_way s"
proof -
  from updater_end [OF assms(2-4)] have s': "s' = s\<lparr>sy_updating := False\<rparr>"
    and ends: "loop_ends (sy_streaming s) (sy_block_rx s)" by simp_all
  from s' have "halted (sy_market s) (length (sy_sent s) + under_way s) s'"
    by (simp add: halted_def under_way_def)
  from halted_steps [OF assms(5) this] loop_ends_queue [OF _ ends] header_queues [OF assms(1)]
  show ?thesis by (auto simp: halted_def)
qed

text \<open>The run of \<^verbatim>\<open>ex_lag\<close>: 100 more headers arrive after the end, and block 1 is never applied.\<close>

theorem lag_ends_updates_witness:
  "\<exists>s t. running ex_world [Some 0] [pool_a, pool_b] 0 s \<and> sy_updating s
     \<and> running ex_world [Some 0] [pool_a, pool_b] 0 t \<and> \<not> sy_updating t
     \<and> sy_block_rx t = Receive_error # block_events (replicate 200 ex_block)
     \<and> fst (sy_market t) = 0 \<and> sy_market t = sy_market s"
proof -
  obtain s where s: "running ex_world [Some 0] [pool_a, pool_b] 0 s" "sy_updating s" "sy_streaming s"
    "fst (sy_market s) = 0" "sy_block_rx s = Receive_error # block_events (replicate 100 ex_block)"
    "worker_step ex_world s (s\<lparr>sy_updating := False\<rparr>)" using ex_lag by blast
  let ?s = "s\<lparr>sy_updating := False\<rparr>" and ?hs = "replicate 100 ex_block"
  let ?t = "?s\<lparr>sy_block_rx := sy_block_rx ?s @ block_events ?hs,
     sy_gas_rx := sy_gas_rx ?s @ block_events ?hs\<rparr>"
  have steps: "(worker_step ex_world)\<^sup>*\<^sup>* ?s ?t" by (rule streams) (simp add: s(3))
  from lag_ends_updates [OF s(1,6,2) _ steps] have "\<not> sy_updating ?t" "sy_market ?t = sy_market s"
    by simp_all
  moreover have "running ex_world [Some 0] [pool_a, pool_b] 0 ?t"
    by (rule running_steps [OF steps running.step [OF s(1,6)]])
  moreover have "sy_block_rx ?t = Receive_error # block_events (replicate 200 ex_block)"
    unfolding replicate_add [of 100 100, simplified] by (simp add: s(5))
  ultimately show ?thesis using s(1,2,4) by (intro exI [of _ s] exI [of _ ?t]) simp
qed

text \<open>
  C4: The system comes to rest: from every state of a run, without a new block, handling messages
  leads in at most \<open>work s\<close> steps to a state in which either all channels are empty and every
  entry of the cache is a current quote, or the task at some channel panics or does not return
  on the message at its head.
\<close>

theorem pipeline_drains:
  assumes "world_ok W" "synced pools" "running W heads pools l s"
  shows "\<exists>n s'. n \<le> work s \<and> (handles W ^^ n) s s' \<and> running W heads pools l s'
     \<and> (quiet s' \<and> fresh_cache (wd_calc W) (snd (sy_market s)) (se_cycles (sy_searcher s'))
            (se_cache (sy_searcher s'))
        \<or> search_fails W s' \<or> simulation_fails W s' \<or> sending_fails W s')"
proof -
  from drains [OF assms] obtain n s' where s': "n \<le> work s" "(handles W ^^ n) s s'"
    "running W heads pools l s'" "sy_market s' = sy_market s"
    "quiet s' \<or> search_fails W s' \<or> simulation_fails W s' \<or> sending_fails W s'" by blast
  with fresh_without_messages [OF running_inv [OF assms(1,2) s'(3)]] show ?thesis
    by (auto simp: quiet_def)
qed

theorem pipeline_drains_witness:
  "\<exists>s n s'. running ex_world [Some 0] [pool_a, pool_b] 0 s
     \<and> sy_paths s = [ArbPath cycle_ab 1987958659076193 1]
     \<and> n \<le> work s \<and> (handles ex_world ^^ n) s s' \<and> running ex_world [Some 0] [pool_a, pool_b] 0 s'"
proof -
  obtain s where s: "running ex_world [Some 0] [pool_a, pool_b] 0 s"
    "sy_paths s = [ArbPath cycle_ab 1987958659076193 1]" using ex_run by blast
  from pipeline_drains [OF ex_world_ok ex_synced s(1)] s show ?thesis by blast
qed

subsection \<open>From the trace of a block to a quote\<close>

text \<open>
  C5: The quotes follow the chain: after a block whose trace last reports slot 8 of a tracked pool
  as the word in which the pair contract packs its reserves, the calculator quotes the pool as
  the constant product on exactly these reserves, with the fee of its exchange, rounded down
  and without wrap-around.
\<close>

theorem quote_follows_chain:
  assumes "update_state client n db = Ok (db', upd)" and "client n = Some rs"
    and "p \<in> db_pools db" "has_account db p" "zero_to_one db p t = Some z"
    and "map_of (rev (reported (posts rs) p)) 8 = Some (pack_reserves ts r0 r1)"
    and "unat r0 < 2 ^ 112" "unat r1 < 2 ^ 112" "unat x < 2 ^ 128"
    and "(ty, f) \<in> {(UniswapV2, 9970), (SushiSwapV2, 9970), (SwapBasedV2, 9970),
       (PancakeSwapV2, 9975), (BaseSwapV2, 9975), (DackieSwapV2, 9975), (AlienBaseV2, 9984)}"
    and "rin = (if z then r0 else r1)" "rout = (if z then r1 else r0)" "0 < rin"
  shows "\<exists>out. compute_amount_out E db' x p t ty fee = Some (Ok out)
     \<and> unat out = unat x * f * unat rout div (unat rin * 10000 + unat x * f)"
proof -
  from assms(1,2) have "rfold apply_update (posts rs) (db, {}) = Ok (db', upd)"
    by (simp add: update_state_eq)
  with apply_updates [of "posts rs" db "{}"] assms(3,4) have "storage_ref db' p 8 =
      (case map_of (rev (reported (posts rs) p)) 8 of Some v \<Rightarrow> Ok v | None \<Rightarrow> storage_ref db p 8)"
    by auto
  then have reserves: "get_reserves db' p = Ok (r0, r1)"
    using assms(6) unpack_reserves [OF assms(7,8)] by (simp add: get_reserves_eq)
  have zto: "zero_to_one db' p t = Some z"
    using assms(5) update_state_pool_info [OF assms(1)] by (simp add: zero_to_one_def)
  from assms(10) have quote: "compute_amount_out E db' x p t ty fee =
      Some (uniswap_v2_out db' x p t (of_nat f))" and f: "f \<le> 10000"
    by (auto simp: compute_amount_out_def)
  from f have uf: "unat (of_nat f :: u256) = f" by (simp add: unsigned_of_nat take_bit_nat_eq_self)
  let ?v = "v2_spec (unat x) f (unat rin) (unat rout)"
  from assms(13) have "unat rin \<noteq> 0" by (auto simp: unsigned_eq_0_iff)
  then have "uniswap_v2_out db' x p t (of_nat f) = Ok (of_nat ?v)"
    using uniswap_v2_out_spec [OF zto reserves assms(9) _ assms(11,12), of "of_nat f"] f uf by simp
  moreover have "?v < 2 ^ 256"
    using v2_spec_le [of "unat x" f "unat rin" "unat rout"] unat_less_width [of rout] by simp
  ultimately show ?thesis
    by (simp add: quote v2_spec_def unsigned_of_nat take_bit_nat_eq_self)
qed

text \<open>The block of \<^verbatim>\<open>update_state_reads\<close>: the reserves 300 and 400.\<close>

theorem quote_follows_chain_witness:
  "\<exists>db' out. update_state (\<lambda>n. Some ex_traces) 7 ex_v2_db = Ok (db', {77})
     \<and> compute_amount_out ex_env db' 100 77 10 UniswapV2 0 = Some (Ok out)
     \<and> unat out = 100 * 9970 * 400 div (300 * 10000 + 100 * 9970)"
proof -
  obtain db' upd where db': "update_state (\<lambda>n. Some ex_traces) 7 ex_v2_db = Ok (db', upd)"
    using update_state_Ok [of "\<lambda>n. Some ex_traces" 7 ex_v2_db] by auto
  have p: "fst ` set (posts ex_traces) \<inter> db_pools ex_v2_db = {77}"
    "map_of (rev (reported (posts ex_traces) 77)) 8 = Some (pack_reserves 9 300 400)"
    by (simp_all add: ex_traces_def ex_v2_db_fields reported_def)
  with db' apply_updates [of "posts ex_traces" ex_v2_db "{}"] have "upd = {77}"
    by (auto simp: update_state_eq)
  moreover from quote_follows_chain [OF db' refl _ _ ex_v2_db_reads(1) p(2) _ _ _ _ refl refl,
      of 100 UniswapV2 9970 ex_env 0] obtain out where
    "compute_amount_out ex_env db' 100 77 10 UniswapV2 0 = Some (Ok out)"
    "unat out = 100 * 9970 * 400 div (300 * 10000 + 100 * 9970)"
    by (auto simp: ex_v2_db_fields)
  ultimately show ?thesis using db' by blast
qed

end
